(* ===== verification/KV_Prelude.thy ===== *)
theory KV_Prelude
  imports Main "HOL-Library.Word" "HOL-Library.Multiset"
begin

text \<open>
  Shared vocabulary of the development: the exceptions of the Python code as values,
  the result type of fallible operations, the collections of facts the component proofs
  use, and generic lemmas on lists, options and integers.
\<close>

section \<open>Errors and results\<close>

text \<open>
  One constructor per exception class that the modelled code raises or lets through.
  \<open>AssertionError\<close> is a failing \<^verbatim>\<open>assert\<close>; \<open>StopIteration\<close> is \<^verbatim>\<open>next\<close> on an
  exhausted iterator.
\<close>

datatype error =
    AssertionError
  | ValueError
  | IndexError
  | KeyError
  | RuntimeError
  | StopIteration
  | OverflowError
  | NotImplementedError
  | ZeroDivisionError
  | OutOfMemoryError
  | ResourceBusyError
  | LogicError
  | OutOfPagesError
  | AttributeError

type_synonym 'a res = "error + 'a"

definition bindR :: "'a res \<Rightarrow> ('a \<Rightarrow> 'b res) \<Rightarrow> 'b res" where
  "bindR m f = (case m of Inl e \<Rightarrow> Inl e | Inr x \<Rightarrow> f x)"

definition guardR :: "bool \<Rightarrow> error \<Rightarrow> 'a res \<Rightarrow> 'a res" where
  "guardR c e k = (if c then k else Inl e)"

text \<open>The assertion of the language: continue when the condition holds.\<close>

abbreviation assertR :: "bool \<Rightarrow> 'a res \<Rightarrow> 'a res" where
  "assertR c k \<equiv> guardR c AssertionError k"

fun mapR :: "('a \<Rightarrow> 'b res) \<Rightarrow> 'a list \<Rightarrow> 'b list res" where
  "mapR f [] = Inr []"
| "mapR f (x # xs) = bindR (f x) (\<lambda>y. bindR (mapR f xs) (\<lambda>ys. Inr (y # ys)))"

text \<open>Subscripts of the language: a negative index counts from the end.\<close>

definition py_index :: "'a list \<Rightarrow> int \<Rightarrow> 'a res" where
  "py_index xs i = (let j = (if i < 0 then i + int (length xs) else i)
     in guardR (0 \<le> j \<and> j < int (length xs)) IndexError (Inr (xs ! nat j)))"

definition py_update :: "'a list \<Rightarrow> int \<Rightarrow> ('a \<Rightarrow> 'a) \<Rightarrow> 'a list res" where
  "py_update xs i f = (let j = (if i < 0 then i + int (length xs) else i)
     in guardR (0 \<le> j \<and> j < int (length xs)) IndexError (Inr (xs[nat j := f (xs ! nat j)])))"

text \<open>Floor division of the language.\<close>

definition floordiv :: "int \<Rightarrow> int \<Rightarrow> int res" where
  "floordiv a b = guardR (b \<noteq> 0) ZeroDivisionError (Inr (a div b))"

named_theorems res_simps \<open>evaluation of results\<close>

lemma bindR_simps [simp, res_simps]:
  "bindR (Inl e) f = Inl e"
  "bindR (Inr x) f = f x"
  by (simp_all add: bindR_def)

lemma guardR_simps [simp, res_simps]:
  "guardR True e k = k"
  "guardR False e k = Inl e"
  by (simp_all add: guardR_def)

lemma bindR_eq_Inr_iff: "bindR m f = Inr y \<longleftrightarrow> (\<exists>x. m = Inr x \<and> f x = Inr y)"
  by (cases m) auto

lemma bindR_eq_Inl_iff: "bindR m f = Inl e \<longleftrightarrow> m = Inl e \<or> (\<exists>x. m = Inr x \<and> f x = Inl e)"
  by (cases m) auto

lemma guardR_eq_Inr_iff: "guardR c e k = Inr y \<longleftrightarrow> c \<and> k = Inr y"
  by (simp add: guardR_def)

lemma guardR_eq_Inl_iff: "guardR c e k = Inl e' \<longleftrightarrow> (\<not> c \<and> e = e') \<or> (c \<and> k = Inl e')"
  by (auto simp: guardR_def)

lemmas res_iffs = bindR_eq_Inr_iff bindR_eq_Inl_iff guardR_eq_Inr_iff guardR_eq_Inl_iff

lemma mapR_Inr_map: "(\<And>x. x \<in> set xs \<Longrightarrow> f x = Inr (g x)) \<Longrightarrow> mapR f xs = Inr (map g xs)"
  by (induction xs) auto

lemma mapR_map: "mapR f (map g xs) = mapR (\<lambda>x. f (g x)) xs"
  by (induction xs) auto

lemma mapR_Inr_length: "mapR f xs = Inr ys \<Longrightarrow> length ys = length xs"
  by (induction xs arbitrary: ys) (auto simp: res_iffs)

section \<open>Python containers\<close>

text \<open>
  List indexing with a non-negative index, list slices \<^verbatim>\<open>xs[a:b]\<close> and a dictionary kept
  as an association list in insertion order.
\<close>

definition list_get :: "'a list \<Rightarrow> nat \<Rightarrow> 'a res" where
  "list_get xs i = (if i < length xs then Inr (xs ! i) else Inl IndexError)"

definition list_set :: "'a list \<Rightarrow> nat \<Rightarrow> 'a \<Rightarrow> 'a list res" where
  "list_set xs i v = (if i < length xs then Inr (xs[i := v]) else Inl IndexError)"

definition slice :: "'a list \<Rightarrow> nat \<Rightarrow> nat \<Rightarrow> 'a list" where
  "slice xs a b = take (b - a) (drop a xs)"

fun dict_set :: "'k \<Rightarrow> 'v \<Rightarrow> ('k \<times> 'v) list \<Rightarrow> ('k \<times> 'v) list" where
  "dict_set k v [] = [(k, v)]"
| "dict_set k v ((k', v') # d) = (if k = k' then (k', v) # d else (k', v') # dict_set k v d)"

fun dict_del :: "'k \<Rightarrow> ('k \<times> 'v) list \<Rightarrow> ('k \<times> 'v) list" where
  "dict_del k [] = []"
| "dict_del k ((k', v') # d) = (if k = k' then d else (k', v') # dict_del k d)"

abbreviation dict_keys :: "('k \<times> 'v) list \<Rightarrow> 'k list" where
  "dict_keys d \<equiv> map fst d"

abbreviation dict_ok :: "('k \<times> 'v) list \<Rightarrow> bool" where
  "dict_ok d \<equiv> distinct (dict_keys d)"

lemma list_get_Inr_iff [simp]: "list_get xs i = Inr x \<longleftrightarrow> i < length xs \<and> x = xs ! i"
  by (auto simp: list_get_def)

lemma list_set_Inr_iff [simp]: "list_set xs i v = Inr ys \<longleftrightarrow> i < length xs \<and> ys = xs[i := v]"
  by (auto simp: list_set_def)

lemma list_get_less [simp]: "i < length xs \<Longrightarrow> list_get xs i = Inr (xs ! i)"
  by (simp add: list_get_def)

lemma list_set_less [simp]: "i < length xs \<Longrightarrow> list_set xs i v = Inr (xs[i := v])"
  by (simp add: list_set_def)

lemma map_of_dict_set [simp]: "map_of (dict_set k v d) = (map_of d)(k \<mapsto> v)"
  by (induction k v d rule: dict_set.induct) auto

lemma set_dict_set_keys [simp]: "fst ` set (dict_set k v d) = insert k (fst ` set d)"
  by (induction k v d rule: dict_set.induct) auto

lemma dict_set_keys: "dict_keys (dict_set k v d) = (if k \<in> set (dict_keys d) then dict_keys d else dict_keys d @ [k])"
  by (induction k v d rule: dict_set.induct) auto

lemma dict_ok_set [simp]: "dict_ok d \<Longrightarrow> dict_ok (dict_set k v d)"
  by (simp add: dict_set_keys)

lemma dict_set_new: "k \<notin> fst ` set d \<Longrightarrow> dict_set k v d = d @ [(k, v)]"
  by (induction k v d rule: dict_set.induct) auto

lemma dict_del_keys: "dict_keys (dict_del k d) = remove1 k (dict_keys d)"
  by (induction k d rule: dict_del.induct) auto

lemma dict_ok_del [simp]: "dict_ok d \<Longrightarrow> dict_ok (dict_del k d)"
  by (simp add: dict_del_keys)

lemma map_of_dict_del [simp]: "dict_ok d \<Longrightarrow> map_of (dict_del k d) = (map_of d)(k := None)"
  by (induction k d rule: dict_del.induct) (auto simp: map_of_eq_None_iff)

lemma dict_del_absent [simp]: "k \<notin> fst ` set d \<Longrightarrow> dict_del k d = d"
  by (induction k d rule: dict_del.induct) auto

lemma dict_set_sum:
  fixes F :: "'k \<Rightarrow> 'v \<Rightarrow> 'm::cancel_comm_monoid_add"
  shows "sum_list (map (\<lambda>(k, v). F k v) (dict_set k v d)) + (case map_of d k of None \<Rightarrow> 0 | Some u \<Rightarrow> F k u)
    = sum_list (map (\<lambda>(k, v). F k v) d) + F k v"
  by (induction k v d rule: dict_set.induct) (auto simp: ac_simps split: option.splits)

lemma set_dict_set_subset: "set (dict_set k v d) \<subseteq> insert (k, v) (set d)"
  by (induction k v d rule: dict_set.induct) auto

text \<open>Lookup in a dictionary whose values are lists, with the empty list as the default.\<close>

abbreviation dget :: "('k \<times> 'a list) list \<Rightarrow> 'k \<Rightarrow> 'a list" where
  "dget d k \<equiv> (case map_of d k of None \<Rightarrow> [] | Some xs \<Rightarrow> xs)"

section \<open>Generic facts\<close>

lemma filter_upt_card: "length (filter P [0..<n]) = card {i. i < n \<and> P i}"
proof -
  have "length (filter P [0..<n]) = card (set (filter P [0..<n]))"
    by (rule distinct_card [symmetric]) simp
  also have "set (filter P [0..<n]) = {i. i < n \<and> P i}" by auto
  finally show ?thesis .
qed

lemma sum_list_nonneg_int: "(\<And>x. x \<in> set xs \<Longrightarrow> (0::int) \<le> f x) \<Longrightarrow> 0 \<le> sum_list (map f xs)"
  by (induction xs) auto

lemma sum_list_mono_int:
  "(\<And>x. x \<in> set xs \<Longrightarrow> (f x :: int) \<le> g x) \<Longrightarrow> sum_list (map f xs) \<le> sum_list (map g xs)"
  by (induction xs) (auto intro: add_mono)

lemma member_le_sum_list_int:
  "(\<And>y. y \<in> set xs \<Longrightarrow> (0::int) \<le> f y) \<Longrightarrow> x \<in> set xs \<Longrightarrow> f x \<le> sum_list (map f xs)"
proof (induction xs)
  case (Cons a xs)
  then have "0 \<le> sum_list (map f xs)" by (intro sum_list_nonneg_int) auto
  with Cons show ?case by (auto intro: add_increasing)
qed simp

lemma map_remove1_inj: "inj_on f (set xs) \<Longrightarrow> x \<in> set xs \<Longrightarrow> map f (remove1 x xs) = remove1 (f x) (map f xs)"
  by (induction xs) (auto simp: inj_on_def)

lemma map2_append_replicate: "length xs = n \<Longrightarrow> map2 (@) xs (replicate n []) = xs"
  by (induction xs arbitrary: n) auto

lemma distinct_submset: "mset xs \<subseteq># mset ys \<Longrightarrow> distinct ys \<Longrightarrow> distinct xs"
proof -
  assume sub: "mset xs \<subseteq># mset ys" and d: "distinct ys"
  obtain zs where "mset ys = mset (xs @ zs)" using sub by (metis mset_append mset_subset_eq_exists_conv ex_mset)
  from mset_eq_imp_distinct_iff [OF this] show ?thesis using d by simp
qed

lemma mset_concat_update:
  "i < length xss \<Longrightarrow> mset (concat (xss[i := xss ! i @ [x]])) = add_mset x (mset (concat xss))"
proof (induction xss arbitrary: i)
  case (Cons xs xss)
  then show ?case by (cases i) auto
qed simp

lemma concat_last:
  "concat xss \<noteq> [] \<Longrightarrow> \<exists>i xs x. i < length xss \<and> xss ! i = xs @ [x] \<and> concat xss = concat (xss[i := xs]) @ [x]"
proof (induction xss rule: rev_induct)
  case (snoc ys xss)
  show ?case
  proof (cases ys rule: rev_cases)
    case Nil
    then obtain i xs x where "i < length xss" "xss ! i = xs @ [x]" "concat xss = concat (xss[i := xs]) @ [x]"
      using snoc by auto
    then show ?thesis
      using Nil by (intro exI [of _ i] exI [of _ xs] exI [of _ x]) (simp add: nth_append list_update_append1)
  next
    case (snoc zs z)
    then show ?thesis
      by (intro exI [of _ "length xss"] exI [of _ zs] exI [of _ z]) simp
  qed
qed simp

end
