(* ===== verification/KV_Utils.thy ===== *)
theory KV_Utils
  imports KV_Prelude
begin

text \<open>
  The pure helpers of \<^verbatim>\<open>runtime/kv_cache_manager_v2/_utils.py\<close>: rounded divisions,
  half-open ranges, the list helpers (\<open>remove_if\<close>, \<open>chunked\<close>, \<open>partition\<close>, \<open>find\<close>,
  \<open>find_index\<close>, \<open>is_sorted\<close>, \<open>get_uniform_attribute\<close>), the row-major \<open>Array2D\<close> and the
  item pool \<open>SimplePool\<close>. Python integers are \<open>int\<close>; \<open>//\<close> is \<open>div\<close>, both round towards
  minus infinity. The divisors of the callers are block sizes, slot sizes and
  granularities; the facts below assume them positive where it matters.
\<close>

section \<open>Rounded division\<close>

definition div_up :: "int \<Rightarrow> int \<Rightarrow> int" where
  "div_up x y = (x + y - 1) div y"

definition round_up :: "int \<Rightarrow> int \<Rightarrow> int" where
  "round_up x y = div_up x y * y"

definition round_down :: "int \<Rightarrow> int \<Rightarrow> int" where
  "round_down x y = x div y * y"

definition in_range :: "int \<Rightarrow> int \<Rightarrow> int \<Rightarrow> bool" where
  "in_range x lower upper \<longleftrightarrow> lower \<le> x \<and> x < upper"

definition exact_div :: "int \<Rightarrow> int \<Rightarrow> int res" where
  "exact_div x y = guardR (y \<noteq> 0) ZeroDivisionError (assertR (x mod y = 0) (Inr (x div y)))"

lemma le_div_iff: "0 < y \<Longrightarrow> n \<le> x div y \<longleftrightarrow> n * y \<le> (x::int)"
proof
  assume y: "0 < y" and le: "n \<le> x div y"
  have "n * y \<le> x div y * y" using le y by (intro mult_right_mono) auto
  also have "\<dots> \<le> x" using pos_mod_sign [OF y, of x] by (simp add: minus_mod_eq_div_mult [symmetric])
  finally show "n * y \<le> x" .
next
  assume y: "0 < y" and le: "n * y \<le> x"
  have "n = n * y div y" using y by simp
  also have "\<dots> \<le> x div y" using le y by (rule zdiv_mono1)
  finally show "n \<le> x div y" .
qed

lemma div_less_iff: "0 < y \<Longrightarrow> x div y < n \<longleftrightarrow> (x::int) < n * y"
  using le_div_iff [of y n x] by linarith

lemma div_up_le_iff: "0 < y \<Longrightarrow> div_up x y \<le> n \<longleftrightarrow> x \<le> n * y"
  using div_less_iff [of y "x + y - 1" "n + 1"] by (simp add: div_up_def algebra_simps) linarith

lemma less_div_up_iff: "0 < y \<Longrightarrow> n < div_up x y \<longleftrightarrow> n * y < x"
  using div_up_le_iff [of y x n] by linarith

lemma div_up_nonneg: "0 < y \<Longrightarrow> 0 \<le> x \<Longrightarrow> 0 \<le> div_up x y"
  using less_div_up_iff [of y "-1" x] by simp

lemma div_up_pos: "0 < y \<Longrightarrow> 0 < x \<Longrightarrow> 0 < div_up x y"
  by (simp add: less_div_up_iff)

lemma div_up_zero [simp]: "0 < y \<Longrightarrow> div_up 0 y = 0"
  by (simp add: div_up_def)

lemma div_up_mono: "0 < y \<Longrightarrow> a \<le> b \<Longrightarrow> div_up a y \<le> div_up b y"
  unfolding div_up_def by (rule zdiv_mono1) auto

lemma div_up_mult [simp]: "0 < y \<Longrightarrow> div_up (k * y) y = k"
  using div_up_le_iff [of y "k * y" k] less_div_up_iff [of y "k - 1" "k * y"]
  by (simp add: algebra_simps)

lemma div_up_ge: "0 < y \<Longrightarrow> x \<le> div_up x y * y"
  using div_up_le_iff [of y x "div_up x y"] by simp

lemma div_up_add_le: "0 < y \<Longrightarrow> div_up (a + b) y \<le> div_up a y + div_up b y"
  using div_up_ge [of y a] div_up_ge [of y b] by (simp add: div_up_le_iff distrib_right)

lemma div_le_div_up: "0 < y \<Longrightarrow> x div y \<le> div_up x y"
  unfolding div_up_def by (rule zdiv_mono1) auto

lemma round_up_props:
  assumes "0 < y"
  shows "x \<le> round_up x y" and "round_up x y < x + y" and "y dvd round_up x y"
proof -
  show "x \<le> round_up x y" using div_up_ge [OF assms] by (simp add: round_up_def)
  have "(x + y - 1) div y * y \<le> x + y - 1"
    using le_div_iff [OF assms, of "(x + y - 1) div y" "x + y - 1"] by simp
  then show "round_up x y < x + y" by (simp add: round_up_def div_up_def)
  show "y dvd round_up x y" by (simp add: round_up_def)
qed

lemma round_down_props:
  assumes "0 < y"
  shows "round_down x y \<le> x" and "x - y < round_down x y" and "y dvd round_down x y"
  using assms pos_mod_bound [of y x] pos_mod_sign [of y x]
  by (auto simp: round_down_def minus_mod_eq_div_mult [symmetric])

section \<open>Half-open ranges\<close>

type_synonym half_open_range = "int \<times> int"

definition beg :: "half_open_range \<Rightarrow> int" where
  "beg r = fst r"

definition end_of :: "half_open_range \<Rightarrow> int" where
  "end_of r = snd r"

definition range_bool :: "half_open_range \<Rightarrow> bool" where
  "range_bool r \<longleftrightarrow> fst r < snd r"

definition range_eq :: "half_open_range \<Rightarrow> half_open_range \<Rightarrow> bool" where
  "range_eq r s \<longleftrightarrow> (\<not> range_bool r \<and> \<not> range_bool s) \<or> r = s"

text \<open>The hash of a tuple is a parameter; the range hashes every empty range like \<open>(0, 0)\<close>.\<close>

definition range_hash :: "(int \<times> int \<Rightarrow> int) \<Rightarrow> half_open_range \<Rightarrow> int" where
  "range_hash h r = (if \<not> range_bool r then h (0, 0) else h r)"

definition range_len :: "half_open_range \<Rightarrow> int" where
  "range_len r = max 0 (snd r - fst r)"

definition range_contains :: "half_open_range \<Rightarrow> int \<Rightarrow> bool" where
  "range_contains r item \<longleftrightarrow> fst r \<le> item \<and> item < snd r"

definition intersect :: "half_open_range \<Rightarrow> half_open_range \<Rightarrow> half_open_range" where
  "intersect a b = (max (fst a) (fst b), min (snd a) (snd b))"

lemmas range_defs = beg_def end_of_def range_bool_def range_eq_def range_hash_def range_len_def
  range_contains_def intersect_def

lemma range_contains_pair [simp]: "range_contains (a, b) i \<longleftrightarrow> a \<le> i \<and> i < b"
  by (simp add: range_contains_def)

lemma range_contains_intersect [simp]:
  "range_contains (intersect a b) i \<longleftrightarrow> range_contains a i \<and> range_contains b i"
  by (auto simp: range_defs)

lemma range_set: "{i. range_contains r i} = {fst r..<snd r}"
  by (auto simp: range_defs)

lemma range_len_card: "range_len r = int (card {i. range_contains r i})"
  by (simp add: range_set range_len_def)

lemma range_len_nonneg [simp]: "0 \<le> range_len r"
  by (simp add: range_len_def)

lemma range_bool_iff_ex: "range_bool r \<longleftrightarrow> (\<exists>i. range_contains r i)"
  by (auto simp: range_defs)

lemma range_eq_iff_same_elements:
  "range_eq r s \<longleftrightarrow> {i. range_contains r i} = {i. range_contains s i}"
proof (cases "range_bool r \<and> range_bool s")
  case True
  then have "{fst r..<snd r} = {fst s..<snd s} \<longleftrightarrow> r = s"
    by (simp add: range_bool_def prod_eq_iff atLeastLessThan_eq_iff)
  with True show ?thesis by (auto simp: range_set range_eq_def)
next
  case False
  have empty: "\<not> range_bool t \<longleftrightarrow> {i. range_contains t i} = {}" for t
    unfolding range_set by (simp add: range_bool_def)
  show ?thesis
  proof (cases "\<not> range_bool r \<and> \<not> range_bool s")
    case True
    then show ?thesis using empty [of r] empty [of s] by (simp add: range_eq_def)
  next
    case mixed: False
    then have "{i. range_contains r i} \<noteq> {i. range_contains s i}" using False empty [of r] empty [of s] by metis
    moreover have "r \<noteq> s" using False mixed by blast
    ultimately show ?thesis using mixed by (simp add: range_eq_def)
  qed
qed

section \<open>List helpers\<close>

text \<open>
  \<open>remove_if\<close> compacts the list in place: the loop reads position \<open>idx\<close> and writes the kept
  item \<open>length removed\<close> positions to the left; the tail is deleted at the end.
\<close>

fun remove_if_loop :: "('a \<Rightarrow> bool) \<Rightarrow> nat \<Rightarrow> nat \<Rightarrow> 'a list \<Rightarrow> 'a list \<Rightarrow> 'a list \<times> 'a list" where
  "remove_if_loop P 0 idx original removed = (original, removed)"
| "remove_if_loop P (Suc n) idx original removed =
     (let item = original ! idx in
      if P item then remove_if_loop P n (Suc idx) original (removed @ [item])
      else remove_if_loop P n (Suc idx) (original[idx - length removed := item]) removed)"

definition remove_if :: "'a list \<Rightarrow> ('a \<Rightarrow> bool) \<Rightarrow> 'a list \<times> 'a list" where
  "remove_if original P =
     (let (original', removed) = remove_if_loop P (length original) 0 original []
      in (take (length original' - length removed) original', removed))"

function chunked :: "'a list \<Rightarrow> nat \<Rightarrow> 'a list list" where
  "chunked xs n = (let chunk = take n xs in
     if chunk = [] then [] else chunk # chunked (drop n xs) n)"
  by pat_completeness auto
termination
  by (relation "measure (\<lambda>(xs, n). length xs)") auto

declare chunked.simps [simp del]

definition dict_append :: "'k \<Rightarrow> 'a \<Rightarrow> ('k \<times> 'a list) list \<Rightarrow> ('k \<times> 'a list) list" where
  "dict_append k x d = dict_set k ((case map_of d k of None \<Rightarrow> [] | Some xs \<Rightarrow> xs) @ [x]) d"

definition partition_by :: "'a list \<Rightarrow> ('a \<Rightarrow> 'k) \<Rightarrow> ('k \<times> 'a list) list" where
  "partition_by original classifier =
     foldl (\<lambda>ret item. dict_append (classifier item) item ret) [] original"

text \<open>The uniformity check runs only in debug mode.\<close>

definition get_uniform_attribute :: "bool \<Rightarrow> 'a list \<Rightarrow> ('a \<Rightarrow> 'b) \<Rightarrow> 'b res" where
  "get_uniform_attribute ndebug xs f =
     (case xs of [] \<Rightarrow> Inl StopIteration
      | x # _ \<Rightarrow> assertR (ndebug \<or> (\<forall>item \<in> set xs. f item = f x)) (Inr (f x)))"

definition is_sorted :: "'a list \<Rightarrow> ('a \<Rightarrow> 'k::linorder) \<Rightarrow> bool \<Rightarrow> bool" where
  "is_sorted xs key rev_order =
     list_all (\<lambda>(a, b). if rev_order then key b \<le> key a else key a \<le> key b) (zip xs (tl xs))"

fun find_default :: "'a list \<Rightarrow> ('a \<Rightarrow> bool) \<Rightarrow> 'a \<Rightarrow> 'a" where
  "find_default [] P d = d"
| "find_default (x # xs) P d = (if P x then x else find_default xs P d)"

text \<open>
  The loop variable of \<open>find_index\<close> keeps the last index, so a sequence without a match gives
  its length, but the empty sequence gives 1.
\<close>

fun find_index_loop :: "'a list \<Rightarrow> ('a \<Rightarrow> bool) \<Rightarrow> nat \<Rightarrow> nat \<Rightarrow> nat" where
  "find_index_loop [] P nxt i = i + 1"
| "find_index_loop (x # xs) P nxt i = (if P x then nxt else find_index_loop xs P (nxt + 1) nxt)"

definition find_index :: "'a list \<Rightarrow> ('a \<Rightarrow> bool) \<Rightarrow> nat" where
  "find_index xs P = find_index_loop xs P 0 0"

lemma remove_if_loop_spec:
  assumes "length B = length removed"
    and "remove_if_loop P (length C) (length A + length B) (A @ B @ C) removed = (ys, r)"
  shows "r = removed @ filter P C \<and> length ys = length (A @ B @ C)
    \<and> take (length A + length (filter (\<lambda>x. \<not> P x) C)) ys = A @ filter (\<lambda>x. \<not> P x) C"
  using assms
proof (induction C arbitrary: A B removed)
  case Nil
  then show ?case by auto
next
  case (Cons c C)
  show ?case
  proof (cases "P c")
    case True
    have "remove_if_loop P (length C) (length A + length (B @ [c])) (A @ (B @ [c]) @ C) (removed @ [c]) = (ys, r)"
      using Cons.prems True by (simp add: nth_append Let_def)
    then show ?thesis
      using Cons.IH [of "B @ [c]" "removed @ [c]" A] Cons.prems(1) True by simp
  next
    case False
    let ?B = "tl (B @ [c])"
    have upd: "(A @ B @ c # C)[length A := c] = (A @ [c]) @ ?B @ C"
      by (cases B) auto
    have "remove_if_loop P (length C) (length (A @ [c]) + length ?B) ((A @ [c]) @ ?B @ C) removed = (ys, r)"
      using Cons.prems False upd by (simp add: nth_append Let_def)
    then show ?thesis
      using Cons.IH [of ?B removed "A @ [c]"] Cons.prems(1) False by simp
  qed
qed

lemma remove_if_eq: "remove_if xs P = (filter (\<lambda>x. \<not> P x) xs, filter P xs)"
proof -
  obtain ys r where eq: "remove_if_loop P (length xs) 0 xs [] = (ys, r)" by fastforce
  have spec: "r = filter P xs \<and> length ys = length xs
    \<and> take (length (filter (\<lambda>x. \<not> P x) xs)) ys = filter (\<lambda>x. \<not> P x) xs"
    using remove_if_loop_spec [of "[]" "[]" P xs "[]" ys r] eq by simp
  have "length xs - length (filter P xs) = length (filter (\<lambda>x. \<not> P x) xs)"
    using sum_length_filter_compl [of P xs] by simp
  with spec eq show ?thesis by (simp add: remove_if_def)
qed

lemma chunked_Nil [simp]: "chunked [] n = []"
  by (simp add: chunked.simps)

lemma chunked_step: "0 < n \<Longrightarrow> xs \<noteq> [] \<Longrightarrow> chunked xs n = take n xs # chunked (drop n xs) n"
  by (subst chunked.simps) (simp add: Let_def)

lemma concat_chunked: "0 < n \<Longrightarrow> concat (chunked xs n) = xs"
proof (induction xs n rule: chunked.induct)
  case (1 xs n)
  then show ?case by (cases "xs = []") (auto simp: chunked_step)
qed

lemma chunked_lengths: "0 < n \<Longrightarrow> c \<in> set (butlast (chunked xs n)) \<Longrightarrow> length c = n"
proof (induction xs n rule: chunked.induct)
  case (1 xs n)
  show ?case
  proof (cases "length xs \<le> n")
    case True
    with 1 show ?thesis by (cases "xs = []") (auto simp: chunked_step)
  next
    case False
    have step: "chunked xs n = take n xs # chunked (drop n xs) n"
      using False 1 by (intro chunked_step) auto
    have "take n xs \<noteq> []" using False 1 by auto
    from "1.IH" [OF refl this] "1.prems" False show ?thesis
      by (auto simp: step split: if_splits)
  qed
qed

lemma length_chunked: "0 < n \<Longrightarrow> int (length (chunked xs n)) = div_up (int (length xs)) (int n)"
proof (induction xs n rule: chunked.induct)
  case (1 xs n)
  show ?case
  proof (cases "xs = []")
    case True
    with 1 show ?thesis by simp
  next
    case ne: False
    show ?thesis
    proof (cases "length xs \<le> n")
      case True
      have "0 < length xs" using ne by simp
      then have "div_up (int (length xs)) (int n) = 1"
        using True 1 div_up_le_iff [of "int n" "int (length xs)" 1]
          less_div_up_iff [of "int n" 0 "int (length xs)"] by simp
      with True ne 1 show ?thesis by (simp add: chunked_step)
    next
      case False
      have eq: "int (length xs) + int n - 1 = (int (length xs - n) + int n - 1) + int n"
        using False by simp
      have "div_up (int (length xs)) (int n) = div_up (int (length xs - n)) (int n) + 1"
        unfolding div_up_def eq using 1 by (intro div_add_self2) simp
      with ne False 1 show ?thesis by (simp add: chunked_step)
    qed
  qed
qed

lemma dict_append_lookup:
  "map_of (dict_append k x d) k' =
     (if k' = k then Some ((case map_of d k of None \<Rightarrow> [] | Some xs \<Rightarrow> xs) @ [x]) else map_of d k')"
  by (simp add: dict_append_def)

lemma dict_append_mset:
  "mset (concat (map (\<lambda>(k, xs). map (h k) xs) (dict_append k x d)))
    = add_mset (h k x) (mset (concat (map (\<lambda>(k, xs). map (h k) xs) d)))"
  using dict_set_sum [of "\<lambda>k xs. mset (map (h k) xs)" k "dget d k @ [x]" d]
  by (auto simp: dict_append_def mset_concat comp_def case_prod_unfold split: option.splits)

lemma partition_by_snoc:
  "partition_by (xs @ [x]) f = dict_append (f x) x (partition_by xs f)"
  by (simp add: partition_by_def)

lemma partition_by_ok: "dict_ok (partition_by xs f)"
  by (induction xs rule: rev_induct) (simp_all add: partition_by_snoc dict_append_def, simp add: partition_by_def)

lemma partition_by_mset: "mset (concat (map snd (partition_by xs f))) = mset xs"
proof (induction xs rule: rev_induct)
  case Nil
  then show ?case by (simp add: partition_by_def)
next
  case (snoc x xs)
  have eq: "(\<lambda>(k, xs). map (\<lambda>x. x) xs) = (snd :: 'b \<times> 'a list \<Rightarrow> 'a list)" by auto
  show ?case using snoc dict_append_mset [of "\<lambda>k x. x" "f x" x "partition_by xs f"]
    unfolding eq by (simp add: partition_by_snoc)
qed

lemma partition_by_lookup:
  "map_of (partition_by xs f) k =
     (if k \<in> f ` set xs then Some (filter (\<lambda>x. f x = k) xs) else None)"
proof (induction xs arbitrary: k rule: rev_induct)
  case Nil
  then show ?case by (simp add: partition_by_def)
next
  case (snoc x xs)
  have "filter (\<lambda>y. f y = f x) xs = []" if "f x \<notin> f ` set xs"
    using that by (metis (mono_tags, lifting) filter_False image_eqI)
  with snoc show ?case
    by (auto simp: partition_by_snoc dict_append_lookup)
qed

lemma is_sorted_iff:
  "is_sorted xs key rev_order \<longleftrightarrow>
     sorted_wrt (\<lambda>a b. if rev_order then key b \<le> key a else key a \<le> key b) xs"
proof -
  have "transp (\<lambda>a b. if rev_order then key b \<le> key a else key a \<le> key b)"
    by (auto simp: transp_def)
  then have "sorted_wrt (\<lambda>a b. if rev_order then key b \<le> key a else key a \<le> key b) xs \<longleftrightarrow>
    (\<forall>i. Suc i < length xs \<longrightarrow> (if rev_order then key (xs ! Suc i) \<le> key (xs ! i) else key (xs ! i) \<le> key (xs ! Suc i)))"
    by (rule sorted_wrt_iff_nth_Suc_transp)
  also have "\<dots> \<longleftrightarrow> is_sorted xs key rev_order"
    by (auto simp: is_sorted_def list_all_length nth_tl less_diff_conv)
  finally show ?thesis ..
qed

lemma find_index_loop_match:
  "find_index_loop xs P nxt i =
     (if xs = [] then i + 1 else nxt + length (takeWhile (\<lambda>x. \<not> P x) xs))"
  by (induction xs arbitrary: nxt i) auto

lemma find_index_eq: "xs \<noteq> [] \<Longrightarrow> find_index xs P = length (takeWhile (\<lambda>x. \<not> P x) xs)"
  by (simp add: find_index_def find_index_loop_match)

lemma find_index_empty: "find_index [] P = 1"
  by (simp add: find_index_def)

lemma find_default_eq:
  "find_default xs P d = (case filter P xs of [] \<Rightarrow> d | x # _ \<Rightarrow> x)"
  by (induction xs) auto

section \<open>Two-dimensional arrays\<close>

record 'a array2d =
  a2_data :: "'a list"
  a2_cols :: nat

definition array2d_get :: "'a array2d \<Rightarrow> nat \<Rightarrow> nat \<Rightarrow> 'a res" where
  "array2d_get a r c = list_get (a2_data a) (r * a2_cols a + c)"

definition array2d_set :: "'a array2d \<Rightarrow> nat \<Rightarrow> nat \<Rightarrow> 'a \<Rightarrow> 'a array2d res" where
  "array2d_set a r c v =
     bindR (list_set (a2_data a) (r * a2_cols a + c) v) (\<lambda>d. Inr (a\<lparr>a2_data := d\<rparr>))"

definition array2d_rows :: "'a array2d \<Rightarrow> nat res" where
  "array2d_rows a = assertR (length (a2_data a) mod a2_cols a = 0) (Inr (length (a2_data a) div a2_cols a))"

definition array2d_row :: "'a array2d \<Rightarrow> nat \<Rightarrow> 'a list" where
  "array2d_row a r = slice (a2_data a) (r * a2_cols a) ((r + 1) * a2_cols a)"

definition array2d_col :: "'a array2d \<Rightarrow> nat \<Rightarrow> 'a list" where
  "array2d_col a c =
     map (\<lambda>i. a2_data a ! i)
       (filter (\<lambda>i. c \<le> i \<and> (i - c) mod a2_cols a = 0) [0..<length (a2_data a)])"

definition filled_array2d :: "nat \<Rightarrow> nat \<Rightarrow> 'a \<Rightarrow> 'a array2d" where
  "filled_array2d rows cols v = \<lparr>a2_data = replicate (rows * cols) v, a2_cols = cols\<rparr>"

definition array2d_wf :: "'a array2d \<Rightarrow> nat \<Rightarrow> nat \<Rightarrow> bool" where
  "array2d_wf a rows cols \<longleftrightarrow> 0 < cols \<and> a2_cols a = cols \<and> length (a2_data a) = rows * cols"

lemma row_major_less: "(r::nat) < rows \<Longrightarrow> c < cols \<Longrightarrow> r * cols + c < rows * cols"
proof -
  assume "r < rows" and "c < cols"
  then have "r * cols + c < Suc r * cols" by simp
  also have "\<dots> \<le> rows * cols" using \<open>r < rows\<close> by (intro mult_le_mono1) simp
  finally show ?thesis .
qed

lemma row_major_inj:
  "(c::nat) < cols \<Longrightarrow> c' < cols \<Longrightarrow> r * cols + c = r' * cols + c' \<longleftrightarrow> r = r' \<and> c = c'"
  by (metis add.commute div_mult_self1_is_m div_mult_self3 div_less mod_less mod_mult_self3
      add_left_imp_eq less_nat_zero_code add_0 gr_zeroI)

lemma array2d_get_set:
  assumes "array2d_wf a rows cols" and "r < rows" and "c < cols" and "r' < rows" and "c' < cols"
  shows "\<exists>a'. array2d_set a r c v = Inr a' \<and> array2d_wf a' rows cols
    \<and> array2d_get a' r' c' = (if r' = r \<and> c' = c then Inr v else array2d_get a r' c')"
  using assms row_major_less [of r rows c cols] row_major_less [of r' rows c' cols]
    row_major_inj [of c cols c' r r']
  by (auto simp: array2d_set_def array2d_get_def array2d_wf_def nth_list_update)

lemma array2d_row_eq:
  assumes "array2d_wf a rows cols" and "r < rows"
  shows "array2d_row a r = map (\<lambda>c. a2_data a ! (r * cols + c)) [0..<cols]"
proof -
  have "r * cols + cols \<le> rows * cols"
    using assms(2) by (metis Suc_leI add.commute mult_Suc mult_le_mono1)
  then show ?thesis
    using assms by (intro nth_equalityI) (auto simp: array2d_row_def slice_def array2d_wf_def)
qed

lemma array2d_filled:
  assumes "0 < cols" and "r < rows" and "c < cols"
  shows "array2d_wf (filled_array2d rows cols v) rows cols"
    and "array2d_get (filled_array2d rows cols v) r c = Inr v"
    and "array2d_rows (filled_array2d rows cols v) = Inr rows"
  using assms row_major_less [of r rows c cols]
  by (auto simp: array2d_wf_def filled_array2d_def array2d_get_def array2d_rows_def)

section \<open>The item pool\<close>

text \<open>
  \<open>create n\<close> is the item the \<open>n\<close>-th call of the creation callback returns; the calls of the
  destruction callback are logged in \<open>sp_destroyed\<close>. The queue is built on first use.
\<close>

record 'a simple_pool =
  sp_init_size :: nat
  sp_max_size :: "nat option"
  sp_items :: "'a list option"
  sp_outstanding :: int
  sp_created :: nat
  sp_destroyed :: "'a list"

definition simple_pool_init :: "nat \<Rightarrow> nat option \<Rightarrow> 'a simple_pool" where
  "simple_pool_init init_size max_size =
     \<lparr>sp_init_size = init_size, sp_max_size = max_size, sp_items = None, sp_outstanding = 0,
      sp_created = 0, sp_destroyed = []\<rparr>"

text \<open>A bounded deque keeps the last \<open>maxlen\<close> items of its iterable.\<close>

definition deque_of :: "nat option \<Rightarrow> 'a list \<Rightarrow> 'a list" where
  "deque_of maxlen xs = (case maxlen of None \<Rightarrow> xs | Some m \<Rightarrow> drop (length xs - m) xs)"

definition pool_items :: "(nat \<Rightarrow> 'a) \<Rightarrow> 'a simple_pool \<Rightarrow> 'a simple_pool \<times> 'a list" where
  "pool_items create p =
     (case sp_items p of Some xs \<Rightarrow> (p, xs)
      | None \<Rightarrow>
          (let xs = deque_of (sp_max_size p) (map create [sp_created p..<sp_created p + sp_init_size p])
           in (p\<lparr>sp_items := Some xs, sp_created := sp_created p + sp_init_size p\<rparr>, xs)))"

definition pool_clear :: "(nat \<Rightarrow> 'a) \<Rightarrow> 'a simple_pool \<Rightarrow> 'a simple_pool" where
  "pool_clear create p =
     (let (p1, xs) = pool_items create p
      in p1\<lparr>sp_items := Some [], sp_destroyed := sp_destroyed p1 @ xs\<rparr>)"

definition pool_get :: "(nat \<Rightarrow> 'a) \<Rightarrow> 'a simple_pool \<Rightarrow> 'a simple_pool \<times> 'a" where
  "pool_get create p =
     (let (p1, xs) = pool_items create p
      in case xs of
           x # rest \<Rightarrow> (p1\<lparr>sp_items := Some rest, sp_outstanding := sp_outstanding p1 + 1\<rparr>, x)
         | [] \<Rightarrow> (p1\<lparr>sp_created := Suc (sp_created p1), sp_outstanding := sp_outstanding p1 + 1\<rparr>,
                  create (sp_created p1)))"

definition pool_put :: "(nat \<Rightarrow> 'a) \<Rightarrow> 'a simple_pool \<Rightarrow> 'a \<Rightarrow> 'a simple_pool" where
  "pool_put create p item =
     (let p0 = p\<lparr>sp_outstanding := sp_outstanding p - 1\<rparr>;
          (p1, xs) = pool_items create p0
      in if (case sp_max_size p1 of None \<Rightarrow> False | Some m \<Rightarrow> m \<le> length xs)
         then p1\<lparr>sp_destroyed := sp_destroyed p1 @ [item]\<rparr>
         else p1\<lparr>sp_items := Some (xs @ [item])\<rparr>)"

definition pool_cached_count :: "(nat \<Rightarrow> 'a) \<Rightarrow> 'a simple_pool \<Rightarrow> nat" where
  "pool_cached_count create p = length (snd (pool_items create p))"

definition pool_inv :: "'a simple_pool \<Rightarrow> bool" where
  "pool_inv p \<longleftrightarrow>
     (case sp_max_size p of None \<Rightarrow> True | Some m \<Rightarrow> sp_init_size p \<le> m)
   \<and> (case sp_items p of
        None \<Rightarrow> int (sp_created p) = sp_outstanding p + int (length (sp_destroyed p))
      | Some xs \<Rightarrow> (case sp_max_size p of None \<Rightarrow> True | Some m \<Rightarrow> length xs \<le> m)
          \<and> int (sp_created p) = sp_outstanding p + int (length xs) + int (length (sp_destroyed p)))"

lemma pool_items_inv:
  assumes "pool_items create p = (p1, xs)" and "pool_inv p"
  shows "sp_items p1 = Some xs" "pool_inv p1" "sp_outstanding p1 = sp_outstanding p"
    "sp_max_size p1 = sp_max_size p" "sp_init_size p1 = sp_init_size p" "sp_destroyed p1 = sp_destroyed p"
  using assms by (auto simp: pool_items_def pool_inv_def Let_def deque_of_def split: option.splits)

lemma pool_items_outstanding:
  "pool_items create (p\<lparr>sp_outstanding := k\<rparr>) =
     (let (p1, xs) = pool_items create p in (p1\<lparr>sp_outstanding := k\<rparr>, xs))"
  by (auto simp: pool_items_def Let_def split: option.splits)

lemma pool_inv_init: "(case m of None \<Rightarrow> True | Some k \<Rightarrow> n \<le> k) \<Longrightarrow> pool_inv (simple_pool_init n m)"
  by (cases m) (simp_all add: pool_inv_def simple_pool_init_def)

lemma pool_inv_get:
  assumes "pool_inv p" shows "pool_inv (fst (pool_get create p))"
proof -
  obtain p1 xs where p1: "pool_items create p = (p1, xs)" by fastforce
  from pool_items_inv [OF p1 assms] p1 show ?thesis
    by (cases xs) (auto simp: pool_get_def pool_inv_def split: option.splits)
qed

lemma pool_inv_put:
  assumes "pool_inv p" shows "pool_inv (pool_put create p item)"
proof -
  obtain p1 xs where p1: "pool_items create p = (p1, xs)" by fastforce
  from pool_items_inv [OF p1 assms] p1 show ?thesis
    by (auto simp: pool_put_def pool_items_outstanding pool_inv_def Let_def split: option.splits)
qed

lemma pool_inv_clear:
  assumes "pool_inv p" shows "pool_inv (pool_clear create p)"
proof -
  obtain p1 xs where p1: "pool_items create p = (p1, xs)" by fastforce
  from pool_items_inv [OF p1 assms] p1 show ?thesis
    by (auto simp: pool_clear_def pool_inv_def split: option.splits)
qed

end
