(* ===== verification/KV_Bitset.thy ===== *)
theory KV_Bitset
  imports KV_Utils
begin

unbundle bit_operations_syntax

text \<open>
  \<open>DynamicBitset\<close> of \<^verbatim>\<open>_utils.py\<close>: an array of 64-bit words (type code \<open>Q\<close>) with a counter
  of set bits. It is proved to implement a set of natural numbers, through the interface
  \<open>occupancy_mask\<close> that the slot allocator uses.
\<close>

section \<open>The bitset\<close>

record bitset =
  bs_bits :: "64 word list"
  bs_num_set_bits :: int

definition popcount :: "64 word \<Rightarrow> nat" where
  "popcount w = length (filter (bit w) [0..<64])"

definition bitset_init :: "nat \<Rightarrow> bitset" where
  "bitset_init capacity =
     \<lparr>bs_bits = replicate (nat (div_up (int capacity) 64)) 0, bs_num_set_bits = 0\<rparr>"

definition bitset_get :: "bitset \<Rightarrow> nat \<Rightarrow> bool res" where
  "bitset_get b i =
     bindR (list_get (bs_bits b) (i div 64)) (\<lambda>w. Inr (w AND push_bit (i mod 64) 1 \<noteq> 0))"

definition bitset_set :: "bitset \<Rightarrow> nat \<Rightarrow> bitset res" where
  "bitset_set b i =
     bindR (bitset_get b i) (\<lambda>g. if g then Inr b else
     bindR (list_get (bs_bits b) (i div 64)) (\<lambda>w.
       Inr (b\<lparr>bs_bits := (bs_bits b)[i div 64 := w OR push_bit (i mod 64) 1],
              bs_num_set_bits := bs_num_set_bits b + 1\<rparr>)))"

definition bitset_clear :: "bitset \<Rightarrow> nat \<Rightarrow> bitset res" where
  "bitset_clear b i =
     bindR (bitset_get b i) (\<lambda>g. if \<not> g then Inr b else
     bindR (list_get (bs_bits b) (i div 64)) (\<lambda>w.
       Inr (b\<lparr>bs_bits := (bs_bits b)[i div 64 := w AND NOT (push_bit (i mod 64) 1)],
              bs_num_set_bits := bs_num_set_bits b - 1\<rparr>)))"

text \<open>
  Shrinking subtracts the bits of the dropped words and of the masked part of the last
  retained word; growing appends zero words.
\<close>

definition bitset_resize :: "bitset \<Rightarrow> nat \<Rightarrow> bitset" where
  "bitset_resize b new_capacity =
     (let old_elems = length (bs_bits b);
          new_elems = nat (div_up (int new_capacity) 64);
          (bits, num) =
            (if new_elems \<le> old_elems then
               let num0 = bs_num_set_bits b
                     - sum_list (map (\<lambda>w. int (popcount w)) (drop new_elems (bs_bits b)))
               in if 1 \<le> new_elems \<and> new_capacity mod 64 \<noteq> 0 then
                    let keep_mask = drop_bit (64 - new_capacity mod 64) (- 1);
                        word = bs_bits b ! (new_elems - 1);
                        dropped = word AND NOT keep_mask
                    in ((bs_bits b)[new_elems - 1 := word AND keep_mask], num0 - int (popcount dropped))
                  else (bs_bits b, num0)
             else (bs_bits b, bs_num_set_bits b))
      in \<lparr>bs_bits =
            (if old_elems < new_elems then bits @ replicate (new_elems - old_elems) 0
             else if new_elems < old_elems then take new_elems bits
             else bits),
          bs_num_set_bits = num\<rparr>)"

text \<open>\<^verbatim>\<open>any(self._bits[i] != 0 for i in range(...))\<close>: stops at the first non-zero word.\<close>

fun any_word :: "64 word list \<Rightarrow> nat list \<Rightarrow> bool res" where
  "any_word bits [] = Inr False"
| "any_word bits (i # is) =
     bindR (list_get bits i) (\<lambda>w. if w \<noteq> 0 then Inr True else any_word bits is)"

definition bitset_any_set :: "bitset \<Rightarrow> nat \<Rightarrow> nat \<Rightarrow> bool res" where
  "bitset_any_set b start stop =
     (if stop \<le> start then Inr False
      else let start_word_mask = push_bit (start mod 64) (- 1);
               end_word_mask = drop_bit (64 - stop mod 64) (- 1);
               rest = any_word (bs_bits b) [start div 64 + 1..<stop div 64]
           in if start div 64 = stop div 64
              then bindR (list_get (bs_bits b) (start div 64)) (\<lambda>w.
                     if start_word_mask AND end_word_mask AND w \<noteq> 0 then Inr True else rest)
              else bindR (list_get (bs_bits b) (start div 64)) (\<lambda>w.
                     if start_word_mask AND w \<noteq> 0 then Inr True
                     else if stop mod 64 = 0 then rest
                     else bindR (list_get (bs_bits b) (stop div 64)) (\<lambda>w2.
                            if end_word_mask AND w2 \<noteq> 0 then Inr True else rest)))"

section \<open>Abstraction to a set\<close>

definition bits_set :: "64 word list \<Rightarrow> nat set" where
  "bits_set bits = {i. i < 64 * length bits \<and> bit (bits ! (i div 64)) (i mod 64)}"

definition bitset_abs :: "bitset \<Rightarrow> nat set" where
  "bitset_abs b = bits_set (bs_bits b)"

definition bitset_inv :: "bitset \<Rightarrow> bool" where
  "bitset_inv b \<longleftrightarrow> bs_num_set_bits b = int (card (bitset_abs b))"

definition bitset_capacity :: "bitset \<Rightarrow> nat" where
  "bitset_capacity b = 64 * length (bs_bits b)"

lemma bits_set_finite [simp]: "finite (bits_set bits)"
  by (rule finite_subset [of _ "{..<64 * length bits}"]) (auto simp: bits_set_def)

lemma bitset_abs_finite [simp]: "finite (bitset_abs b)"
  by (simp add: bitset_abs_def)

lemma and_bit_neq_0: "(w :: 64 word) AND push_bit k 1 \<noteq> 0 \<longleftrightarrow> bit w k"
  by (simp add: bit_iff_and_push_bit_not_eq_0)

lemma and_exp_neq_0 [simp]: "(w :: 64 word) AND 2 ^ k \<noteq> 0 \<longleftrightarrow> bit w k"
  using and_bit_neq_0 [of w k] by simp

lemma bit_exp_64 [simp]: "k < 64 \<Longrightarrow> bit ((2 :: 64 word) ^ k) n \<longleftrightarrow> n = k"
  by (auto simp: bit_exp_iff)

lemma less_mult_div: "(i::nat) < 64 * n \<longleftrightarrow> i div 64 < n"
  by (simp add: div_less_iff_less_mult mult.commute)

lemma bitset_get_eq: "i < bitset_capacity b \<Longrightarrow> bitset_get b i = Inr (i \<in> bitset_abs b)"
  by (simp add: bitset_get_def bitset_capacity_def bitset_abs_def bits_set_def less_mult_div)

lemma bitset_get_out: "bitset_capacity b \<le> i \<Longrightarrow> bitset_get b i = Inl IndexError"
  by (auto simp: bitset_get_def bitset_capacity_def list_get_def less_mult_div not_less [symmetric])

lemma bits_set_update:
  assumes "i < 64 * length bits"
  shows "bits_set (bits[i div 64 := w]) =
    {j. j < 64 * length bits \<and> bit (if j div 64 = i div 64 then w else bits ! (j div 64)) (j mod 64)}"
  using assms by (auto simp: bits_set_def nth_list_update less_mult_div)

lemma div_mod_64_eq: "(i::nat) div 64 = j div 64 \<Longrightarrow> i mod 64 = j mod 64 \<Longrightarrow> i = j"
  by (metis div_mult_mod_eq)

lemma bits_set_or:
  assumes "i < 64 * length bits"
  shows "bits_set (bits[i div 64 := bits ! (i div 64) OR push_bit (i mod 64) 1]) = insert i (bits_set bits)"
  unfolding bits_set_update [OF assms] using assms
  by (auto simp: bits_set_def bit_or_iff bit_push_bit_iff bit_1_iff intro: div_mod_64_eq)

lemma bits_set_and_not:
  assumes "i < 64 * length bits"
  shows "bits_set (bits[i div 64 := bits ! (i div 64) AND NOT (push_bit (i mod 64) 1)]) = bits_set bits - {i}"
  unfolding bits_set_update [OF assms] using assms
  by (auto simp: bits_set_def bit_and_iff bit_not_iff bit_push_bit_iff bit_1_iff intro: div_mod_64_eq)

lemma bitset_set_spec:
  assumes "i < bitset_capacity b" and "bitset_inv b"
  shows "\<exists>b'. bitset_set b i = Inr b' \<and> bitset_abs b' = insert i (bitset_abs b)
    \<and> bitset_capacity b' = bitset_capacity b \<and> bitset_inv b'"
proof (cases "i \<in> bitset_abs b")
  case True
  with assms show ?thesis by (simp add: bitset_set_def bitset_get_eq insert_absorb)
next
  case False
  from assms(1) have i: "i < 64 * length (bs_bits b)" by (simp add: bitset_capacity_def)
  then have "i div 64 < length (bs_bits b)" by (simp add: less_mult_div)
  with False assms bits_set_or [OF i] show ?thesis
    by (simp add: bitset_set_def bitset_get_eq bitset_abs_def bitset_capacity_def bitset_inv_def)
qed

lemma bitset_clear_spec:
  assumes "i < bitset_capacity b" and "bitset_inv b"
  shows "\<exists>b'. bitset_clear b i = Inr b' \<and> bitset_abs b' = bitset_abs b - {i}
    \<and> bitset_capacity b' = bitset_capacity b \<and> bitset_inv b'"
proof (cases "i \<in> bitset_abs b")
  case False
  with assms show ?thesis by (simp add: bitset_clear_def bitset_get_eq)
next
  case True
  from assms(1) have i: "i < 64 * length (bs_bits b)" by (simp add: bitset_capacity_def)
  then have "i div 64 < length (bs_bits b)" by (simp add: less_mult_div)
  moreover have "0 < card (bits_set (bs_bits b))"
    using True by (auto simp: bitset_abs_def card_gt_0_iff)
  ultimately show ?thesis using True assms bits_set_and_not [OF i]
    by (simp add: bitset_clear_def bitset_get_eq bitset_abs_def bitset_capacity_def bitset_inv_def
        of_nat_diff Suc_leI)
qed

lemma popcount_card: "popcount w = card {k. k < 64 \<and> bit w k}"
  by (simp add: popcount_def filter_upt_card)

lemma bits_set_snoc:
  "bits_set (bits @ [w]) = bits_set bits \<union> (\<lambda>k. 64 * length bits + k) ` {k. k < 64 \<and> bit w k}"
proof (intro set_eqI iffI)
  fix i assume i: "i \<in> bits_set (bits @ [w])"
  show "i \<in> bits_set bits \<union> (\<lambda>k. 64 * length bits + k) ` {k. k < 64 \<and> bit w k}"
  proof (cases "i < 64 * length bits")
    case True
    with i show ?thesis by (auto simp: bits_set_def nth_append less_mult_div)
  next
    case False
    with i have "i div 64 = length bits"
      using less_mult_div [of i "Suc (length bits)"] less_mult_div [of i "length bits"]
      by (simp add: bits_set_def)
    with i have "i = 64 * length bits + i mod 64 \<and> bit w (i mod 64)"
      by (metis (no_types, lifting) bits_set_def div_mult_mod_eq mem_Collect_eq mult.commute nth_append_length)
    then show ?thesis by (auto intro!: image_eqI [of _ _ "i mod 64"])
  qed
qed (auto simp: bits_set_def nth_append less_mult_div)

lemma card_bits_set: "card (bits_set bits) = sum_list (map popcount bits)"
proof (induction bits rule: rev_induct)
  case Nil
  then show ?case by (simp add: bits_set_def)
next
  case (snoc w bits)
  have "card ((\<lambda>k. 64 * length bits + k) ` {k. k < 64 \<and> bit w k}) = popcount w"
    by (subst card_image) (auto simp: popcount_card inj_on_def)
  moreover have "bits_set bits \<inter> (\<lambda>k. 64 * length bits + k) ` {k. k < 64 \<and> bit w k} = {}"
    by (auto simp: bits_set_def)
  ultimately show ?case
    using snoc by (simp add: bits_set_snoc card_Un_disjoint)
qed

lemma popcount_split: "popcount (w AND m) + popcount (w AND NOT m) = popcount w"
proof -
  have "{k. k < 64 \<and> bit w k} = {k. k < 64 \<and> bit (w AND m) k} \<union> {k. k < 64 \<and> bit (w AND NOT m) k}"
    by (auto simp: bit_and_iff bit_not_iff)
  moreover have "{k. k < 64 \<and> bit (w AND m) k} \<inter> {k. k < 64 \<and> bit (w AND NOT m) k} = {}"
    by (auto simp: bit_and_iff bit_not_iff)
  ultimately show ?thesis
    by (simp add: popcount_card card_Un_disjoint)
qed

lemma keep_mask_bit: "0 < r \<Longrightarrow> r < 64 \<Longrightarrow> bit (drop_bit (64 - r) (- 1 :: 64 word)) k \<longleftrightarrow> k < r"
  by (auto simp: bit_mask_iff)

lemma num_words_bounds:
  fixes n :: nat defines "m \<equiv> nat (div_up (int n) 64)"
  shows "n \<le> 64 * m" and "64 * m < n + 64"
proof -
  have "0 \<le> div_up (int n) 64" by (rule div_up_nonneg) auto
  then have m: "int m = div_up (int n) 64" by (simp add: m_def)
  show "n \<le> 64 * m" using div_up_ge [of 64 "int n"] m by linarith
  show "64 * m < n + 64" using m by (simp add: div_up_def)
qed

lemma bits_set_append_zeros: "bits_set (bits @ replicate k 0) = bits_set bits"
proof (induction k arbitrary: bits)
  case (Suc k)
  have "bits_set ((bits @ [0]) @ replicate k 0) = bits_set (bits @ [0])" by (rule Suc)
  then show ?case by (simp add: bits_set_snoc)
qed simp

lemma int_sum_popcount: "int (sum_list (map popcount ws)) = (\<Sum>w\<leftarrow>ws. int (popcount w))"
  by (induction ws) auto

lemma bits_set_take: "bits_set (take m bits) = {i \<in> bits_set bits. i < 64 * m}"
  by (auto simp: bits_set_def less_mult_div)

lemma bits_set_mask:
  assumes "M < length bits" and r: "0 < r" "r < 64"
  shows "bits_set (take (Suc M) (bits[M := bits ! M AND drop_bit (64 - r) (- 1)])) =
    {i \<in> bits_set bits. i < 64 * M + r}"
proof (intro set_eqI)
  fix i :: nat
  have lex: "64 * q + k < 64 * M + r \<longleftrightarrow> q < M \<or> (q = M \<and> k < r)" if "k < 64" for q k :: nat
    using that r by (cases q M rule: linorder_cases) auto
  have lt: "i < 64 * M + r \<longleftrightarrow> i div 64 < M \<or> (i div 64 = M \<and> i mod 64 < r)"
    using lex [of "i mod 64" "i div 64"] by simp
  show "i \<in> bits_set (take (Suc M) (bits[M := bits ! M AND drop_bit (64 - r) (- 1)])) \<longleftrightarrow>
    i \<in> {i \<in> bits_set bits. i < 64 * M + r}"
    using assms keep_mask_bit [OF r, of "i mod 64"] less_mult_div [of i "Suc M"]
    by (cases "i div 64" M rule: linorder_cases)
      (auto simp: lt bits_set_def less_mult_div nth_list_update bit_and_iff)
qed

lemma bitset_resize_spec:
  assumes "bitset_inv b"
  shows "bitset_abs (bitset_resize b n) = {i \<in> bitset_abs b. i < n}"
    and "bitset_inv (bitset_resize b n)"
    and "bitset_capacity (bitset_resize b n) = 64 * nat (div_up (int n) 64)"
proof -
  let ?bits = "bs_bits b" and ?m = "nat (div_up (int n) 64)" and ?r = "n mod 64"
  let ?keep = "drop_bit (64 - ?r) (- 1) :: 64 word"
  note nb = num_words_bounds [of n]
  have num: "bs_num_set_bits b = int (sum_list (map popcount ?bits))"
    using assms by (simp add: bitset_inv_def bitset_abs_def card_bits_set)
  have split: "sum_list (map popcount ?bits) = sum_list (map popcount (take ?m ?bits)) + sum_list (map popcount (drop ?m ?bits))"
    by (metis append_take_drop_id map_append sum_list_append)
  have len: "length (bs_bits (bitset_resize b n)) = ?m"
    by (auto simp: bitset_resize_def Let_def split: if_splits)
  then show "bitset_capacity (bitset_resize b n) = 64 * ?m" by (simp add: bitset_capacity_def)
  consider (grow) "length ?bits < ?m" | (plain) "?m \<le> length ?bits" "\<not> (1 \<le> ?m \<and> ?r \<noteq> 0)"
    | (mask) "?m \<le> length ?bits" "1 \<le> ?m" "?r \<noteq> 0" by linarith
  then have "bitset_abs (bitset_resize b n) = {i \<in> bitset_abs b. i < n} \<and> bitset_inv (bitset_resize b n)"
  proof cases
    case grow
    then have "bs_bits (bitset_resize b n) = ?bits @ replicate (?m - length ?bits) 0"
      and nm: "bs_num_set_bits (bitset_resize b n) = bs_num_set_bits b"
      by (auto simp: bitset_resize_def Let_def)
    then have "bitset_abs (bitset_resize b n) = bitset_abs b"
      by (simp add: bitset_abs_def bits_set_append_zeros)
    moreover have "i < n" if "i \<in> bitset_abs b" for i
      using that grow nb by (auto simp: bitset_abs_def bits_set_def)
    ultimately show ?thesis using assms nm by (auto simp: bitset_inv_def)
  next
    case plain
    then have bits: "bs_bits (bitset_resize b n) = take ?m ?bits"
      and nm: "bs_num_set_bits (bitset_resize b n)
        = bs_num_set_bits b - sum_list (map (\<lambda>w. int (popcount w)) (drop ?m ?bits))"
      by (auto simp: bitset_resize_def Let_def)
    have "n = 64 * ?m"
    proof (cases "?m = 0")
      case True
      then show ?thesis using nb by simp
    next
      case False
      with plain(2) have "?r = 0" by simp
      then obtain q where "n = 64 * q" by auto
      then show ?thesis using nb by simp
    qed
    then have abs: "bitset_abs (bitset_resize b n) = {i \<in> bitset_abs b. i < n}"
      using bits by (simp add: bitset_abs_def bits_set_take)
    have "bs_num_set_bits (bitset_resize b n) = int (sum_list (map popcount (take ?m ?bits)))"
      using nm num split by (simp add: int_sum_popcount)
    then have "bitset_inv (bitset_resize b n)"
      using bits by (simp add: bitset_inv_def bitset_abs_def card_bits_set)
    with abs show ?thesis by simp
  next
    case mask
    let ?bits' = "?bits[?m - 1 := ?bits ! (?m - 1) AND ?keep]"
    from mask have bits: "bs_bits (bitset_resize b n) = take ?m ?bits'"
      and nm: "bs_num_set_bits (bitset_resize b n)
        = bs_num_set_bits b - sum_list (map (\<lambda>w. int (popcount w)) (drop ?m ?bits))
          - int (popcount (?bits ! (?m - 1) AND NOT ?keep))"
      by (auto simp: bitset_resize_def Let_def)
    obtain q r where q: "n = 64 * q + r" and r: "?r = r" "0 < r" "r < 64"
      using mask(3) by (metis gr0I mod_less_divisor mult_div_mod_eq zero_less_numeral)
    have m: "?m = Suc q"
    proof -
      have "M = Suc q" if "n \<le> 64 * M" "64 * M < n + 64" for M
        using that q r(2,3) by linarith
      from this [OF nb] show ?thesis .
    qed
    have abs: "bitset_abs (bitset_resize b n) = {i \<in> bitset_abs b. i < n}"
      using bits mask(1) r q bits_set_mask [of q ?bits r] unfolding m by (simp add: bitset_abs_def)
    have take': "take ?m ?bits' = take (?m - 1) ?bits @ [?bits ! (?m - 1) AND ?keep]"
      "take ?m ?bits = take (?m - 1) ?bits @ [?bits ! (?m - 1)]"
      using mask(1) unfolding m by (simp_all add: take_Suc_conv_app_nth)
    have "sum_list (map popcount (take ?m ?bits')) + popcount (?bits ! (?m - 1) AND NOT ?keep)
      = sum_list (map popcount (take ?m ?bits))"
      unfolding take' using popcount_split [of "?bits ! (?m - 1)" ?keep] by (simp only: map_append
        sum_list_append list.map sum_list.Cons sum_list.Nil)
    then have "bs_num_set_bits (bitset_resize b n) = int (sum_list (map popcount (take ?m ?bits')))"
      using nm [folded int_sum_popcount] num split by linarith
    then have "bitset_inv (bitset_resize b n)"
      using bits by (simp add: bitset_inv_def bitset_abs_def card_bits_set)
    with abs show ?thesis by simp
  qed
  then show "bitset_abs (bitset_resize b n) = {i \<in> bitset_abs b. i < n}"
    and "bitset_inv (bitset_resize b n)" by auto
qed

lemma word64_neq_0_iff: "(w :: 64 word) \<noteq> 0 \<longleftrightarrow> (\<exists>k < 64. bit w k)"
  by (auto simp: bit_eq_iff bit_imp_le_length)

lemma any_word_eq:
  "(\<And>i. i \<in> set is \<Longrightarrow> i < length bits) \<Longrightarrow> any_word bits is = Inr (\<exists>i \<in> set is. bits ! i \<noteq> 0)"
  by (induction "is") auto

lemma start_mask_bit: "k < 64 \<Longrightarrow> bit (push_bit r (- 1 :: 64 word)) k \<longleftrightarrow> r \<le> k"
  by (auto simp: bit_not_iff bit_mask_iff)

lemma end_mask_bit: "t < 64 \<Longrightarrow> bit (drop_bit (64 - t) (- 1 :: 64 word)) k \<longleftrightarrow> k < t"
  by (auto simp: bit_mask_iff)

lemma ex_bits_set:
  "(\<exists>i \<in> bits_set bits. P i) \<longleftrightarrow> (\<exists>q < length bits. \<exists>k < 64. bit (bits ! q) k \<and> P (64 * q + k))"
proof
  assume "\<exists>i \<in> bits_set bits. P i"
  then obtain i where i: "i < 64 * length bits" "bit (bits ! (i div 64)) (i mod 64)" "P i"
    by (auto simp: bits_set_def)
  then have "i div 64 < length bits" "i mod 64 < 64" "P (64 * (i div 64) + i mod 64)"
    by (simp_all add: less_mult_div)
  with i(2) show "\<exists>q < length bits. \<exists>k < 64. bit (bits ! q) k \<and> P (64 * q + k)" by blast
next
  assume "\<exists>q < length bits. \<exists>k < 64. bit (bits ! q) k \<and> P (64 * q + k)"
  then show "\<exists>i \<in> bits_set bits. P i" by (force simp: bits_set_def)
qed

lemma range_word_split:
  fixes q k a r c t :: nat
  assumes "k < 64" "r < 64" "t < 64"
  shows "64 * a + r \<le> 64 * q + k \<and> 64 * q + k < 64 * c + t \<longleftrightarrow>
    (a < q \<or> (a = q \<and> r \<le> k)) \<and> (q < c \<or> (q = c \<and> k < t))"
proof -
  have "64 * a + r \<le> 64 * q + k \<longleftrightarrow> a < q \<or> (a = q \<and> r \<le> k)"
    using assms by (cases a q rule: linorder_cases) auto
  moreover have "64 * q + k < 64 * c + t \<longleftrightarrow> q < c \<or> (q = c \<and> k < t)"
    using assms by (cases q c rule: linorder_cases) auto
  ultimately show ?thesis by simp
qed

lemma bitset_any_set_spec:
  assumes "stop \<le> bitset_capacity b"
  shows "bitset_any_set b start stop = Inr (\<exists>i \<in> bitset_abs b. start \<le> i \<and> i < stop)"
proof (cases "stop \<le> start")
  case True
  then show ?thesis by (auto simp: bitset_any_set_def)
next
  case less: False
  define a r c t where "a = start div 64" and "r = start mod 64" and "c = stop div 64" and "t = stop mod 64"
  have rt: "r < 64" "t < 64" by (simp_all add: r_def t_def)
  have st: "start = 64 * a + r" "stop = 64 * c + t" by (simp_all add: a_def r_def c_def t_def)
  let ?bits = "bs_bits b"
  have cap: "64 * c + t \<le> 64 * length ?bits" using assms st by (simp add: bitset_capacity_def)
  then have a_len: "a < length ?bits" and c_len: "c \<le> length ?bits" using less st by linarith+
  have rest: "any_word ?bits [a + 1..<c] = Inr (\<exists>q. a < q \<and> q < c \<and> ?bits ! q \<noteq> 0)"
    using c_len by (subst any_word_eq) (auto simp: Suc_le_eq)
  have spec: "(\<exists>i \<in> bitset_abs b. start \<le> i \<and> i < stop) \<longleftrightarrow>
    (\<exists>q < length ?bits. \<exists>k < 64. bit (?bits ! q) k \<and>
      (a < q \<or> (a = q \<and> r \<le> k)) \<and> (q < c \<or> (q = c \<and> k < t)))"
    unfolding bitset_abs_def st ex_bits_set using range_word_split [OF _ rt] by blast
  have lo: "push_bit r (- 1) AND w \<noteq> 0 \<longleftrightarrow> (\<exists>k < 64. r \<le> k \<and> bit w k)" for w :: "64 word"
    unfolding word64_neq_0_iff bit_and_iff using start_mask_bit by blast
  have hi: "drop_bit (64 - t) (- 1) AND w \<noteq> 0 \<longleftrightarrow> (\<exists>k < 64. k < t \<and> bit w k)" for w :: "64 word"
    unfolding word64_neq_0_iff bit_and_iff using end_mask_bit [OF rt(2)] by blast
  have both: "push_bit r (- 1) AND drop_bit (64 - t) (- 1) AND w \<noteq> 0 \<longleftrightarrow>
    (\<exists>k < 64. r \<le> k \<and> k < t \<and> bit w k)" for w :: "64 word"
    unfolding word64_neq_0_iff bit_and_iff using start_mask_bit end_mask_bit [OF rt(2)] by blast
  define S E :: "64 word" where "S = push_bit r (- 1)" and "E = drop_bit (64 - t) (- 1)"
  note masks = lo [folded S_def] hi [folded E_def] both [folded S_def E_def]
  have unf: "bitset_any_set b start stop =
    (if a = c
     then bindR (list_get ?bits a) (\<lambda>w. if S AND E AND w \<noteq> 0 then Inr True else any_word ?bits [a + 1..<c])
     else bindR (list_get ?bits a) (\<lambda>w. if S AND w \<noteq> 0 then Inr True
       else if t = 0 then any_word ?bits [a + 1..<c]
       else bindR (list_get ?bits c) (\<lambda>w2. if E AND w2 \<noteq> 0 then Inr True else any_word ?bits [a + 1..<c])))"
    using less unfolding bitset_any_set_def Let_def S_def E_def a_def r_def c_def t_def by (simp only: if_False)
  show ?thesis
  proof (cases "a = c")
    case True
    then have "bitset_any_set b start stop = Inr (\<exists>k < 64. r \<le> k \<and> k < t \<and> bit (?bits ! a) k)"
      using a_len unfolding unf rest by (auto simp: masks(3))
    then show ?thesis unfolding spec using True a_len by auto
  next
    case False
    with less st rt have ac: "a < c" by (cases a c rule: linorder_cases) auto
    have t0: "c < length ?bits" if "0 < t" using cap that by linarith
    have "bitset_any_set b start stop = Inr ((\<exists>k < 64. r \<le> k \<and> bit (?bits ! a) k)
        \<or> (0 < t \<and> (\<exists>k < 64. k < t \<and> bit (?bits ! c) k)) \<or> (\<exists>q. a < q \<and> q < c \<and> ?bits ! q \<noteq> 0))"
      using False a_len t0 unfolding unf rest by (cases "t = 0") (auto simp: masks)
    moreover have "(\<exists>q < length ?bits. \<exists>k < 64. bit (?bits ! q) k \<and>
        (a < q \<or> (a = q \<and> r \<le> k)) \<and> (q < c \<or> (q = c \<and> k < t)))
      \<longleftrightarrow> (\<exists>k < 64. r \<le> k \<and> bit (?bits ! a) k) \<or> (0 < t \<and> (\<exists>k < 64. k < t \<and> bit (?bits ! c) k))
        \<or> (\<exists>q. a < q \<and> q < c \<and> (\<exists>k < 64. bit (?bits ! q) k))" (is "?L \<longleftrightarrow> ?R")
    proof
      assume ?L
      then show ?R by auto
    next
      assume ?R
      then consider (l) k where "k < 64" "r \<le> k" "bit (?bits ! a) k"
        | (h) k where "0 < t" "k < 64" "k < t" "bit (?bits ! c) k"
        | (m) q k where "a < q" "q < c" "k < 64" "bit (?bits ! q) k" by blast
      then show ?L
      proof cases
        case l
        then show ?thesis using ac a_len by blast
      next
        case h
        then show ?thesis using ac t0 by blast
      next
        case m
        moreover have "q < length ?bits" using m c_len by linarith
        ultimately show ?thesis by blast
      qed
    qed
    ultimately show ?thesis unfolding spec word64_neq_0_iff by simp
  qed
qed

section \<open>The interface the slot allocator uses\<close>

text \<open>
  A mask of occupied indices: reading, setting and clearing an index below the capacity,
  resizing, and the number of set indices. \<open>abs\<close> is the set it stands for.
\<close>

locale occupancy_mask =
  fixes get :: "'m \<Rightarrow> nat \<Rightarrow> bool res"
    and set_bit :: "'m \<Rightarrow> nat \<Rightarrow> 'm res"
    and clear_bit :: "'m \<Rightarrow> nat \<Rightarrow> 'm res"
    and resize :: "'m \<Rightarrow> nat \<Rightarrow> 'm"
    and num :: "'m \<Rightarrow> int"
    and cap :: "'m \<Rightarrow> nat"
    and abs_set :: "'m \<Rightarrow> nat set"
    and inv_mask :: "'m \<Rightarrow> bool"
  assumes get_law: "i < cap m \<Longrightarrow> get m i = Inr (i \<in> abs_set m)"
    and set_law: "i < cap m \<Longrightarrow> inv_mask m \<Longrightarrow>
      \<exists>m'. set_bit m i = Inr m' \<and> abs_set m' = insert i (abs_set m) \<and> cap m' = cap m \<and> inv_mask m'"
    and clear_law: "i < cap m \<Longrightarrow> inv_mask m \<Longrightarrow>
      \<exists>m'. clear_bit m i = Inr m' \<and> abs_set m' = abs_set m - {i} \<and> cap m' = cap m \<and> inv_mask m'"
    and resize_abs: "inv_mask m \<Longrightarrow> abs_set (resize m n) = {i \<in> abs_set m. i < n}"
    and resize_inv: "inv_mask m \<Longrightarrow> inv_mask (resize m n)"
    and resize_cap: "n \<le> cap (resize m n)"
    and num_law: "inv_mask m \<Longrightarrow> num m = int (card (abs_set m))"
    and abs_finite: "finite (abs_set m)"
begin

lemma set_fresh:
  assumes "i < cap m" "inv_mask m" "i \<notin> abs_set m"
  shows "\<exists>m'. set_bit m i = Inr m' \<and> abs_set m' = insert i (abs_set m) \<and> num m' = num m + 1
    \<and> cap m' = cap m \<and> inv_mask m'"
  using set_law [OF assms(1,2)] assms abs_finite [of m] by (auto simp: num_law)

lemma clear_present:
  assumes "i < cap m" "inv_mask m" "i \<in> abs_set m"
  shows "\<exists>m'. clear_bit m i = Inr m' \<and> abs_set m' = abs_set m - {i} \<and> num m' = num m - 1
    \<and> cap m' = cap m \<and> inv_mask m'"
proof -
  obtain m' where m': "clear_bit m i = Inr m'" "abs_set m' = abs_set m - {i}" "cap m' = cap m" "inv_mask m'"
    using clear_law [OF assms(1,2)] by blast
  have "card (abs_set m) = Suc (card (abs_set m - {i}))"
    using card.remove [OF abs_finite assms(3)] .
  with m' assms(2) show ?thesis by (auto simp: num_law)
qed

lemma set_then_clear:
  assumes "i < cap m" "inv_mask m" "i \<notin> abs_set m"
  shows "\<exists>m' m''. set_bit m i = Inr m' \<and> clear_bit m' i = Inr m'' \<and> abs_set m'' = abs_set m \<and> num m'' = num m"
proof -
  obtain m' where m': "set_bit m i = Inr m'" "abs_set m' = insert i (abs_set m)" "num m' = num m + 1"
    "cap m' = cap m" "inv_mask m'"
    using set_fresh [OF assms] by blast
  moreover obtain m'' where "clear_bit m' i = Inr m''" "abs_set m'' = abs_set m' - {i}" "num m'' = num m' - 1"
    using clear_present [of i m'] m' assms(1) by auto
  ultimately show ?thesis using assms(3) by auto
qed

end

interpretation bs: occupancy_mask bitset_get bitset_set bitset_clear bitset_resize bs_num_set_bits
  bitset_capacity bitset_abs bitset_inv
proof unfold_locales
  fix m i n
  show "i < bitset_capacity m \<Longrightarrow> bitset_get m i = Inr (i \<in> bitset_abs m)" by (rule bitset_get_eq)
  show "i < bitset_capacity m \<Longrightarrow> bitset_inv m \<Longrightarrow> \<exists>m'. bitset_set m i = Inr m'
    \<and> bitset_abs m' = insert i (bitset_abs m) \<and> bitset_capacity m' = bitset_capacity m \<and> bitset_inv m'"
    by (rule bitset_set_spec)
  show "i < bitset_capacity m \<Longrightarrow> bitset_inv m \<Longrightarrow> \<exists>m'. bitset_clear m i = Inr m'
    \<and> bitset_abs m' = bitset_abs m - {i} \<and> bitset_capacity m' = bitset_capacity m \<and> bitset_inv m'"
    by (rule bitset_clear_spec)
  show "bitset_inv m \<Longrightarrow> bitset_abs (bitset_resize m n) = {i \<in> bitset_abs m. i < n}"
    by (rule bitset_resize_spec(1))
  show "bitset_inv m \<Longrightarrow> bitset_inv (bitset_resize m n)" by (rule bitset_resize_spec(2))
  have "length (bs_bits (bitset_resize m n)) = nat (div_up (int n) 64)"
    by (auto simp: bitset_resize_def Let_def split: if_splits)
  then show "n \<le> bitset_capacity (bitset_resize m n)"
    using num_words_bounds(1) [of n] by (simp add: bitset_capacity_def)
  show "bitset_inv m \<Longrightarrow> bs_num_set_bits m = int (card (bitset_abs m))" by (simp add: bitset_inv_def)
  show "finite (bitset_abs m)" by simp
qed

lemma bitset_init_spec:
  "bitset_abs (bitset_init n) = {}" "bitset_inv (bitset_init n)" "n \<le> bitset_capacity (bitset_init n)"
  using num_words_bounds(1) [of n] bits_set_append_zeros [of "[]"]
  by (simp_all add: bitset_init_def bitset_abs_def bitset_inv_def bitset_capacity_def bits_set_def)

section \<open>Properties\<close>

lemma bitset_resize_any_set:
  assumes "bitset_inv b" and "stop \<le> bitset_capacity (bitset_resize b n)"
  shows "bitset_abs (bitset_resize b n) = {i \<in> bitset_abs b. i < n}
    \<and> bs_num_set_bits (bitset_resize b n) = int (card {i \<in> bitset_abs b. i < n})
    \<and> bitset_any_set (bitset_resize b n) start stop =
        Inr (\<exists>i \<in> bitset_abs b. i < n \<and> start \<le> i \<and> i < stop)"
  using bs.resize_abs [OF assms(1)] bs.num_law [OF bs.resize_inv [OF assms(1)]]
    bitset_any_set_spec [OF assms(2)] by auto

lemma bitset_set_clear:
  assumes "bitset_inv b" and "i < bitset_capacity b"
  shows "\<exists>b1 b2. bitset_set b i = Inr b1 \<and> bitset_abs b1 = insert i (bitset_abs b) \<and> bitset_inv b1
    \<and> bitset_clear b i = Inr b2 \<and> bitset_abs b2 = bitset_abs b - {i} \<and> bitset_inv b2
    \<and> (\<forall>j < bitset_capacity b. bitset_get b1 j = Inr (j = i \<or> j \<in> bitset_abs b))"
proof -
  obtain b1 where b1: "bitset_set b i = Inr b1" "bitset_abs b1 = insert i (bitset_abs b)"
    "bitset_capacity b1 = bitset_capacity b" "bitset_inv b1"
    using bs.set_law [OF assms(2,1)] by blast
  obtain b2 where b2: "bitset_clear b i = Inr b2" "bitset_abs b2 = bitset_abs b - {i}" "bitset_inv b2"
    using bs.clear_law [OF assms(2,1)] by blast
  have "\<forall>j < bitset_capacity b. bitset_get b1 j = Inr (j = i \<or> j \<in> bitset_abs b)"
    using bs.get_law [of _ b1] b1(2,3) by auto
  with b1 b2 show ?thesis by auto
qed

text \<open>
  C27 A bitset refines the finite set of its members. A bitset made or resized for \<open>n\<close> indices holds whole words, so
  its capacity is \<open>n\<close> rounded up to a multiple of 64; a new one has no member. Setting and clearing an index below that
  capacity change membership of that index alone, and every index from it on is an \<open>IndexError\<close>; an index between
  \<open>n\<close> and the rounded capacity is accepted. After a resize to \<open>n\<close> exactly the old members below \<open>n\<close> are set and the
  counter is their number; \<open>any_set\<close> on a range inside the capacity answers whether a member lies in it.
\<close>

theorem bitset_refines_set:
  assumes "bitset_inv b"
  shows "(\<forall>i < bitset_capacity b. \<exists>b1 b2. bitset_set b i = Inr b1 \<and> bitset_abs b1 = insert i (bitset_abs b) \<and> bitset_inv b1
      \<and> bitset_clear b i = Inr b2 \<and> bitset_abs b2 = bitset_abs b - {i} \<and> bitset_inv b2
      \<and> (\<forall>j < bitset_capacity b. bitset_get b1 j = Inr (j = i \<or> j \<in> bitset_abs b)))
    \<and> (\<forall>i \<ge> bitset_capacity b. bitset_get b i = Inl IndexError \<and> bitset_set b i = Inl IndexError \<and> bitset_clear b i = Inl IndexError)
    \<and> (\<forall>n start stop. stop \<le> bitset_capacity (bitset_resize b n) \<longrightarrow>
        bitset_abs (bitset_resize b n) = {i \<in> bitset_abs b. i < n}
        \<and> bs_num_set_bits (bitset_resize b n) = int (card {i \<in> bitset_abs b. i < n})
        \<and> bitset_any_set (bitset_resize b n) start stop = Inr (\<exists>i \<in> bitset_abs b. i < n \<and> start \<le> i \<and> i < stop))
    \<and> (\<forall>n. bitset_abs (bitset_init n) = {} \<and> bitset_inv (bitset_init n)
        \<and> bitset_capacity (bitset_init n) = 64 * nat (div_up (int n) 64)
        \<and> bitset_capacity (bitset_resize b n) = 64 * nat (div_up (int n) 64))"
proof (intro conjI allI impI)
  show "bitset_get b i = Inl IndexError" "bitset_set b i = Inl IndexError" "bitset_clear b i = Inl IndexError"
    if "bitset_capacity b \<le> i" for i
    using that by (simp_all add: bitset_set_def bitset_clear_def bitset_get_out)
  show "bitset_abs (bitset_init n) = {}" "bitset_inv (bitset_init n)" for n by (rule bitset_init_spec)+
  show "bitset_capacity (bitset_init n) = 64 * nat (div_up (int n) 64)" for n by (simp add: bitset_capacity_def bitset_init_def)
  show "bitset_capacity (bitset_resize b n) = 64 * nat (div_up (int n) 64)" for n by (rule bitset_resize_spec(3) [OF assms])
qed (use bitset_set_clear [OF assms] bitset_resize_any_set [OF assms] in blast)+

theorem bitset_refines_set_witness:
  "(\<exists>b1. bitset_set (bitset_init 70) 100 = Inr b1 \<and> bitset_abs b1 = {100})
   \<and> bitset_set (bitset_init 70) 200 = Inl IndexError
   \<and> bitset_any_set (bitset_resize (bitset_init 70) 100) 3 90 = Inr False"
proof -
  note R = bitset_refines_set [OF bitset_init_spec(2), of 70]
  have cap: "bitset_capacity (bitset_init 70) = 128" "bitset_capacity (bitset_resize (bitset_init 70) 100) = 128"
    using R [THEN conjunct2, THEN conjunct2, THEN conjunct2] by (simp_all add: div_up_def)
  have "\<exists>b1. bitset_set (bitset_init 70) 100 = Inr b1 \<and> bitset_abs b1 = {100}"
    using R [THEN conjunct1, THEN spec, of 100] cap(1) by (auto simp: bitset_init_spec)
  moreover have "bitset_set (bitset_init 70) 200 = Inl IndexError"
    using R [THEN conjunct2, THEN conjunct1, THEN spec, of 200] cap(1) by simp
  moreover have "bitset_any_set (bitset_resize (bitset_init 70) 100) 3 90 = Inr False"
    using R [THEN conjunct2, THEN conjunct2, THEN conjunct1, THEN spec, THEN spec, THEN spec, of 90 100 3] cap(2) by (simp add: bitset_init_spec)
  ultimately show ?thesis by blast
qed

end
