(* ===== verification/KV_Slots.thy ===== *)
theory KV_Slots
  imports KV_Bitset
begin

text \<open>
  Slots and the slot allocator of \<^verbatim>\<open>_storage/_core.py\<close>. Slot ids and counts are \<open>nat\<close>.
  A CUDA event is the null event or a numbered event; whether an event has completed is the
  answer of the CUDA driver, given to each operation as the predicate \<open>dn\<close> (an operation
  that queries at several moments takes one predicate per moment). \<open>ndebug\<close> is the module
  constant \<open>NDEBUG\<close>, which switches the self-checks off.

  An error result stands for the raised exception; the allocator then is as it was before the
  call for the exceptions the code raises on purpose. The assertions inside the operations are
  proved not to fail from the invariant.
\<close>

section \<open>Slots\<close>

datatype cuda_event = NullEvent | Event nat

fun query_complete :: "(nat \<Rightarrow> bool) \<Rightarrow> cuda_event \<Rightarrow> bool" where
  "query_complete dn NullEvent = True"
| "query_complete dn (Event e) = dn e"

record slot =
  slot_id_opt :: "nat option"
  ready_event :: cuda_event

definition slot_id :: "slot \<Rightarrow> nat res" where
  "slot_id s = (case slot_id_opt s of None \<Rightarrow> Inl AssertionError | Some i \<Rightarrow> Inr i)"

definition has_valid_slot :: "slot \<Rightarrow> bool" where
  "has_valid_slot s \<longleftrightarrow> slot_id_opt s \<noteq> None"

definition query_ready :: "(nat \<Rightarrow> bool) \<Rightarrow> slot \<Rightarrow> slot \<times> bool" where
  "query_ready dn s =
     (if ready_event s = NullEvent then (s, True)
      else if query_complete dn (ready_event s) then (s\<lparr>ready_event := NullEvent\<rparr>, True)
      else (s, False))"

text \<open>\<open>set_slot\<close> moves the id and the event out of \<open>src\<close>; both slots are returned.\<close>

definition set_slot :: "slot \<Rightarrow> slot \<Rightarrow> (slot \<times> slot) res" where
  "set_slot self src =
     (if has_valid_slot self then Inl LogicError
      else bindR (slot_id src) (\<lambda>i.
        Inr (self\<lparr>slot_id_opt := Some i, ready_event := ready_event src\<rparr>,
             src\<lparr>slot_id_opt := None, ready_event := NullEvent\<rparr>)))"

definition move_to_new_slot :: "slot \<Rightarrow> (slot \<times> slot) res" where
  "move_to_new_slot self =
     bindR (set_slot \<lparr>slot_id_opt = None, ready_event = NullEvent\<rparr> self) (\<lambda>(ret, self'). Inr (self', ret))"

section \<open>The allocator\<close>

record slot_allocator =
  sa_capacity :: nat
  sa_num_active_slots :: nat
  sa_recycled_slots :: "slot list"
  sa_num_ready_recycled_slots :: nat
  sa_occupied_mask :: bitset
  sa_target_capacity :: nat
  sa_overflow_slots :: "slot list"

definition slot_allocator_init :: "nat \<Rightarrow> slot_allocator" where
  "slot_allocator_init capacity =
     \<lparr>sa_capacity = capacity, sa_num_active_slots = 0, sa_recycled_slots = [],
      sa_num_ready_recycled_slots = 0, sa_occupied_mask = bitset_init capacity,
      sa_target_capacity = capacity, sa_overflow_slots = []\<rparr>"

text \<open>The truncating subtraction of \<open>nat\<close> is the \<^verbatim>\<open>max(..., 0)\<close> of the code.\<close>

definition num_free_slots :: "slot_allocator \<Rightarrow> nat" where
  "num_free_slots a = length (sa_recycled_slots a) + (sa_target_capacity a - sa_num_active_slots a)"

definition num_occupied_slots :: "slot_allocator \<Rightarrow> int" where
  "num_occupied_slots a = bs_num_set_bits (sa_occupied_mask a)"

definition shrink_in_progress :: "slot_allocator \<Rightarrow> bool" where
  "shrink_in_progress a \<longleftrightarrow> sa_target_capacity a < sa_capacity a"

definition alloc_check :: "slot_allocator \<Rightarrow> bool" where
  "alloc_check a \<longleftrightarrow>
     sa_num_active_slots a \<le> sa_capacity a
   \<and> sa_target_capacity a \<le> sa_capacity a
   \<and> (shrink_in_progress a \<or> length (sa_overflow_slots a) = 0)
   \<and> list_all (\<lambda>s. case slot_id_opt s of None \<Rightarrow> False
        | Some i \<Rightarrow> sa_target_capacity a \<le> i \<and> i < sa_capacity a) (sa_overflow_slots a)
   \<and> int (length (sa_recycled_slots a)) + int (length (sa_overflow_slots a)) + num_occupied_slots a
       = int (sa_num_active_slots a)"

fun scrub_events_loop :: "(nat \<Rightarrow> bool) \<Rightarrow> nat \<Rightarrow> nat \<Rightarrow> slot list \<Rightarrow> nat \<Rightarrow> slot list \<times> nat" where
  "scrub_events_loop dn 0 i slots num_ready = (slots, num_ready)"
| "scrub_events_loop dn (Suc n) i slots num_ready =
     (if query_complete dn (ready_event (slots ! i))
      then scrub_events_loop dn n (Suc i) (slots[i := (slots ! i)\<lparr>ready_event := NullEvent\<rparr>]) (Suc num_ready)
      else (slots, num_ready))"

definition scrub_events_impl :: "(nat \<Rightarrow> bool) \<Rightarrow> slot list \<Rightarrow> nat \<Rightarrow> (slot list \<times> nat) res" where
  "scrub_events_impl dn slots num_ready =
     assertR (num_ready \<le> length slots)
       (Inr (scrub_events_loop dn (length slots - num_ready) num_ready slots num_ready))"

definition scrub_events :: "(nat \<Rightarrow> bool) \<Rightarrow> slot_allocator \<Rightarrow> slot_allocator res" where
  "scrub_events dn a =
     bindR (scrub_events_impl dn (sa_recycled_slots a) (sa_num_ready_recycled_slots a)) (\<lambda>(slots, n).
       Inr (a\<lparr>sa_recycled_slots := slots, sa_num_ready_recycled_slots := n\<rparr>))"

text \<open>Preference: ready recycled slots, then new slots, then recycled slots that are not ready.\<close>

definition pick_slot :: "slot_allocator \<Rightarrow> (slot_allocator \<times> slot) res" where
  "pick_slot a =
     (if 0 < sa_num_ready_recycled_slots a then
        (case sa_recycled_slots a of [] \<Rightarrow> Inl AssertionError
         | s # rest \<Rightarrow>
             assertR (has_valid_slot s) (
             assertR (ready_event s = NullEvent)
               (Inr (a\<lparr>sa_recycled_slots := rest,
                        sa_num_ready_recycled_slots := sa_num_ready_recycled_slots a - 1\<rparr>, s))))
      else if sa_num_active_slots a < min (sa_capacity a) (sa_target_capacity a) then
        Inr (a\<lparr>sa_num_active_slots := sa_num_active_slots a + 1\<rparr>,
             \<lparr>slot_id_opt = Some (sa_num_active_slots a), ready_event = NullEvent\<rparr>)
      else
        (case sa_recycled_slots a of [] \<Rightarrow> Inl IndexError
         | s # rest \<Rightarrow> assertR (has_valid_slot s) (Inr (a\<lparr>sa_recycled_slots := rest\<rparr>, s))))"

definition allocate :: "(nat \<Rightarrow> bool) \<Rightarrow> slot_allocator \<Rightarrow> (slot_allocator \<times> slot) res" where
  "allocate dn a =
     (if num_free_slots a = 0 then Inl OutOfPagesError
      else bindR (scrub_events dn a) (\<lambda>a1.
           bindR (pick_slot a1) (\<lambda>(a2, s).
           bindR (slot_id s) (\<lambda>i.
           bindR (bitset_set (sa_occupied_mask a2) i) (\<lambda>m.
             Inr (a2\<lparr>sa_occupied_mask := m\<rparr>, s))))))"

fun allocate_times :: "(nat \<Rightarrow> nat \<Rightarrow> bool) \<Rightarrow> nat \<Rightarrow> slot_allocator \<Rightarrow> (slot_allocator \<times> slot list) res" where
  "allocate_times dns 0 a = Inr (a, [])"
| "allocate_times dns (Suc n) a =
     bindR (allocate (dns n) a) (\<lambda>(a1, s).
     bindR (allocate_times dns n a1) (\<lambda>(a2, ss). Inr (a2, s # ss)))"

definition allocate_multiple :: "(nat \<Rightarrow> nat \<Rightarrow> bool) \<Rightarrow> slot_allocator \<Rightarrow> int \<Rightarrow> (slot_allocator \<times> slot list) res" where
  "allocate_multiple dns a num_slots =
     (if num_slots < 0 then Inl LogicError
      else if int (num_free_slots a) < num_slots then Inl OutOfPagesError
      else allocate_times dns (nat num_slots) a)"

text \<open>
  \<open>release\<close> first moves the id out of the caller's slot, so the caller's slot is part of the
  result: it is emptied even when the id turns out not to be occupied.
\<close>

definition release :: "bool \<Rightarrow> (nat \<Rightarrow> bool) \<Rightarrow> slot_allocator \<Rightarrow> slot \<Rightarrow> slot \<times> slot_allocator res" where
  "release ndebug dn a slot =
     (if \<not> has_valid_slot slot then (slot, Inl AssertionError)
      else case move_to_new_slot slot of Inl e \<Rightarrow> (slot, Inl e)
      | Inr (slot', s) \<Rightarrow>
          (slot',
           bindR (slot_id s) (\<lambda>i.
           bindR (if sa_capacity a \<le> i then Inr False else bitset_get (sa_occupied_mask a) i) (\<lambda>occ.
             if \<not> occ then Inl LogicError
             else let a1 = (if i < sa_target_capacity a
                            then a\<lparr>sa_recycled_slots := sa_recycled_slots a @ [s]\<rparr>
                            else a\<lparr>sa_overflow_slots := sa_overflow_slots a @ [s]\<rparr>)
                  in bindR (bitset_clear (sa_occupied_mask a1) i) (\<lambda>m.
                     bindR (scrub_events dn (a1\<lparr>sa_occupied_mask := m\<rparr>)) (\<lambda>a2.
                       assertR (ndebug \<or> alloc_check a2) (Inr a2)))))))"

definition expand :: "bool \<Rightarrow> slot_allocator \<Rightarrow> nat \<Rightarrow> slot_allocator res" where
  "expand ndebug a new_num_slots =
     assertR (ndebug \<or> alloc_check a) (
     assertR (sa_target_capacity a = sa_capacity a) (
     assertR (sa_capacity a < new_num_slots) (
       let a' = a\<lparr>sa_occupied_mask := bitset_resize (sa_occupied_mask a) new_num_slots,
                  sa_capacity := new_num_slots, sa_target_capacity := new_num_slots\<rparr>
       in assertR (ndebug \<or> alloc_check a') (Inr a'))))"

fun shrink_loop :: "nat \<Rightarrow> nat \<Rightarrow> nat \<Rightarrow> slot list \<Rightarrow> slot list \<Rightarrow> nat \<Rightarrow> slot list
    \<Rightarrow> (slot list \<times> nat \<times> slot list) res" where
  "shrink_loop new_num old_ready i [] recycled num_ready overflow = Inr (recycled, num_ready, overflow)"
| "shrink_loop new_num old_ready i (s # ss) recycled num_ready overflow =
     bindR (slot_id s) (\<lambda>k.
       if k < new_num
       then shrink_loop new_num old_ready (Suc i) ss (recycled @ [s])
              (if i < old_ready then num_ready + 1 else num_ready) overflow
       else shrink_loop new_num old_ready (Suc i) ss recycled num_ready (overflow @ [s]))"

definition prepare_for_shrink :: "bool \<Rightarrow> slot_allocator \<Rightarrow> nat \<Rightarrow> slot_allocator res" where
  "prepare_for_shrink ndebug a new_num_slots =
     assertR (ndebug \<or> alloc_check a) (
     assertR (sa_target_capacity a = sa_capacity a) (
     assertR (new_num_slots < sa_capacity a) (
     bindR (shrink_loop new_num_slots (sa_num_ready_recycled_slots a) 0 (sa_recycled_slots a) [] 0
              (sa_overflow_slots a)) (\<lambda>(recycled, num_ready, overflow).
       let a' = a\<lparr>sa_recycled_slots := recycled, sa_num_ready_recycled_slots := num_ready,
                  sa_overflow_slots := overflow, sa_target_capacity := new_num_slots\<rparr>
       in assertR (ndebug \<or> alloc_check a') (Inr a')))))"

definition finish_shrink :: "bool \<Rightarrow> (nat \<Rightarrow> bool) \<Rightarrow> slot_allocator \<Rightarrow> slot_allocator res" where
  "finish_shrink ndebug dn a =
     assertR (ndebug \<or> alloc_check a) (
     assertR (sa_target_capacity a \<le> sa_capacity a) (
       if shrink_in_progress a
          \<and> length (sa_overflow_slots a) = sa_num_active_slots a - sa_target_capacity a
       then
         bindR (mapR slot_id (sa_overflow_slots a)) (\<lambda>ids.
         assertR (distinct ids) (
         bindR (scrub_events dn (a\<lparr>sa_overflow_slots := [], sa_capacity := sa_target_capacity a,
             sa_num_active_slots := min (sa_num_active_slots a) (sa_target_capacity a)\<rparr>)) (\<lambda>a'.
         assertR (ndebug \<or> alloc_check a') (Inr a'))))
       else Inl RuntimeError))"

fun blocking_ids :: "bitset \<Rightarrow> nat list \<Rightarrow> nat list res" where
  "blocking_ids m [] = Inr []"
| "blocking_ids m (i # is) =
     bindR (bitset_get m i) (\<lambda>occ. bindR (blocking_ids m is) (\<lambda>r. Inr (if occ then i # r else r)))"

definition get_slots_blocking_shrink :: "slot_allocator \<Rightarrow> nat list res" where
  "get_slots_blocking_shrink a =
     blocking_ids (sa_occupied_mask a) [sa_target_capacity a..<sa_capacity a]"

text \<open>
  The busy wait of \<open>_synchronize\<close>: \<open>dns t\<close> answers the queries of the round \<open>t\<close>; \<open>None\<close> when
  the fuel runs out before every recycled slot is ready.
\<close>

fun synchronize_fuel :: "nat \<Rightarrow> (nat \<Rightarrow> nat \<Rightarrow> bool) \<Rightarrow> nat \<Rightarrow> slot_allocator \<Rightarrow> slot_allocator res option" where
  "synchronize_fuel 0 dns t a = None"
| "synchronize_fuel (Suc fuel) dns t a =
     (if sa_num_ready_recycled_slots a = length (sa_recycled_slots a) then Some (Inr a)
      else case scrub_events (dns t) a of Inl e \<Rightarrow> Some (Inl e)
           | Inr a' \<Rightarrow> synchronize_fuel fuel dns (Suc t) a')"

section \<open>The allocator invariant\<close>

abbreviation slot_ids :: "slot list \<Rightarrow> nat list" where
  "slot_ids ss \<equiv> map (\<lambda>s. the (slot_id_opt s)) ss"

abbreviation occupied :: "slot_allocator \<Rightarrow> nat set" where
  "occupied a \<equiv> bitset_abs (sa_occupied_mask a)"

abbreviation idle_ids :: "slot_allocator \<Rightarrow> nat list" where
  "idle_ids a \<equiv> slot_ids (sa_recycled_slots a) @ slot_ids (sa_overflow_slots a)"

text \<open>
  Every id below the high-water mark \<open>_num_active_slots\<close> is exactly one of: occupied, recycled,
  waiting for the end of a shrink. Recycled ids stay below the target capacity, overflow ids
  are at or above it, and the first \<open>_num_ready_recycled_slots\<close> recycled slots have a null event.
\<close>

definition alloc_inv :: "slot_allocator \<Rightarrow> bool" where
  "alloc_inv a \<longleftrightarrow>
     bitset_inv (sa_occupied_mask a)
   \<and> sa_capacity a \<le> bitset_capacity (sa_occupied_mask a)
   \<and> sa_target_capacity a \<le> sa_capacity a
   \<and> sa_num_active_slots a \<le> sa_capacity a
   \<and> (\<forall>s \<in> set (sa_recycled_slots a) \<union> set (sa_overflow_slots a). has_valid_slot s)
   \<and> distinct (idle_ids a)
   \<and> occupied a \<inter> set (idle_ids a) = {}
   \<and> occupied a \<union> set (idle_ids a) = {..<sa_num_active_slots a}
   \<and> (\<forall>i \<in> set (slot_ids (sa_recycled_slots a)). i < sa_target_capacity a)
   \<and> (\<forall>i \<in> set (slot_ids (sa_overflow_slots a)). sa_target_capacity a \<le> i)
   \<and> sa_num_ready_recycled_slots a \<le> length (sa_recycled_slots a)
   \<and> (\<forall>s \<in> set (take (sa_num_ready_recycled_slots a) (sa_recycled_slots a)). ready_event s = NullEvent)"

lemma alloc_invD:
  assumes "alloc_inv a"
  shows alloc_inv_mask: "bitset_inv (sa_occupied_mask a)"
    and alloc_inv_mask_cap: "sa_capacity a \<le> bitset_capacity (sa_occupied_mask a)"
    and alloc_inv_target: "sa_target_capacity a \<le> sa_capacity a"
    and alloc_inv_active_cap: "sa_num_active_slots a \<le> sa_capacity a"
    and alloc_inv_rec_valid: "\<And>s. s \<in> set (sa_recycled_slots a) \<Longrightarrow> has_valid_slot s"
    and alloc_inv_ovf_valid: "\<And>s. s \<in> set (sa_overflow_slots a) \<Longrightarrow> has_valid_slot s"
    and alloc_inv_distinct: "distinct (idle_ids a)"
    and alloc_inv_disjoint: "occupied a \<inter> set (idle_ids a) = {}"
    and alloc_inv_cover: "occupied a \<union> set (idle_ids a) = {..<sa_num_active_slots a}"
    and alloc_inv_rec_bound: "\<And>s. s \<in> set (sa_recycled_slots a) \<Longrightarrow> the (slot_id_opt s) < sa_target_capacity a"
    and alloc_inv_ovf_bound: "\<And>s. s \<in> set (sa_overflow_slots a) \<Longrightarrow> sa_target_capacity a \<le> the (slot_id_opt s)"
    and alloc_inv_ready: "sa_num_ready_recycled_slots a \<le> length (sa_recycled_slots a)"
    and alloc_inv_ready_null: "\<And>s. s \<in> set (take (sa_num_ready_recycled_slots a) (sa_recycled_slots a))
          \<Longrightarrow> ready_event s = NullEvent"
  using assms by (simp_all add: alloc_inv_def)

lemma occupied_lt_active: "alloc_inv a \<Longrightarrow> i \<in> occupied a \<Longrightarrow> i < sa_num_active_slots a"
  using alloc_inv_cover by blast

lemma overflow_lt_active:
  "alloc_inv a \<Longrightarrow> s \<in> set (sa_overflow_slots a) \<Longrightarrow> the (slot_id_opt s) < sa_num_active_slots a"
  using alloc_inv_cover [of a] by auto

lemma slot_id_valid: "has_valid_slot s \<Longrightarrow> slot_id s = Inr (the (slot_id_opt s))"
  by (auto simp: has_valid_slot_def slot_id_def)

lemma alloc_inv_init: "alloc_inv (slot_allocator_init n)"
  by (simp add: alloc_inv_def slot_allocator_init_def bitset_init_spec)

lemma alloc_inv_active: "alloc_inv a \<Longrightarrow>
  int (length (sa_recycled_slots a)) + int (length (sa_overflow_slots a)) + num_occupied_slots a
    = int (sa_num_active_slots a)"
proof -
  assume inv: "alloc_inv a"
  have "card (occupied a \<union> set (idle_ids a)) = card (occupied a) + card (set (idle_ids a))"
    using inv by (intro card_Un_disjoint) (auto simp: alloc_inv_def)
  moreover have "card (set (idle_ids a)) = length (idle_ids a)"
    using inv by (intro distinct_card) (simp add: alloc_inv_def)
  ultimately have "sa_num_active_slots a = card (occupied a) + length (idle_ids a)"
    using inv by (simp add: alloc_inv_def)
  moreover have "num_occupied_slots a = int (card (occupied a))"
    using inv bs.num_law by (simp add: alloc_inv_def num_occupied_slots_def)
  ultimately show ?thesis by simp
qed

lemma alloc_inv_check:
  assumes inv: "alloc_inv a" shows "alloc_check a"
proof -
  have lt: "the (slot_id_opt s) < sa_capacity a" if "s \<in> set (sa_overflow_slots a)" for s
    using overflow_lt_active [OF inv that] alloc_inv_active_cap [OF inv] by simp
  have "sa_overflow_slots a = []" if "\<not> shrink_in_progress a"
  proof (rule ccontr)
    assume "sa_overflow_slots a \<noteq> []"
    then obtain s where s: "s \<in> set (sa_overflow_slots a)" by (cases "sa_overflow_slots a") auto
    from alloc_inv_ovf_bound [OF inv s] lt [OF s] that show False
      by (simp add: shrink_in_progress_def)
  qed
  moreover have "list_all (\<lambda>s. case slot_id_opt s of None \<Rightarrow> False
      | Some i \<Rightarrow> sa_target_capacity a \<le> i \<and> i < sa_capacity a) (sa_overflow_slots a)"
    using alloc_inv_ovf_valid [OF inv] alloc_inv_ovf_bound [OF inv] lt
    unfolding list_all_iff has_valid_slot_def by (metis (no_types, lifting) option.case_eq_if)
  ultimately show ?thesis
    using alloc_inv_active [OF inv] alloc_inv_active_cap [OF inv] alloc_inv_target [OF inv]
    by (auto simp: alloc_check_def)
qed

lemma scrub_events_loop_spec:
  assumes "scrub_events_loop dn n i slots i = (slots', k)" and "n + i = length slots"
    and "\<forall>s \<in> set (take i slots). ready_event s = NullEvent"
  shows "map slot_id_opt slots' = map slot_id_opt slots \<and> i \<le> k \<and> k \<le> length slots'
    \<and> (\<forall>s \<in> set (take k slots'). ready_event s = NullEvent)
    \<and> ((\<forall>e. dn e) \<longrightarrow> k = length slots')"
  using assms
proof (induction n arbitrary: i slots)
  case 0
  then show ?case by auto
next
  case (Suc n)
  have i: "i < length slots" using Suc.prems by simp
  show ?case
  proof (cases "query_complete dn (ready_event (slots ! i))")
    case True
    let ?slots = "slots[i := (slots ! i)\<lparr>ready_event := NullEvent\<rparr>]"
    have "take (Suc i) ?slots = take i slots @ [(slots ! i)\<lparr>ready_event := NullEvent\<rparr>]"
      using i by (simp add: take_Suc_conv_app_nth)
    moreover have "map slot_id_opt ?slots = map slot_id_opt slots"
      using i by (auto simp: list_eq_iff_nth_eq nth_list_update)
    ultimately show ?thesis
      using Suc.IH [of "Suc i" ?slots] Suc.prems True i by auto
  next
    case False
    with Suc.prems show ?thesis by (cases "ready_event (slots ! i)") auto
  qed
qed

lemma scrub_events_spec:
  assumes "alloc_inv a"
  obtains r k where "scrub_events dn a = Inr (a\<lparr>sa_recycled_slots := r, sa_num_ready_recycled_slots := k\<rparr>)"
    and "map slot_id_opt r = map slot_id_opt (sa_recycled_slots a)"
    and "k \<le> length r" and "\<forall>s \<in> set (take k r). ready_event s = NullEvent"
    and "(\<forall>e. dn e) \<longrightarrow> k = length r"
proof -
  let ?n = "sa_num_ready_recycled_slots a"
  obtain r k where rk: "scrub_events_loop dn (length (sa_recycled_slots a) - ?n) ?n (sa_recycled_slots a) ?n = (r, k)"
    by fastforce
  have "?n \<le> length (sa_recycled_slots a)" using assms by (simp add: alloc_inv_def)
  moreover note scrub_events_loop_spec [OF rk]
  ultimately show ?thesis
    using that rk assms by (simp add: scrub_events_def scrub_events_impl_def alloc_inv_def)
qed

lemma alloc_inv_recycled_cong:
  assumes "alloc_inv a" and "map slot_id_opt r = map slot_id_opt (sa_recycled_slots a)"
    and "k \<le> length r" and "\<forall>s \<in> set (take k r). ready_event s = NullEvent"
  shows "alloc_inv (a\<lparr>sa_recycled_slots := r, sa_num_ready_recycled_slots := k\<rparr>)"
proof -
  have ids: "slot_ids r = slot_ids (sa_recycled_slots a)"
    using arg_cong [OF assms(2), of "map the"] by (simp add: comp_def)
  have "slot_id_opt ` set r = slot_id_opt ` set (sa_recycled_slots a)"
    using arg_cong [OF assms(2), of set] by simp
  then have "\<forall>s \<in> set r. has_valid_slot s"
    using alloc_inv_rec_valid [OF assms(1)] unfolding has_valid_slot_def by (metis imageE image_eqI)
  then show ?thesis using assms(1,3,4) unfolding alloc_inv_def by (simp add: ids ball_Un)
qed

section \<open>Allocation and release\<close>

lemma pop_recycled_inv:
  assumes inv: "alloc_inv a" and rec: "sa_recycled_slots a = s # rest"
    and m: "bitset_inv m" "bitset_abs m = insert (the (slot_id_opt s)) (occupied a)"
      "bitset_capacity m = bitset_capacity (sa_occupied_mask a)"
  shows "alloc_inv (a\<lparr>sa_recycled_slots := rest,
    sa_num_ready_recycled_slots := sa_num_ready_recycled_slots a - 1, sa_occupied_mask := m\<rparr>)"
proof -
  have "set (take (sa_num_ready_recycled_slots a - 1) rest) \<subseteq>
    set (take (sa_num_ready_recycled_slots a) (sa_recycled_slots a))"
    by (cases "sa_num_ready_recycled_slots a") (auto simp: rec)
  moreover have "sa_num_ready_recycled_slots a - 1 \<le> length rest"
    using alloc_inv_ready [OF inv] rec by simp
  ultimately show ?thesis
    using inv rec m unfolding alloc_inv_def by auto
qed

lemma new_slot_inv:
  assumes inv: "alloc_inv a" and lt: "sa_num_active_slots a < sa_target_capacity a"
    and m: "bitset_inv m" "bitset_abs m = insert (sa_num_active_slots a) (occupied a)"
      "bitset_capacity m = bitset_capacity (sa_occupied_mask a)"
  shows "alloc_inv (a\<lparr>sa_num_active_slots := sa_num_active_slots a + 1, sa_occupied_mask := m\<rparr>)"
proof -
  have "sa_num_active_slots a \<notin> set (idle_ids a)"
    using alloc_inv_cover [OF inv] by blast
  moreover have "insert (sa_num_active_slots a) (occupied a) \<union> set (idle_ids a) = {..<Suc (sa_num_active_slots a)}"
    using alloc_inv_cover [OF inv] by (metis Un_insert_left lessThan_Suc)
  ultimately show ?thesis
    using inv m lt unfolding alloc_inv_def by simp
qed

lemma pick_slot_spec:
  assumes inv: "alloc_inv a" and free: "num_free_slots a \<noteq> 0"
  obtains a2 s i where "pick_slot a = Inr (a2, s)" and "slot_id_opt s = Some i"
    and "i < sa_target_capacity a" and "i \<notin> occupied a" and "i < sa_capacity a"
    and "sa_occupied_mask a2 = sa_occupied_mask a"
    and "Suc (num_free_slots a2) = num_free_slots a"
    and "sa_capacity a2 = sa_capacity a" and "sa_target_capacity a2 = sa_target_capacity a"
    and "\<And>m. bitset_inv m \<Longrightarrow> bitset_abs m = insert i (occupied a) \<Longrightarrow>
        bitset_capacity m = bitset_capacity (sa_occupied_mask a) \<Longrightarrow> alloc_inv (a2\<lparr>sa_occupied_mask := m\<rparr>)"
proof -
  consider (pop) s rest where "sa_recycled_slots a = s # rest"
      "0 < sa_num_ready_recycled_slots a \<or> \<not> sa_num_active_slots a < sa_target_capacity a"
    | (new) "sa_num_ready_recycled_slots a = 0" "sa_num_active_slots a < sa_target_capacity a"
    using free alloc_inv_ready [OF inv]
    by (cases "sa_recycled_slots a") (auto simp: num_free_slots_def)
  then show ?thesis
  proof cases
    case (pop s rest)
    let ?a2 = "a\<lparr>sa_recycled_slots := rest, sa_num_ready_recycled_slots := sa_num_ready_recycled_slots a - 1\<rparr>"
    have s: "has_valid_slot s" "the (slot_id_opt s) < sa_target_capacity a"
      using alloc_inv_rec_valid [OF inv] alloc_inv_rec_bound [OF inv] pop by auto
    have null: "0 < sa_num_ready_recycled_slots a \<Longrightarrow> ready_event s = NullEvent"
      using alloc_inv_ready_null [OF inv, of s] pop by (cases "sa_num_ready_recycled_slots a") auto
    have "sa_num_ready_recycled_slots a = 0 \<Longrightarrow> a\<lparr>sa_recycled_slots := rest\<rparr> = ?a2" by simp
    then have pick: "pick_slot a = Inr (?a2, s)"
      using pop s null by (auto simp: pick_slot_def)
    have nocc: "the (slot_id_opt s) \<notin> occupied a"
      using alloc_inv_disjoint [OF inv] pop by auto
    show ?thesis
      using pick s nocc alloc_inv_target [OF inv] pop_recycled_inv [OF inv pop(1)]
      by (intro that [of ?a2 s "the (slot_id_opt s)"])
        (auto simp: has_valid_slot_def num_free_slots_def pop(1))
  next
    case new
    let ?a2 = "a\<lparr>sa_num_active_slots := sa_num_active_slots a + 1\<rparr>"
    have "pick_slot a = Inr (?a2, \<lparr>slot_id_opt = Some (sa_num_active_slots a), ready_event = NullEvent\<rparr>)"
      using new alloc_inv_target [OF inv] by (simp add: pick_slot_def)
    moreover have "sa_num_active_slots a \<notin> occupied a"
      using occupied_lt_active [OF inv] by blast
    ultimately show ?thesis
      using new alloc_inv_target [OF inv] new_slot_inv [OF inv new(2)]
      by (intro that [of ?a2 "\<lparr>slot_id_opt = Some (sa_num_active_slots a), ready_event = NullEvent\<rparr>"
            "sa_num_active_slots a"])
        (auto simp: num_free_slots_def)
  qed
qed

lemma scrub_events_inv:
  assumes inv: "alloc_inv a"
  obtains a1 where "scrub_events dn a = Inr a1" "alloc_inv a1" "num_free_slots a1 = num_free_slots a"
    "sa_occupied_mask a1 = sa_occupied_mask a" "sa_capacity a1 = sa_capacity a"
    "sa_target_capacity a1 = sa_target_capacity a" "sa_num_active_slots a1 = sa_num_active_slots a"
    "sa_overflow_slots a1 = sa_overflow_slots a"
    "(\<forall>e. dn e) \<longrightarrow> sa_num_ready_recycled_slots a1 = length (sa_recycled_slots a1)"
proof -
  obtain r k where rk: "scrub_events dn a = Inr (a\<lparr>sa_recycled_slots := r, sa_num_ready_recycled_slots := k\<rparr>)"
    "map slot_id_opt r = map slot_id_opt (sa_recycled_slots a)" "k \<le> length r"
    "\<forall>s \<in> set (take k r). ready_event s = NullEvent" "(\<forall>e. dn e) \<longrightarrow> k = length r"
    by (rule scrub_events_spec [OF inv])
  then have "length r = length (sa_recycled_slots a)" using map_eq_imp_length_eq by blast
  then show ?thesis
    using rk alloc_inv_recycled_cong [OF inv rk(2,3,4)]
    by (intro that [of "a\<lparr>sa_recycled_slots := r, sa_num_ready_recycled_slots := k\<rparr>"])
      (auto simp: num_free_slots_def)
qed

lemma allocate_spec:
  assumes inv: "alloc_inv a" and free: "num_free_slots a \<noteq> 0"
  obtains a' s i where "allocate dn a = Inr (a', s)" and "slot_id_opt s = Some i"
    and "i < sa_target_capacity a" and "i \<notin> occupied a" and "occupied a' = insert i (occupied a)"
    and "alloc_inv a'" and "Suc (num_free_slots a') = num_free_slots a"
    and "sa_capacity a' = sa_capacity a" and "sa_target_capacity a' = sa_target_capacity a"
proof -
  obtain a1 where a1: "scrub_events dn a = Inr a1" "alloc_inv a1" "num_free_slots a1 = num_free_slots a"
    "sa_occupied_mask a1 = sa_occupied_mask a" "sa_capacity a1 = sa_capacity a"
    "sa_target_capacity a1 = sa_target_capacity a"
    using scrub_events_inv [OF inv] by metis
  obtain a2 s i where p: "pick_slot a1 = Inr (a2, s)" "slot_id_opt s = Some i"
    "i < sa_target_capacity a1" "i \<notin> occupied a1" "i < sa_capacity a1"
    "sa_occupied_mask a2 = sa_occupied_mask a1" "Suc (num_free_slots a2) = num_free_slots a1"
    "sa_capacity a2 = sa_capacity a1" "sa_target_capacity a2 = sa_target_capacity a1"
    "\<And>m. bitset_inv m \<Longrightarrow> bitset_abs m = insert i (occupied a1) \<Longrightarrow>
        bitset_capacity m = bitset_capacity (sa_occupied_mask a1) \<Longrightarrow> alloc_inv (a2\<lparr>sa_occupied_mask := m\<rparr>)"
    using pick_slot_spec [OF a1(2)] free a1(3) by metis
  have "i < bitset_capacity (sa_occupied_mask a1)"
    using p(5) alloc_inv_mask_cap [OF a1(2)] by simp
  then obtain m where m: "bitset_set (sa_occupied_mask a1) i = Inr m" "bitset_abs m = insert i (occupied a1)"
    "bitset_capacity m = bitset_capacity (sa_occupied_mask a1)" "bitset_inv m"
    using bs.set_law alloc_inv_mask [OF a1(2)] by blast
  have "num_free_slots (a2\<lparr>sa_occupied_mask := m\<rparr>) = num_free_slots a2" by (simp add: num_free_slots_def)
  moreover have "allocate dn a = Inr (a2\<lparr>sa_occupied_mask := m\<rparr>, s)"
    using free a1(1) p(1,2,6) m(1) by (simp add: allocate_def slot_id_def)
  ultimately show ?thesis
    using p a1 m p(10) [OF m(4,2,3)] by (intro that [of "a2\<lparr>sa_occupied_mask := m\<rparr>" s i]) auto
qed

lemma move_to_new_slot_eq:
  "slot_id_opt s = Some i \<Longrightarrow> move_to_new_slot s =
     Inr (s\<lparr>slot_id_opt := None, ready_event := NullEvent\<rparr>, \<lparr>slot_id_opt = Some i, ready_event = ready_event s\<rparr>)"
  by (simp add: move_to_new_slot_def set_slot_def has_valid_slot_def slot_id_def)

lemma alloc_invI:
  assumes "bitset_inv (sa_occupied_mask a)" and "sa_capacity a \<le> bitset_capacity (sa_occupied_mask a)"
    and "sa_target_capacity a \<le> sa_capacity a" and "sa_num_active_slots a \<le> sa_capacity a"
    and "\<forall>s \<in> set (sa_recycled_slots a) \<union> set (sa_overflow_slots a). has_valid_slot s"
    and "distinct (idle_ids a)" and "occupied a \<inter> set (idle_ids a) = {}"
    and "occupied a \<union> set (idle_ids a) = {..<sa_num_active_slots a}"
    and "\<forall>i \<in> set (slot_ids (sa_recycled_slots a)). i < sa_target_capacity a"
    and "\<forall>i \<in> set (slot_ids (sa_overflow_slots a)). sa_target_capacity a \<le> i"
    and "sa_num_ready_recycled_slots a \<le> length (sa_recycled_slots a)"
    and "\<forall>s \<in> set (take (sa_num_ready_recycled_slots a) (sa_recycled_slots a)). ready_event s = NullEvent"
  shows "alloc_inv a"
  using assms unfolding alloc_inv_def by blast

text \<open>Moving an occupied id to one of the idle lists, as seen by the sets of ids.\<close>

lemma idle_insert:
  assumes inv: "alloc_inv a" and i: "i \<in> occupied a"
    and ids: "mset ids = add_mset i (mset (idle_ids a))"
  shows "distinct ids" and "(occupied a - {i}) \<inter> set ids = {}"
    and "(occupied a - {i}) \<union> set ids = {..<sa_num_active_slots a}"
proof -
  have fresh: "i \<notin> set (idle_ids a)" using alloc_inv_disjoint [OF inv] i by blast
  have set: "set ids = insert i (set (idle_ids a))"
    using arg_cong [OF ids, of set_mset] by simp
  have "mset ids = mset (i # idle_ids a)" using ids by simp
  then show "distinct ids"
    using fresh alloc_inv_distinct [OF inv] mset_eq_imp_distinct_iff distinct.simps(2) by metis
  show "(occupied a - {i}) \<inter> set ids = {}" unfolding set using alloc_inv_disjoint [OF inv] by blast
  show "(occupied a - {i}) \<union> set ids = {..<sa_num_active_slots a}"
    unfolding set alloc_inv_cover [OF inv, symmetric] using i by blast
qed

lemma push_recycled_inv:
  assumes inv: "alloc_inv a" and i: "i \<in> occupied a" "slot_id_opt s = Some i" "i < sa_target_capacity a"
    and m: "bitset_inv m" "bitset_abs m = occupied a - {i}"
      "bitset_capacity m = bitset_capacity (sa_occupied_mask a)"
  shows "alloc_inv (a\<lparr>sa_recycled_slots := sa_recycled_slots a @ [s], sa_occupied_mask := m\<rparr>)"
proof -
  have m': "mset (slot_ids (sa_recycled_slots a @ [s]) @ slot_ids (sa_overflow_slots a)) = add_mset i (mset (idle_ids a))"
    using i(2) by simp
  show ?thesis
  proof (rule alloc_invI, goal_cases)
    case 1 then show ?case using m(1) by simp
  next
    case 2 then show ?case using m(3) alloc_inv_mask_cap [OF inv] by simp
  next
    case 3 then show ?case using alloc_inv_target [OF inv] by simp
  next
    case 4 then show ?case using alloc_inv_active_cap [OF inv] by simp
  next
    case 5 then show ?case
      using alloc_inv_rec_valid [OF inv] alloc_inv_ovf_valid [OF inv] i(2) by (auto simp: has_valid_slot_def)
  next
    case 6 then show ?case using idle_insert(1) [OF inv i(1) m'] by simp
  next
    case 7 then show ?case using idle_insert(2) [OF inv i(1) m'] m(2) by simp
  next
    case 8 then show ?case using idle_insert(3) [OF inv i(1) m'] m(2) by simp
  next
    case 9 then show ?case using alloc_inv_rec_bound [OF inv] i(2,3) by auto
  next
    case 10 then show ?case using alloc_inv_ovf_bound [OF inv] i(2,3) by auto
  next
    case 11 then show ?case using alloc_inv_ready [OF inv] by simp
  next
    case 12 then show ?case using alloc_inv_ready_null [OF inv] alloc_inv_ready [OF inv] by simp
  qed
qed

lemma push_overflow_inv:
  assumes inv: "alloc_inv a" and i: "i \<in> occupied a" "slot_id_opt s = Some i" "\<not> i < sa_target_capacity a"
    and m: "bitset_inv m" "bitset_abs m = occupied a - {i}"
      "bitset_capacity m = bitset_capacity (sa_occupied_mask a)"
  shows "alloc_inv (a\<lparr>sa_overflow_slots := sa_overflow_slots a @ [s], sa_occupied_mask := m\<rparr>)"
proof -
  have m': "mset (slot_ids (sa_recycled_slots a) @ slot_ids (sa_overflow_slots a @ [s])) = add_mset i (mset (idle_ids a))"
    using i(2) by simp
  show ?thesis
  proof (rule alloc_invI, goal_cases)
    case 1 then show ?case using m(1) by simp
  next
    case 2 then show ?case using m(3) alloc_inv_mask_cap [OF inv] by simp
  next
    case 3 then show ?case using alloc_inv_target [OF inv] by simp
  next
    case 4 then show ?case using alloc_inv_active_cap [OF inv] by simp
  next
    case 5 then show ?case
      using alloc_inv_rec_valid [OF inv] alloc_inv_ovf_valid [OF inv] i(2) by (auto simp: has_valid_slot_def)
  next
    case 6 then show ?case using idle_insert(1) [OF inv i(1) m'] by simp
  next
    case 7 then show ?case using idle_insert(2) [OF inv i(1) m'] m(2) by simp
  next
    case 8 then show ?case using idle_insert(3) [OF inv i(1) m'] m(2) by simp
  next
    case 9 then show ?case using alloc_inv_rec_bound [OF inv] i(2,3) by auto
  next
    case 10 then show ?case using alloc_inv_ovf_bound [OF inv] i(2,3) by auto
  next
    case 11 then show ?case using alloc_inv_ready [OF inv] by simp
  next
    case 12 then show ?case using alloc_inv_ready_null [OF inv] alloc_inv_ready [OF inv] by simp
  qed
qed

lemma release_spec:
  assumes inv: "alloc_inv a" and i: "i \<in> occupied a" "slot_id_opt s = Some i"
  obtains a' where "release ndebug dn a s = (s\<lparr>slot_id_opt := None, ready_event := NullEvent\<rparr>, Inr a')"
    and "alloc_inv a'" and "occupied a' = occupied a - {i}"
    and "num_free_slots a' = num_free_slots a + (if i < sa_target_capacity a then 1 else 0)"
    and "sa_capacity a' = sa_capacity a" and "sa_target_capacity a' = sa_target_capacity a"
    and "sa_num_active_slots a' = sa_num_active_slots a"
proof -
  let ?s = "\<lparr>slot_id_opt = Some i, ready_event = ready_event s\<rparr>"
  let ?a1 = "if i < sa_target_capacity a then a\<lparr>sa_recycled_slots := sa_recycled_slots a @ [?s]\<rparr>
    else a\<lparr>sa_overflow_slots := sa_overflow_slots a @ [?s]\<rparr>"
  have icap: "i < sa_capacity a"
    using occupied_lt_active [OF inv i(1)] alloc_inv_active_cap [OF inv] by simp
  then have imask: "i < bitset_capacity (sa_occupied_mask a)"
    using alloc_inv_mask_cap [OF inv] by simp
  obtain m where m: "bitset_clear (sa_occupied_mask a) i = Inr m" "bitset_abs m = occupied a - {i}"
    "bitset_capacity m = bitset_capacity (sa_occupied_mask a)" "bitset_inv m"
    using bs.clear_law [OF imask alloc_inv_mask [OF inv]] by blast
  have inv1: "alloc_inv (?a1\<lparr>sa_occupied_mask := m\<rparr>)"
    using push_recycled_inv [OF inv i(1), of ?s] push_overflow_inv [OF inv i(1), of ?s] m by auto
  obtain a2 where a2: "scrub_events dn (?a1\<lparr>sa_occupied_mask := m\<rparr>) = Inr a2" "alloc_inv a2"
    "num_free_slots a2 = num_free_slots (?a1\<lparr>sa_occupied_mask := m\<rparr>)"
    "sa_occupied_mask a2 = sa_occupied_mask (?a1\<lparr>sa_occupied_mask := m\<rparr>)"
    "sa_capacity a2 = sa_capacity (?a1\<lparr>sa_occupied_mask := m\<rparr>)"
    "sa_target_capacity a2 = sa_target_capacity (?a1\<lparr>sa_occupied_mask := m\<rparr>)"
    "sa_num_active_slots a2 = sa_num_active_slots (?a1\<lparr>sa_occupied_mask := m\<rparr>)"
    by (rule scrub_events_inv [OF inv1])
  have "sa_occupied_mask ?a1 = sa_occupied_mask a" by simp
  then have "release ndebug dn a s = (s\<lparr>slot_id_opt := None, ready_event := NullEvent\<rparr>, Inr a2)"
    using i icap imask m(1) a2(1) alloc_inv_check [OF a2(2)]
    by (cases "i < sa_target_capacity a")
      (simp_all add: release_def has_valid_slot_def move_to_new_slot_eq slot_id_def bs.get_law Let_def)
  then show ?thesis
    using a2 m(2) by (intro that [of a2]) (auto simp: num_free_slots_def)
qed

lemma release_unoccupied:
  assumes inv: "alloc_inv a" and i: "i \<notin> occupied a" "slot_id_opt s = Some i"
  shows "release ndebug dn a s = (s\<lparr>slot_id_opt := None, ready_event := NullEvent\<rparr>, Inl LogicError)"
proof (cases "sa_capacity a \<le> i")
  case True
  with i show ?thesis
    by (simp add: release_def has_valid_slot_def move_to_new_slot_eq slot_id_def)
next
  case False
  then have "i < bitset_capacity (sa_occupied_mask a)" using alloc_inv_mask_cap [OF inv] by simp
  with False i show ?thesis
    by (simp add: release_def has_valid_slot_def move_to_new_slot_eq slot_id_def bs.get_law)
qed

lemma allocate_out_of_pages: "num_free_slots a = 0 \<Longrightarrow> allocate dn a = Inl OutOfPagesError"
  by (simp add: allocate_def)

lemma allocate_times_spec:
  assumes "alloc_inv a" and "n \<le> num_free_slots a"
  shows "\<exists>a' ss. allocate_times dns n a = Inr (a', ss) \<and> alloc_inv a' \<and> length ss = n
    \<and> (\<forall>s \<in> set ss. has_valid_slot s) \<and> distinct (slot_ids ss)
    \<and> set (slot_ids ss) \<inter> occupied a = {} \<and> set (slot_ids ss) \<subseteq> {..<sa_target_capacity a}
    \<and> occupied a' = occupied a \<union> set (slot_ids ss) \<and> num_free_slots a' + n = num_free_slots a
    \<and> sa_capacity a' = sa_capacity a \<and> sa_target_capacity a' = sa_target_capacity a"
  using assms
proof (induction n arbitrary: a)
  case 0
  then show ?case by simp
next
  case (Suc n)
  then have "num_free_slots a \<noteq> 0" by simp
  then obtain a1 s i where a1: "allocate (dns n) a = Inr (a1, s)" "slot_id_opt s = Some i"
    "i < sa_target_capacity a" "i \<notin> occupied a" "occupied a1 = insert i (occupied a)"
    "alloc_inv a1" "Suc (num_free_slots a1) = num_free_slots a"
    "sa_capacity a1 = sa_capacity a" "sa_target_capacity a1 = sa_target_capacity a"
    using allocate_spec [OF Suc.prems(1)] by metis
  then obtain a2 ss where a2: "allocate_times dns n a1 = Inr (a2, ss)" "alloc_inv a2" "length ss = n"
    "\<forall>s \<in> set ss. has_valid_slot s" "distinct (slot_ids ss)" "set (slot_ids ss) \<inter> occupied a1 = {}"
    "set (slot_ids ss) \<subseteq> {..<sa_target_capacity a1}" "occupied a2 = occupied a1 \<union> set (slot_ids ss)"
    "num_free_slots a2 + n = num_free_slots a1" "sa_capacity a2 = sa_capacity a1"
    "sa_target_capacity a2 = sa_target_capacity a1"
    using Suc.IH [of a1] Suc.prems(2) by auto
  have "allocate_times dns (Suc n) a = Inr (a2, s # ss)" using a1(1) a2(1) by simp
  then show ?case
    using a1 a2 by (intro exI [of _ a2] exI [of _ "s # ss"]) (auto simp: has_valid_slot_def)
qed

section \<open>Resizing\<close>

lemma expand_spec:
  assumes inv: "alloc_inv a" and stable: "\<not> shrink_in_progress a" and n: "sa_capacity a < n"
  shows "\<exists>a'. expand ndebug a n = Inr a' \<and> alloc_inv a' \<and> occupied a' = occupied a
    \<and> sa_capacity a' = n \<and> sa_target_capacity a' = n
    \<and> num_free_slots a' = num_free_slots a + (n - sa_capacity a)"
proof -
  let ?a = "a\<lparr>sa_occupied_mask := bitset_resize (sa_occupied_mask a) n, sa_capacity := n, sa_target_capacity := n\<rparr>"
  have tc: "sa_target_capacity a = sa_capacity a"
    using stable alloc_inv_target [OF inv] by (simp add: shrink_in_progress_def)
  have ovf: "sa_overflow_slots a = []"
    using alloc_inv_check [OF inv] stable by (simp add: alloc_check_def)
  have occ: "occupied ?a = occupied a"
    using bs.resize_abs [OF alloc_inv_mask [OF inv], of n] occupied_lt_active [OF inv]
      alloc_inv_active_cap [OF inv] n by fastforce
  have rec: "the (slot_id_opt s) < n" if "s \<in> set (sa_recycled_slots a)" for s
    using alloc_inv_rec_bound [OF inv that] tc n by simp
  have inv': "alloc_inv ?a"
    using inv occ ovf rec n bs.resize_inv [OF alloc_inv_mask [OF inv], of n]
      bs.resize_cap [of n "sa_occupied_mask a"] unfolding alloc_inv_def by simp
  have "expand ndebug a n = Inr ?a"
    using alloc_inv_check [OF inv] alloc_inv_check [OF inv'] tc n by (simp add: expand_def Let_def)
  moreover have "num_free_slots ?a = num_free_slots a + (n - sa_capacity a)"
    using tc n alloc_inv_active_cap [OF inv] by (simp add: num_free_slots_def)
  ultimately show ?thesis using inv' occ by auto
qed

lemma shrink_loop_spec:
  assumes "\<forall>s \<in> set ss. has_valid_slot s"
  shows "shrink_loop n old_ready i ss recycled nr overflow =
    Inr (recycled @ filter (\<lambda>s. the (slot_id_opt s) < n) ss,
         nr + length (filter (\<lambda>s. the (slot_id_opt s) < n) (take (old_ready - i) ss)),
         overflow @ filter (\<lambda>s. \<not> the (slot_id_opt s) < n) ss)"
  using assms
proof (induction ss arbitrary: i recycled nr overflow)
  case (Cons s ss)
  then show ?case
    by (cases "old_ready - i") (auto simp: slot_id_valid Suc_diff_Suc diff_Suc split: nat.splits)
qed simp

lemma filter_take_prefix: "filter P (take k xs) = take (length (filter P (take k xs))) (filter P xs)"
  by (metis append_eq_conv_conj append_take_drop_id filter_append)

lemma prepare_for_shrink_spec:
  assumes inv: "alloc_inv a" and stable: "\<not> shrink_in_progress a" and n: "n < sa_capacity a"
  shows "\<exists>a'. prepare_for_shrink ndebug a n = Inr a' \<and> alloc_inv a' \<and> occupied a' = occupied a
    \<and> sa_capacity a' = sa_capacity a \<and> sa_target_capacity a' = n \<and> shrink_in_progress a'
    \<and> sa_num_active_slots a' = sa_num_active_slots a"
proof -
  let ?P = "\<lambda>s. the (slot_id_opt s) < n" and ?r = "sa_num_ready_recycled_slots a"
  let ?rec = "sa_recycled_slots a"
  let ?a = "a\<lparr>sa_recycled_slots := filter ?P ?rec,
    sa_num_ready_recycled_slots := length (filter ?P (take ?r ?rec)),
    sa_overflow_slots := filter (\<lambda>s. \<not> ?P s) ?rec, sa_target_capacity := n\<rparr>"
  have tc: "sa_target_capacity a = sa_capacity a"
    using stable alloc_inv_target [OF inv] by (simp add: shrink_in_progress_def)
  have ovf: "sa_overflow_slots a = []"
    using alloc_inv_check [OF inv] stable by (simp add: alloc_check_def)
  have dist: "distinct (slot_ids ?rec)" using alloc_inv_distinct [OF inv] by simp
  have ids: "set (idle_ids ?a) = set (idle_ids a)" using ovf by auto
  have dist': "distinct (idle_ids ?a)"
    using dist by (auto simp: distinct_map intro: inj_on_subset)
  have len: "length (filter ?P (take ?r ?rec)) \<le> length (filter ?P ?rec)"
    by (metis append_take_drop_id filter_append le_add1 length_append)
  have null: "ready_event s = NullEvent"
    if "s \<in> set (take (length (filter ?P (take ?r ?rec))) (filter ?P ?rec))" for s
    using that alloc_inv_ready_null [OF inv, of s] filter_take_prefix [of ?P ?r ?rec]
    by (metis (no_types, lifting) filter_is_subset subsetD)
  have inv': "alloc_inv ?a"
    using alloc_inv_mask [OF inv] alloc_inv_mask_cap [OF inv] alloc_inv_active_cap [OF inv]
      alloc_inv_rec_valid [OF inv] alloc_inv_disjoint [OF inv] alloc_inv_cover [OF inv] n dist' len null ids
    unfolding alloc_inv_def by (simp del: set_map set_append) auto
  have "prepare_for_shrink ndebug a n = Inr ?a"
    using alloc_inv_check [OF inv] alloc_inv_check [OF inv'] alloc_inv_rec_valid [OF inv] tc n ovf
    by (simp add: prepare_for_shrink_def shrink_loop_spec Let_def)
  then show ?thesis using inv' n by (auto simp: shrink_in_progress_def)
qed

lemma overflow_range:
  assumes inv: "alloc_inv a"
  shows "set (slot_ids (sa_overflow_slots a)) \<union> {i \<in> occupied a. sa_target_capacity a \<le> i}
    = {sa_target_capacity a..<sa_num_active_slots a}"
proof (intro set_eqI iffI)
  fix i assume "i \<in> {sa_target_capacity a..<sa_num_active_slots a}"
  then have "i \<in> occupied a \<union> set (idle_ids a)" "sa_target_capacity a \<le> i"
    using alloc_inv_cover [OF inv] by auto
  then show "i \<in> set (slot_ids (sa_overflow_slots a)) \<union> {i \<in> occupied a. sa_target_capacity a \<le> i}"
    using alloc_inv_rec_bound [OF inv] by fastforce
next
  fix i assume "i \<in> set (slot_ids (sa_overflow_slots a)) \<union> {i \<in> occupied a. sa_target_capacity a \<le> i}"
  then show "i \<in> {sa_target_capacity a..<sa_num_active_slots a}"
    using alloc_inv_ovf_bound [OF inv] overflow_lt_active [OF inv] occupied_lt_active [OF inv] by auto
qed

lemma overflow_complete_iff:
  assumes inv: "alloc_inv a"
  shows "length (sa_overflow_slots a) = sa_num_active_slots a - sa_target_capacity a
    \<longleftrightarrow> {i \<in> occupied a. sa_target_capacity a \<le> i} = {}"
proof -
  let ?B = "{i \<in> occupied a. sa_target_capacity a \<le> i}"
  have "card (set (slot_ids (sa_overflow_slots a)) \<union> ?B) = card (set (slot_ids (sa_overflow_slots a))) + card ?B"
    using alloc_inv_disjoint [OF inv] by (intro card_Un_disjoint) auto
  moreover have "card (set (slot_ids (sa_overflow_slots a))) = length (sa_overflow_slots a)"
    using alloc_inv_distinct [OF inv] distinct_card [of "slot_ids (sa_overflow_slots a)"] by simp
  ultimately have "length (sa_overflow_slots a) + card ?B = sa_num_active_slots a - sa_target_capacity a"
    unfolding overflow_range [OF inv] by simp
  moreover have "card ?B = 0 \<longleftrightarrow> ?B = {}" by (simp add: card_eq_0_iff)
  ultimately show ?thesis by linarith
qed

lemma blocking_ids_eq:
  "(\<And>i. i \<in> set is \<Longrightarrow> i < bitset_capacity m) \<Longrightarrow> blocking_ids m is = Inr (filter (\<lambda>i. i \<in> bitset_abs m) is)"
  by (induction "is") (auto simp: bs.get_law)

lemma blocking_shrink_eq:
  assumes inv: "alloc_inv a"
  shows "get_slots_blocking_shrink a =
    Inr (filter (\<lambda>i. i \<in> occupied a) [sa_target_capacity a..<sa_capacity a])"
  unfolding get_slots_blocking_shrink_def
  using alloc_inv_mask_cap [OF inv] by (intro blocking_ids_eq) auto

lemma blocking_shrink_empty_iff:
  assumes inv: "alloc_inv a"
  shows "get_slots_blocking_shrink a = Inr [] \<longleftrightarrow> {i \<in> occupied a. sa_target_capacity a \<le> i} = {}"
proof -
  have "i < sa_capacity a" if "i \<in> occupied a" for i
    using occupied_lt_active [OF inv that] alloc_inv_active_cap [OF inv] by simp
  then show ?thesis unfolding blocking_shrink_eq [OF inv] by (auto simp: filter_empty_conv)
qed

lemma finish_shrink_inv:
  assumes inv: "alloc_inv a" and B: "{i \<in> occupied a. sa_target_capacity a \<le> i} = {}"
  shows "alloc_inv (a\<lparr>sa_overflow_slots := [], sa_capacity := sa_target_capacity a,
    sa_num_active_slots := min (sa_num_active_slots a) (sa_target_capacity a)\<rparr>)"
proof -
  have "occupied a \<union> set (slot_ids (sa_recycled_slots a)) = {..<min (sa_num_active_slots a) (sa_target_capacity a)}"
    (is "?L = ?R")
  proof (intro set_eqI iffI)
    fix i assume "i \<in> ?L"
    then show "i \<in> ?R"
      using B alloc_inv_rec_bound [OF inv] alloc_inv_cover [OF inv] by fastforce
  next
    fix i assume i: "i \<in> ?R"
    then have "i \<in> occupied a \<union> set (idle_ids a)" unfolding alloc_inv_cover [OF inv] by simp
    with i show "i \<in> ?L" using alloc_inv_ovf_bound [OF inv] by fastforce
  qed
  then show ?thesis
    using inv alloc_inv_target [OF inv] unfolding alloc_inv_def by auto
qed

lemma mapR_slot_id: "\<forall>s \<in> set ss. has_valid_slot s \<Longrightarrow> mapR slot_id ss = Inr (slot_ids ss)"
  by (intro mapR_Inr_map) (simp add: slot_id_valid)

lemma finish_shrink_spec:
  assumes inv: "alloc_inv a" and prog: "shrink_in_progress a"
    and B: "{i \<in> occupied a. sa_target_capacity a \<le> i} = {}"
  shows "\<exists>a'. finish_shrink ndebug dn a = Inr a' \<and> alloc_inv a' \<and> occupied a' = occupied a
    \<and> sa_capacity a' = sa_target_capacity a \<and> \<not> shrink_in_progress a'
    \<and> num_free_slots a' = num_free_slots a"
proof -
  let ?a = "a\<lparr>sa_overflow_slots := [], sa_capacity := sa_target_capacity a,
    sa_num_active_slots := min (sa_num_active_slots a) (sa_target_capacity a)\<rparr>"
  obtain a' where a': "scrub_events dn ?a = Inr a'" "alloc_inv a'" "num_free_slots a' = num_free_slots ?a"
    "sa_occupied_mask a' = sa_occupied_mask ?a" "sa_capacity a' = sa_capacity ?a"
    "sa_target_capacity a' = sa_target_capacity ?a"
    by (rule scrub_events_inv [OF finish_shrink_inv [OF inv B]])
  have "distinct (slot_ids (sa_overflow_slots a))" using alloc_inv_distinct [OF inv] by simp
  moreover have "length (sa_overflow_slots a) = sa_num_active_slots a - sa_target_capacity a"
    using overflow_complete_iff [OF inv] B by simp
  ultimately have "finish_shrink ndebug dn a = Inr a'"
    using prog a'(1) alloc_inv_check [OF inv] alloc_inv_check [OF a'(2)] alloc_inv_target [OF inv]
      mapR_slot_id [of "sa_overflow_slots a"] alloc_inv_ovf_valid [OF inv]
    by (simp add: finish_shrink_def)
  then show ?thesis using a' by (auto simp: shrink_in_progress_def num_free_slots_def)
qed

lemma finish_shrink_blocked:
  assumes inv: "alloc_inv a"
    and "\<not> shrink_in_progress a \<or> {i \<in> occupied a. sa_target_capacity a \<le> i} \<noteq> {}"
  shows "finish_shrink ndebug dn a = Inl RuntimeError"
  using assms overflow_complete_iff [OF inv] alloc_inv_check [OF inv] alloc_inv_target [OF inv]
  by (auto simp: finish_shrink_def)

section \<open>Runs of the allocator\<close>

text \<open>
  \<open>alloc_run n H a\<close>: from a fresh allocator of capacity \<open>n\<close>, a sequence of successful operations
  leads to \<open>a\<close>, and \<open>H\<close> is the set of ids handed out by \<open>allocate\<close> and not given back since.
\<close>

inductive alloc_run :: "nat \<Rightarrow> nat set \<Rightarrow> slot_allocator \<Rightarrow> bool" for n where
  run_init: "alloc_run n {} (slot_allocator_init n)"
| run_allocate: "alloc_run n H a \<Longrightarrow> allocate dn a = Inr (a', s) \<Longrightarrow> slot_id_opt s = Some i \<Longrightarrow>
    alloc_run n (insert i H) a'"
| run_release: "alloc_run n H a \<Longrightarrow> slot_id_opt s = Some i \<Longrightarrow> release ndebug dn a s = (s', Inr a') \<Longrightarrow>
    alloc_run n (H - {i}) a'"
| run_expand: "alloc_run n H a \<Longrightarrow> expand ndebug a k = Inr a' \<Longrightarrow> alloc_run n H a'"
| run_prepare: "alloc_run n H a \<Longrightarrow> prepare_for_shrink ndebug a k = Inr a' \<Longrightarrow> alloc_run n H a'"
| run_finish: "alloc_run n H a \<Longrightarrow> finish_shrink ndebug dn a = Inr a' \<Longrightarrow> alloc_run n H a'"
| run_scrub: "alloc_run n H a \<Longrightarrow> scrub_events dn a = Inr a' \<Longrightarrow> alloc_run n H a'"

lemma allocate_success:
  assumes inv: "alloc_inv a" and "allocate dn a = Inr (a', s)"
  shows "alloc_inv a'" and "\<exists>i. slot_id_opt s = Some i \<and> i \<notin> occupied a \<and> i < sa_target_capacity a
    \<and> occupied a' = insert i (occupied a)"
proof -
  have "num_free_slots a \<noteq> 0" using assms(2) by (auto simp: allocate_def split: if_splits)
  from allocate_spec [OF inv this] assms(2)
  have "alloc_inv a' \<and> (\<exists>i. slot_id_opt s = Some i \<and> i \<notin> occupied a \<and> i < sa_target_capacity a
    \<and> occupied a' = insert i (occupied a))" by (metis (no_types, lifting) Pair_inject sum.inject(2))
  then show "alloc_inv a'" and "\<exists>i. slot_id_opt s = Some i \<and> i \<notin> occupied a \<and> i < sa_target_capacity a
    \<and> occupied a' = insert i (occupied a)" by auto
qed

lemma release_success:
  assumes inv: "alloc_inv a" and "slot_id_opt s = Some i" and "release ndebug dn a s = (s', Inr a')"
  shows "i \<in> occupied a" and "alloc_inv a'" and "occupied a' = occupied a - {i}"
proof -
  show i: "i \<in> occupied a"
    using release_unoccupied [OF inv _ assms(2)] assms(3) by fastforce
  from release_spec [OF inv i assms(2), of ndebug dn] assms(3)
  show "alloc_inv a'" and "occupied a' = occupied a - {i}"
    by (metis Pair_inject sum.inject(2))+
qed

lemma alloc_run_inv: "alloc_run n H a \<Longrightarrow> alloc_inv a \<and> H = occupied a"
proof (induction rule: alloc_run.induct)
  case run_init
  then show ?case using alloc_inv_init by (simp add: slot_allocator_init_def bitset_init_spec)
next
  case (run_allocate H a dn a' s i)
  then show ?case using allocate_success [of a dn a' s] by auto
next
  case (run_release H a s i ndebug dn s' a')
  then show ?case using release_success [of a s i ndebug dn s' a'] by auto
next
  case (run_expand H a ndebug k a')
  then have "\<not> shrink_in_progress a" "sa_capacity a < k"
    by (auto simp: expand_def res_iffs shrink_in_progress_def)
  then show ?case using run_expand expand_spec [of a k ndebug] by auto
next
  case (run_prepare H a ndebug k a')
  then have "\<not> shrink_in_progress a" "k < sa_capacity a"
    by (auto simp: prepare_for_shrink_def res_iffs shrink_in_progress_def)
  then show ?case using run_prepare prepare_for_shrink_spec [of a k ndebug] by auto
next
  case (run_finish H a ndebug dn a')
  then show ?case
    using finish_shrink_blocked [of a ndebug dn] finish_shrink_spec [of a ndebug dn] by fastforce
next
  case (run_scrub H a dn a')
  then show ?case using scrub_events_inv [of a dn] by (metis sum.inject(2))
qed

section \<open>Waiting for the recycled slots\<close>

lemma synchronize_fuel_ready:
  "alloc_inv a \<Longrightarrow> \<forall>e. dns T e \<Longrightarrow> t \<le> T \<Longrightarrow> T - t + 2 \<le> fuel \<Longrightarrow>
    \<exists>a'. synchronize_fuel fuel dns t a = Some (Inr a') \<and> alloc_inv a' \<and> occupied a' = occupied a
      \<and> num_free_slots a' = num_free_slots a
      \<and> sa_num_ready_recycled_slots a' = length (sa_recycled_slots a')"
proof (induction fuel dns t a rule: synchronize_fuel.induct)
  case (1 dns t a)
  then show ?case by simp
next
  case (2 fuel dns t a)
  let ?ready = "\<lambda>a. sa_num_ready_recycled_slots a = length (sa_recycled_slots a)"
  obtain r k where rk: "scrub_events (dns t) a = Inr (a\<lparr>sa_recycled_slots := r, sa_num_ready_recycled_slots := k\<rparr>)"
    "map slot_id_opt r = map slot_id_opt (sa_recycled_slots a)" "k \<le> length r"
    "\<forall>s \<in> set (take k r). ready_event s = NullEvent" "(\<forall>e. dns t e) \<longrightarrow> k = length r"
    by (rule scrub_events_spec [OF 2(2), of "dns t"])
  let ?a = "a\<lparr>sa_recycled_slots := r, sa_num_ready_recycled_slots := k\<rparr>"
  have inv: "alloc_inv ?a" by (rule alloc_inv_recycled_cong [OF 2(2) rk(2-4)])
  have free: "num_free_slots ?a = num_free_slots a"
    using map_eq_imp_length_eq [OF rk(2)] by (simp add: num_free_slots_def)
  show ?case
  proof (cases "t = T")
    case True
    then have "?ready ?a" using 2(3) rk(5) by simp
    moreover obtain f where "fuel = Suc f" using 2(5) True by (cases fuel) auto
    ultimately show ?thesis
      using inv free 2(2) rk(1) by (cases "?ready a") auto
  next
    case False
    then have "Suc t \<le> T" "T - Suc t + 2 \<le> fuel" using 2(4,5) by auto
    then show ?thesis
      using 2(1) [OF _ rk(1) inv 2(3)] 2(2) rk(1) free by (cases "?ready a") auto
  qed
qed

lemma num_free_slots_eq:
  assumes inv: "alloc_inv a"
  shows "num_free_slots a = sa_target_capacity a - card {i \<in> occupied a. i < sa_target_capacity a}"
    and "card {i \<in> occupied a. i < sa_target_capacity a} \<le> sa_target_capacity a"
proof -
  let ?R = "set (slot_ids (sa_recycled_slots a))" and ?O = "{i \<in> occupied a. i < sa_target_capacity a}"
  have "?R \<union> ?O = {..<min (sa_num_active_slots a) (sa_target_capacity a)}"
  proof (intro set_eqI iffI)
    fix i assume "i \<in> ?R \<union> ?O"
    then have "i \<in> occupied a \<union> set (idle_ids a)" "i < sa_target_capacity a"
      using alloc_inv_rec_bound [OF inv] by auto
    then show "i \<in> {..<min (sa_num_active_slots a) (sa_target_capacity a)}"
      unfolding alloc_inv_cover [OF inv] by simp
  next
    fix i assume i: "i \<in> {..<min (sa_num_active_slots a) (sa_target_capacity a)}"
    then have "i \<in> occupied a \<union> set (idle_ids a)" unfolding alloc_inv_cover [OF inv] by simp
    with i show "i \<in> ?R \<union> ?O" using alloc_inv_ovf_bound [OF inv] by fastforce
  qed
  then have "card (?R \<union> ?O) = min (sa_num_active_slots a) (sa_target_capacity a)" by simp
  moreover have "card (?R \<union> ?O) = card ?R + card ?O"
    using alloc_inv_disjoint [OF inv] by (intro card_Un_disjoint) auto
  moreover have "card ?R = length (sa_recycled_slots a)"
    using alloc_inv_distinct [OF inv] distinct_card [of "slot_ids (sa_recycled_slots a)"] by simp
  ultimately show "num_free_slots a = sa_target_capacity a - card ?O" and "card ?O \<le> sa_target_capacity a"
    unfolding num_free_slots_def by linarith+
qed

lemma num_occupied_eq: "alloc_inv a \<Longrightarrow> num_occupied_slots a = int (card (occupied a))"
  unfolding num_occupied_slots_def by (rule bs.num_law [OF alloc_inv_mask])

lemma init_facts [simp]:
  "alloc_inv (slot_allocator_init n)" "occupied (slot_allocator_init n) = {}"
  "num_free_slots (slot_allocator_init n) = n" "\<not> shrink_in_progress (slot_allocator_init n)"
  "sa_capacity (slot_allocator_init n) = n" "sa_target_capacity (slot_allocator_init n) = n"
  using alloc_inv_init
  by (simp_all add: slot_allocator_init_def bitset_init_spec num_free_slots_def shrink_in_progress_def)

section \<open>Properties\<close>

text \<open>
  C14 Ownership of slots. In every state that successful operations reach from a fresh
  allocator, the occupied ids are exactly those handed out and not released, so the free count
  is what the target capacity leaves; \<open>allocate\<close> raises \<open>OutOfPagesError\<close> exactly when that
  count is zero, and otherwise hands out an id below the target capacity that nobody holds.
\<close>

theorem allocate_never_shares:
  assumes "alloc_run n H a"
  shows "num_occupied_slots a = int (card H)
    \<and> num_free_slots a = sa_target_capacity a - card {i \<in> H. i < sa_target_capacity a}
    \<and> (if num_free_slots a = 0 then allocate dn a = Inl OutOfPagesError
       else \<exists>a' s i. allocate dn a = Inr (a', s) \<and> slot_id_opt s = Some i \<and> i \<notin> H
         \<and> i < sa_target_capacity a \<and> alloc_run n (insert i H) a'
         \<and> num_free_slots a' = num_free_slots a - 1)"
proof -
  have inv: "alloc_inv a" and H: "H = occupied a" using alloc_run_inv [OF assms] by auto
  show ?thesis
  proof (cases "num_free_slots a = 0")
    case True
    then show ?thesis
      using num_occupied_eq [OF inv] num_free_slots_eq [OF inv] H by (simp add: allocate_out_of_pages)
  next
    case False
    obtain a' s i where a': "allocate dn a = Inr (a', s)" "slot_id_opt s = Some i" "i < sa_target_capacity a"
      "i \<notin> occupied a" "Suc (num_free_slots a') = num_free_slots a"
      using allocate_spec [OF inv False, of dn] by metis
    moreover have "alloc_run n (insert i H) a'" by (rule run_allocate [OF assms a'(1,2)])
    moreover have "num_free_slots a' = num_free_slots a - 1" using a'(5) by simp
    ultimately have "\<exists>a' s i. allocate dn a = Inr (a', s) \<and> slot_id_opt s = Some i \<and> i \<notin> H
      \<and> i < sa_target_capacity a \<and> alloc_run n (insert i H) a' \<and> num_free_slots a' = num_free_slots a - 1"
      using H by blast
    then show ?thesis
      using False num_occupied_eq [OF inv] num_free_slots_eq(1) [OF inv] H by simp
  qed
qed

theorem allocate_never_shares_witness:
  "\<exists>a' s i. alloc_run 3 {} (slot_allocator_init 3)
    \<and> allocate (\<lambda>_. False) (slot_allocator_init 3) = Inr (a', s) \<and> slot_id_opt s = Some i
    \<and> i < 3 \<and> alloc_run 3 {i} a' \<and> num_free_slots a' = 2"
  using allocate_never_shares [OF run_init [of 3], of "\<lambda>_. False"] run_init [of 3] by auto

text \<open>
  \<open>allocate_multiple\<close> is all or nothing: a negative count is a \<open>LogicError\<close>, a count above
  the free count is \<open>OutOfPagesError\<close>, and any other count gives that many valid slots with
  pairwise distinct ids, none of them occupied before and all of them occupied after.
\<close>

lemma allocate_multiple_all_or_nothing:
  assumes "alloc_inv a"
  shows "if n < 0 then allocate_multiple dns a n = Inl LogicError
    else if int (num_free_slots a) < n then allocate_multiple dns a n = Inl OutOfPagesError
    else \<exists>a' ss. allocate_multiple dns a n = Inr (a', ss) \<and> alloc_inv a' \<and> int (length ss) = n
      \<and> list_all has_valid_slot ss \<and> distinct (slot_ids ss)
      \<and> set (slot_ids ss) \<inter> occupied a = {} \<and> occupied a' = occupied a \<union> set (slot_ids ss)
      \<and> int (num_free_slots a') = int (num_free_slots a) - n"
proof (cases "0 \<le> n \<and> n \<le> int (num_free_slots a)")
  case True
  then have "nat n \<le> num_free_slots a" by linarith
  from allocate_times_spec [OF assms this, of dns] obtain a' ss where
    r: "allocate_times dns (nat n) a = Inr (a', ss)" "alloc_inv a'" "length ss = nat n"
    "\<forall>s \<in> set ss. has_valid_slot s" "distinct (slot_ids ss)" "set (slot_ids ss) \<inter> occupied a = {}"
    "occupied a' = occupied a \<union> set (slot_ids ss)" "num_free_slots a' + nat n = num_free_slots a"
    by blast
  have "allocate_multiple dns a n = Inr (a', ss)" using True r(1) by (simp add: allocate_multiple_def)
  moreover have "int (num_free_slots a') = int (num_free_slots a) - n" using r(8) True by linarith
  ultimately show ?thesis using r True by (auto simp: list_all_iff)
qed (auto simp: allocate_multiple_def)

text \<open>
  Allocation and release are inverse: releasing the slot just allocated succeeds with every
  self-check on, empties the caller's slot, and gives back the old set of occupied ids and the
  old free count; a second release of the same id is a \<open>LogicError\<close>, and so is the release of an id that
  is not occupied.
\<close>

lemma release_after_allocate:
  assumes inv: "alloc_inv a" and "num_free_slots a \<noteq> 0"
  shows "\<exists>a1 s a2. allocate dn a = Inr (a1, s)
    \<and> release ndebug dn' a1 s = (\<lparr>slot_id_opt = None, ready_event = NullEvent\<rparr>, Inr a2)
    \<and> alloc_inv a2 \<and> occupied a2 = occupied a \<and> num_free_slots a2 = num_free_slots a
    \<and> snd (release ndebug dn' a2 s) = Inl LogicError"
proof -
  obtain a1 s i where a1: "allocate dn a = Inr (a1, s)" "slot_id_opt s = Some i" "i < sa_target_capacity a"
    "i \<notin> occupied a" "occupied a1 = insert i (occupied a)" "alloc_inv a1"
    "Suc (num_free_slots a1) = num_free_slots a" "sa_target_capacity a1 = sa_target_capacity a"
    using allocate_spec [OF assms, of dn] by metis
  have "i \<in> occupied a1" using a1(5) by simp
  then obtain a2 where a2: "release ndebug dn' a1 s = (s\<lparr>slot_id_opt := None, ready_event := NullEvent\<rparr>, Inr a2)"
    "alloc_inv a2" "occupied a2 = occupied a1 - {i}"
    "num_free_slots a2 = num_free_slots a1 + (if i < sa_target_capacity a1 then 1 else 0)"
    using release_spec [OF a1(6) _ a1(2), of ndebug dn'] by metis
  have "occupied a2 = occupied a" "num_free_slots a2 = num_free_slots a"
    using a1 a2 by auto
  moreover have "s\<lparr>slot_id_opt := None, ready_event := NullEvent\<rparr> = \<lparr>slot_id_opt = None, ready_event = NullEvent\<rparr>"
    by simp
  moreover have "snd (release ndebug dn' a2 s) = Inl LogicError"
    using release_unoccupied [OF a2(2) _ a1(2)] a2(3) by simp
  ultimately show ?thesis using a1(1) a2(1,2) by metis
qed

text \<open>
  C28 Allocation is all or nothing, and release undoes it. A negative count is a \<open>LogicError\<close>, a count above the free count is
  \<open>OutOfPagesError\<close>, and any other count gives that many valid slots with pairwise distinct ids, none of them occupied before and
  all of them occupied after. Releasing a slot just allocated succeeds with every self-check on, empties the caller's
  slot and restores the occupied ids and the free count; releasing it again is a \<open>LogicError\<close>.
\<close>

theorem allocate_multiple_and_release:
  assumes "alloc_inv a"
  shows "(if n < 0 then allocate_multiple dns a n = Inl LogicError
    else if int (num_free_slots a) < n then allocate_multiple dns a n = Inl OutOfPagesError
    else \<exists>a' ss. allocate_multiple dns a n = Inr (a', ss) \<and> alloc_inv a' \<and> int (length ss) = n
      \<and> list_all has_valid_slot ss \<and> distinct (slot_ids ss)
      \<and> set (slot_ids ss) \<inter> occupied a = {} \<and> occupied a' = occupied a \<union> set (slot_ids ss)
      \<and> int (num_free_slots a') = int (num_free_slots a) - n)
    \<and> (num_free_slots a \<noteq> 0 \<longrightarrow> (\<exists>a1 s a2. allocate dn a = Inr (a1, s)
      \<and> release ndebug dn' a1 s = (\<lparr>slot_id_opt = None, ready_event = NullEvent\<rparr>, Inr a2)
      \<and> alloc_inv a2 \<and> occupied a2 = occupied a \<and> num_free_slots a2 = num_free_slots a
      \<and> snd (release ndebug dn' a2 s) = Inl LogicError))"
  using allocate_multiple_all_or_nothing [OF assms, of n dns] release_after_allocate [OF assms, of dn ndebug dn'] by (intro conjI impI)

theorem allocate_multiple_and_release_witness:
  "(\<exists>a' ss. allocate_multiple (\<lambda>_ _. False) (slot_allocator_init 3) 2 = Inr (a', ss) \<and> length ss = 2)
    \<and> (\<exists>a1 s a2. allocate (\<lambda>_. False) (slot_allocator_init 3) = Inr (a1, s)
      \<and> release False (\<lambda>_. False) a1 s = (\<lparr>slot_id_opt = None, ready_event = NullEvent\<rparr>, Inr a2) \<and> num_free_slots a2 = 3)"
  using allocate_multiple_and_release [of "slot_allocator_init 3" 2 "\<lambda>_ _. False" "\<lambda>_. False" False "\<lambda>_. False"] by auto

text \<open>
  C20 The two-phase shrink. \<open>prepare_for_shrink\<close> succeeds on any stable allocator with a smaller
  capacity and takes no slot away from its holder; \<open>get_slots_blocking_shrink\<close> then lists, in
  increasing order, exactly the occupied ids at or above the new capacity; and \<open>finish_shrink\<close> succeeds exactly
  when that list is empty (\<open>RuntimeError\<close> otherwise), leaving the new capacity, the same holders and
  the same free count.
\<close>

theorem shrink_protocol:
  assumes inv: "alloc_inv a" and "\<not> shrink_in_progress a" and "n < sa_capacity a"
  shows "\<exists>a1. prepare_for_shrink ndebug a n = Inr a1 \<and> alloc_inv a1 \<and> occupied a1 = occupied a
    \<and> num_free_slots a1 = n - card {i \<in> occupied a. i < n}
    \<and> get_slots_blocking_shrink a1 = Inr (filter (\<lambda>i. i \<in> occupied a) [n..<sa_capacity a])
    \<and> (if get_slots_blocking_shrink a1 = Inr []
       then \<exists>a2. finish_shrink ndebug dn a1 = Inr a2 \<and> alloc_inv a2 \<and> occupied a2 = occupied a
         \<and> sa_capacity a2 = n \<and> \<not> shrink_in_progress a2 \<and> num_free_slots a2 = num_free_slots a1
       else finish_shrink ndebug dn a1 = Inl RuntimeError)"
proof -
  obtain a1 where a1: "prepare_for_shrink ndebug a n = Inr a1" "alloc_inv a1" "occupied a1 = occupied a"
    "sa_capacity a1 = sa_capacity a" "sa_target_capacity a1 = n" "shrink_in_progress a1"
    using prepare_for_shrink_spec [OF assms, of ndebug] by auto
  show ?thesis
  proof (cases "get_slots_blocking_shrink a1 = Inr []")
    case True
    then have "{i \<in> occupied a1. sa_target_capacity a1 \<le> i} = {}"
      using blocking_shrink_empty_iff [OF a1(2)] by simp
    then show ?thesis
      using finish_shrink_spec [OF a1(2,6), of ndebug dn] blocking_shrink_eq [OF a1(2)]
        num_free_slots_eq(1) [OF a1(2)] a1 True by auto
  next
    case False
    then have "{i \<in> occupied a1. sa_target_capacity a1 \<le> i} \<noteq> {}"
      using blocking_shrink_empty_iff [OF a1(2)] by simp
    then show ?thesis
      using finish_shrink_blocked [OF a1(2), of ndebug dn] blocking_shrink_eq [OF a1(2)]
        num_free_slots_eq(1) [OF a1(2)] a1 False by auto
  qed
qed

theorem shrink_protocol_witness:
  "\<exists>a1 a2. prepare_for_shrink False (slot_allocator_init 5) 2 = Inr a1
    \<and> get_slots_blocking_shrink a1 = Inr [] \<and> finish_shrink False (\<lambda>_. False) a1 = Inr a2 \<and> sa_capacity a2 = 2"
  using shrink_protocol [of "slot_allocator_init 5" 2 False "\<lambda>_. False"] by auto

text \<open>
  C31 The busy wait \<open>_synchronize\<close> returns: if at some round \<open>T\<close> every event has completed, then
  \<open>T + 2\<close> rounds are enough, and it returns with every recycled slot ready, the same occupied
  ids and the same free count.
\<close>

theorem synchronize_returns:
  assumes "alloc_inv a" and "\<forall>e. dns T e"
  shows "\<exists>a'. synchronize_fuel (T + 2) dns 0 a = Some (Inr a') \<and> alloc_inv a'
    \<and> occupied a' = occupied a \<and> num_free_slots a' = num_free_slots a
    \<and> sa_num_ready_recycled_slots a' = length (sa_recycled_slots a')"
  using synchronize_fuel_ready [of a dns T 0 "T + 2"] assms by simp

theorem synchronize_returns_witness:
  "\<exists>a'. synchronize_fuel 5 (\<lambda>t e. 3 \<le> t) 0 (slot_allocator_init 4) = Some (Inr a') \<and> num_free_slots a' = 4"
  using synchronize_returns [of "slot_allocator_init 4" "\<lambda>t e. 3 \<le> t" 3] by auto

end
