(* ===== verification/KV_Config.thy ===== *)
theory KV_Config
  imports Complex_Main KV_Utils
begin

text \<open>
  The configuration of the cache manager (\<^verbatim>\<open>_config.py\<close>) and the life cycles of cache
  blocks (\<^verbatim>\<open>_life_cycle_registry.py\<close>). The checks of the \<^verbatim>\<open>__post_init__\<close> methods are
  functions that return the object or the error. A life cycle says which blocks of a sequence
  have gone out of use: for a sliding window, the blocks that lie before the window and after
  the attention sink.
\<close>

section \<open>Configuration data\<close>

datatype cache_tier = GPU_MEM | HOST_MEM | DISK

datatype cache_tier_config =
    GpuCacheTierConfig (quota: int)
  | HostCacheTierConfig (quota: int)
  | DiskCacheTierConfig (quota: int) (path: string)

fun tier :: "cache_tier_config \<Rightarrow> cache_tier" where
  "tier (GpuCacheTierConfig q) = GPU_MEM"
| "tier (HostCacheTierConfig q) = HOST_MEM"
| "tier (DiskCacheTierConfig q p) = DISK"

text \<open>\<open>isdir\<close> is the answer of the file system to \<^verbatim>\<open>os.path.isdir\<close>.\<close>

fun tier_assert_valid :: "(string \<Rightarrow> bool) \<Rightarrow> cache_tier_config \<Rightarrow> unit res" where
  "tier_assert_valid isdir (GpuCacheTierConfig q) = assertR (0 < q) (Inr ())"
| "tier_assert_valid isdir (HostCacheTierConfig q) = assertR (0 < q) (Inr ())"
| "tier_assert_valid isdir (DiskCacheTierConfig q p) = assertR (0 < q) (assertR (isdir p) (Inr ()))"

record buffer_config =
  bc_role :: string
  bc_size :: int
  bc_tokens_per_block_override :: "int option"

datatype layer_config =
    AttentionLayerConfig (layer_id: int) (buffers: "buffer_config list")
      (sliding_window_size: "int option") (num_sink_tokens: "int option")
  | SsmLayerConfig (layer_id: int) (buffers: "buffer_config list")

fun is_ssm_layer :: "layer_config \<Rightarrow> bool" where
  "is_ssm_layer (SsmLayerConfig i bs) = True"
| "is_ssm_layer (AttentionLayerConfig i bs w s) = False"

fun layer_post_init :: "layer_config \<Rightarrow> layer_config res" where
  "layer_post_init (AttentionLayerConfig i bs w s) =
     assertR (distinct (map bc_role bs)) (Inr (AttentionLayerConfig i bs w s))"
| "layer_post_init (SsmLayerConfig i bs) =
     assertR (distinct (map bc_role bs)) (
     assertR (list_all (\<lambda>b. bc_tokens_per_block_override b = None) bs) (Inr (SsmLayerConfig i bs)))"

record kv_cache_desc =
  kd_capacity :: int
  kd_history_length :: int

definition kv_cache_desc_post_init :: "kv_cache_desc \<Rightarrow> kv_cache_desc res" where
  "kv_cache_desc_post_init d =
     assertR (0 \<le> kd_history_length d \<and> kd_history_length d \<le> kd_capacity d) (Inr d)"

record batch_desc =
  bd_kv_caches :: "kv_cache_desc list"
  bd_system_prompt_length :: int

definition batch_desc_post_init :: "batch_desc \<Rightarrow> batch_desc res" where
  "batch_desc_post_init b = assertR (0 \<le> bd_system_prompt_length b) (Inr b)"

record swa_scratch_reuse_config =
  sr_max_rewind_len :: int

definition swa_scratch_reuse_post_init :: "swa_scratch_reuse_config \<Rightarrow> swa_scratch_reuse_config res" where
  "swa_scratch_reuse_post_init c = assertR (0 \<le> sr_max_rewind_len c) (Inr c)"

record kv_cache_manager_config =
  cfg_tokens_per_block :: int
  cfg_cache_tiers :: "cache_tier_config list"
  cfg_layers :: "layer_config list"
  cfg_max_util_for_resume :: real
  cfg_enable_partial_reuse :: bool
  cfg_constraints :: "batch_desc list"
  cfg_typical_step :: "batch_desc option"
  cfg_initial_pool_ratio :: "real list option"
  cfg_swa_scratch_reuse :: "swa_scratch_reuse_config option"
  cfg_commit_min_snapshot :: bool
  cfg_enable_stats :: bool

definition enable_swa_scratch_reuse :: "kv_cache_manager_config \<Rightarrow> bool" where
  "enable_swa_scratch_reuse c \<longleftrightarrow> cfg_swa_scratch_reuse c \<noteq> None"

text \<open>
  The divisibility check goes through the buffers in order and stops at the first that fails;
  an override of zero makes the remainder raise \<open>ZeroDivisionError\<close>.
\<close>

fun check_overrides :: "int \<Rightarrow> buffer_config list \<Rightarrow> unit res" where
  "check_overrides tpb [] = Inr ()"
| "check_overrides tpb (b # bs) =
     (case bc_tokens_per_block_override b of None \<Rightarrow> check_overrides tpb bs
      | Some v \<Rightarrow> guardR (v \<noteq> 0) ZeroDivisionError (assertR (tpb mod v = 0) (check_overrides tpb bs)))"

definition config_post_init :: "kv_cache_manager_config \<Rightarrow> kv_cache_manager_config res" where
  "config_post_init c =
     assertR (case cfg_cache_tiers c of [] \<Rightarrow> False | t # _ \<Rightarrow> tier t = GPU_MEM) (
     assertR (distinct (map layer_id (cfg_layers c))) (
     bindR (check_overrides (cfg_tokens_per_block c) (concat (map buffers (cfg_layers c)))) (\<lambda>_.
       if list_ex is_ssm_layer (cfg_layers c)
       then assertR (cfg_commit_min_snapshot c) (Inr c) else Inr c)))"

section \<open>Life cycles\<close>

datatype life_cycle =
    AttnLifeCycle (window_size: "int option") (num_sink_blocks: int)
  | SsmLifeCycle

definition attn_make :: "int option \<Rightarrow> int option \<Rightarrow> int \<Rightarrow> life_cycle res" where
  "attn_make window num_sink tokens_per_block =
     assertR (0 < tokens_per_block) (
     assertR (case window of None \<Rightarrow> True | Some w \<Rightarrow> 0 < w) (
     assertR (case num_sink of None \<Rightarrow> True | Some n \<Rightarrow> 0 \<le> n) (
     assertR (num_sink = None \<or> num_sink = Some 0 \<or> window \<noteq> None) (
       Inr (AttnLifeCycle window (div_up (case num_sink of None \<Rightarrow> 0 | Some n \<Rightarrow> n) tokens_per_block))))))"

fun get_stale_range :: "life_cycle \<Rightarrow> int \<Rightarrow> int \<Rightarrow> half_open_range" where
  "get_stale_range (AttnLifeCycle window num_sink) history_length tokens_per_block =
     (let num_blocks = div_up history_length tokens_per_block;
          start = min num_blocks num_sink
      in case window of None \<Rightarrow> (start, start)
         | Some w \<Rightarrow> (start, max start ((history_length + 1 - w) div tokens_per_block)))"
| "get_stale_range SsmLifeCycle history_length tokens_per_block =
     (0, history_length div tokens_per_block)"

fun make_life_cycle :: "layer_config \<Rightarrow> int \<Rightarrow> life_cycle res" where
  "make_life_cycle (SsmLayerConfig i bs) tokens_per_block = Inr SsmLifeCycle"
| "make_life_cycle (AttentionLayerConfig i bs w s) tokens_per_block = attn_make w s tokens_per_block"

record life_cycle_registry =
  lcr_list :: "life_cycle list"
  lcr_id_dict :: "(life_cycle \<times> nat) list"

fun registry_add_layers :: "int \<Rightarrow> layer_config list \<Rightarrow> life_cycle_registry \<Rightarrow> life_cycle_registry res" where
  "registry_add_layers tpb [] r = Inr r"
| "registry_add_layers tpb (l # ls) r =
     bindR (make_life_cycle l tpb) (\<lambda>details.
       if map_of (lcr_id_dict r) details = None
       then assertR (length (lcr_id_dict r) = length (lcr_list r)) (
              let lst = lcr_list r @ [details]
              in registry_add_layers tpb ls
                   (r\<lparr>lcr_list := lst, lcr_id_dict := dict_set details (length lst - 1) (lcr_id_dict r)\<rparr>))
       else registry_add_layers tpb ls r)"

definition registry_init :: "kv_cache_manager_config \<Rightarrow> life_cycle_registry res" where
  "registry_init c = registry_add_layers (cfg_tokens_per_block c) (cfg_layers c) \<lparr>lcr_list = [], lcr_id_dict = []\<rparr>"

definition get_life_cycle :: "life_cycle_registry \<Rightarrow> nat \<Rightarrow> life_cycle res" where
  "get_life_cycle r i = list_get (lcr_list r) i"

definition get_id :: "life_cycle_registry \<Rightarrow> life_cycle \<Rightarrow> nat res" where
  "get_id r lc = (case map_of (lcr_id_dict r) lc of None \<Rightarrow> Inl KeyError | Some i \<Rightarrow> Inr i)"

definition registry_size :: "life_cycle_registry \<Rightarrow> nat res" where
  "registry_size r = assertR (length (lcr_list r) = length (lcr_id_dict r)) (Inr (length (lcr_list r)))"

definition registry_items :: "life_cycle_registry \<Rightarrow> (nat \<times> life_cycle) list" where
  "registry_items r = enumerate 0 (lcr_list r)"

definition registry_contains :: "life_cycle_registry \<Rightarrow> life_cycle \<Rightarrow> bool" where
  "registry_contains r lc \<longleftrightarrow> map_of (lcr_id_dict r) lc \<noteq> None"

definition ssm_life_cycle_id :: "life_cycle_registry \<Rightarrow> nat option" where
  "ssm_life_cycle_id r = map_of (lcr_id_dict r) SsmLifeCycle"

definition has_ssm :: "life_cycle_registry \<Rightarrow> bool" where
  "has_ssm r \<longleftrightarrow> map_of (lcr_id_dict r) SsmLifeCycle \<noteq> None"

definition attention_life_cycles :: "life_cycle_registry \<Rightarrow> (nat \<times> life_cycle) list" where
  "attention_life_cycles r = filter (\<lambda>(i, lc). lc \<noteq> SsmLifeCycle) (registry_items r)"

fun compute_scratch_range :: "life_cycle \<Rightarrow> int \<Rightarrow> int \<Rightarrow> int \<Rightarrow> int \<Rightarrow> half_open_range" where
  "compute_scratch_range (AttnLifeCycle (Some w) s) history_length capacity tokens_per_block max_rewind_len =
     (let non_rewindable_capacity = max 0 (capacity - max_rewind_len);
          cap_stale = get_stale_range (AttnLifeCycle (Some w) s) non_rewindable_capacity tokens_per_block;
          input_range = (div_up history_length tokens_per_block, div_up capacity tokens_per_block)
      in intersect cap_stale input_range)"
| "compute_scratch_range _ history_length capacity tokens_per_block max_rewind_len = (0, 0)"

section \<open>Which blocks are stale\<close>

lemma attn_make_sink_nonneg: "attn_make w s tpb = Inr lc \<Longrightarrow> 0 \<le> num_sink_blocks lc"
  by (auto simp: attn_make_def res_iffs div_up_nonneg split: option.splits)

text \<open>
  A block is stale for a sliding window exactly when it is not a sink block and all of its
  tokens lie before the window of the next token.
\<close>

lemma stale_contains_window:
  assumes tpb: "0 < tpb" and w: "0 < w" and s: "0 \<le> s"
  shows "range_contains (get_stale_range (AttnLifeCycle (Some w) s) h tpb) b
    \<longleftrightarrow> s \<le> b \<and> (b + 1) * tpb \<le> h + 1 - w"
proof -
  have key: "b < (h + 1 - w) div tpb \<longleftrightarrow> (b + 1) * tpb \<le> h + 1 - w"
    using le_div_iff [OF tpb, of "b + 1" "h + 1 - w"] by linarith
  have "(h + 1 - w) div tpb \<le> div_up h tpb"
    using zdiv_mono1 [of "h + 1 - w" h tpb] div_le_div_up [OF tpb, of h] tpb w by linarith
  then show ?thesis
    unfolding range_defs get_stale_range.simps Let_def using key by (auto simp: min_def max_def)
qed

lemma stale_contains_no_window:
  "\<not> range_contains (get_stale_range (AttnLifeCycle None s) h tpb) b"
  by (auto simp: range_defs Let_def)

lemma stale_contains_ssm:
  assumes "0 < tpb"
  shows "range_contains (get_stale_range SsmLifeCycle h tpb) b \<longleftrightarrow> 0 \<le> b \<and> (b + 1) * tpb \<le> h"
  using le_div_iff [OF assms, of "b + 1" h] by (auto simp: range_defs)

lemma scratch_contains:
  assumes tpb: "0 < tpb" and w: "0 < w" and s: "0 \<le> s"
  shows "range_contains (compute_scratch_range (AttnLifeCycle (Some w) s) h cap tpb mr) b
    \<longleftrightarrow> s \<le> b \<and> (b + 1) * tpb \<le> max 0 (cap - mr) + 1 - w \<and> h \<le> b * tpb \<and> b * tpb < cap"
  using stale_contains_window [OF assms, of "max 0 (cap - mr)" b]
    div_up_le_iff [OF tpb, of h b] less_div_up_iff [OF tpb, of b cap]
  unfolding compute_scratch_range.simps Let_def range_contains_intersect by (simp add: range_defs)

section \<open>The registry\<close>

text \<open>The ids are the positions in the list, and no life cycle has two of them.\<close>

definition registry_ok :: "life_cycle_registry \<Rightarrow> bool" where
  "registry_ok r \<longleftrightarrow> distinct (lcr_list r)
     \<and> lcr_id_dict r = zip (lcr_list r) [0..<length (lcr_list r)]"

lemma registry_ok_lookup:
  assumes "registry_ok r"
  shows "map_of (lcr_id_dict r) lc = Some i \<longleftrightarrow> i < length (lcr_list r) \<and> lcr_list r ! i = lc"
proof -
  let ?n = "length (lcr_list r)"
  have d: "dict_ok (lcr_id_dict r)" using assms by (simp add: registry_ok_def)
  have "map_of (lcr_id_dict r) lc = Some i \<longleftrightarrow> (lc, i) \<in> set (zip (lcr_list r) [0..<?n])"
    using map_of_eq_Some_iff [OF d] assms by (simp add: registry_ok_def)
  then show ?thesis by (auto simp: set_zip)
qed

lemma registry_ok_absent:
  assumes "registry_ok r"
  shows "map_of (lcr_id_dict r) lc = None \<longleftrightarrow> lc \<notin> set (lcr_list r)"
proof -
  have "dict_keys (lcr_id_dict r) = lcr_list r" using assms by (simp add: registry_ok_def)
  then show ?thesis using map_of_eq_None_iff [of "lcr_id_dict r" lc] by (metis list.set_map)
qed

lemma registry_add_ok:
  assumes ok: "registry_ok r" and new: "lc \<notin> set (lcr_list r)"
  shows "registry_ok (r\<lparr>lcr_list := lcr_list r @ [lc],
    lcr_id_dict := dict_set lc (length (lcr_list r @ [lc]) - 1) (lcr_id_dict r)\<rparr>)"
proof -
  have "lc \<notin> set (dict_keys (lcr_id_dict r))" using ok new by (simp add: registry_ok_def)
  then have "dict_set lc (length (lcr_list r)) (lcr_id_dict r) = lcr_id_dict r @ [(lc, length (lcr_list r))]"
    by (intro dict_set_new) simp
  then show ?thesis using ok new by (simp add: registry_ok_def)
qed

lemma registry_add_layers_spec:
  "registry_ok r \<Longrightarrow> mapR (\<lambda>l. make_life_cycle l tpb) ls = Inr lcs \<Longrightarrow>
    \<exists>r'. registry_add_layers tpb ls r = Inr r' \<and> registry_ok r' \<and> set (lcr_list r') = set (lcr_list r) \<union> set lcs"
proof (induction tpb ls r arbitrary: lcs rule: registry_add_layers.induct)
  case (1 tpb r)
  then show ?case by simp
next
  case (2 tpb l ls r)
  then obtain lc lcs' where lc: "make_life_cycle l tpb = Inr lc" "mapR (\<lambda>l. make_life_cycle l tpb) ls = Inr lcs'"
    "lcs = lc # lcs'" by (auto simp: res_iffs)
  show ?case
  proof (cases "lc \<in> set (lcr_list r)")
    case True
    then have pres: "map_of (lcr_id_dict r) lc \<noteq> None" using registry_ok_absent [OF 2(3)] by simp
    then show ?thesis using 2(2) [OF pres 2(3) lc(2)] lc True by auto
  next
    case False
    have abs: "map_of (lcr_id_dict r) lc = None" using registry_ok_absent [OF 2(3)] False by simp
    have len: "length (lcr_id_dict r) = length (lcr_list r)" using 2(3) by (simp add: registry_ok_def)
    show ?thesis
      using 2(1) [OF abs refl registry_add_ok [OF 2(3) False] lc(2)] lc abs len
      by (auto simp: Let_def)
  qed
qed

lemma registry_add_layers_error:
  "registry_ok r \<Longrightarrow> mapR (\<lambda>l. make_life_cycle l tpb) ls = Inl e \<Longrightarrow> registry_add_layers tpb ls r = Inl e"
proof (induction tpb ls r rule: registry_add_layers.induct)
  case (1 tpb r)
  then show ?case by simp
next
  case (2 tpb l ls r)
  show ?case
  proof (cases "make_life_cycle l tpb")
    case (Inl e')
    then show ?thesis using 2(4) by simp
  next
    case (Inr lc)
    then have e: "mapR (\<lambda>l. make_life_cycle l tpb) ls = Inl e" using 2(4) by (simp add: res_iffs)
    show ?thesis
    proof (cases "lc \<in> set (lcr_list r)")
      case True
      then have pres: "map_of (lcr_id_dict r) lc \<noteq> None" using registry_ok_absent [OF 2(3)] by simp
      then show ?thesis using 2(2) [OF pres 2(3) e] Inr by auto
    next
      case False
      have abs: "map_of (lcr_id_dict r) lc = None" using registry_ok_absent [OF 2(3)] False by simp
      have len: "length (lcr_id_dict r) = length (lcr_list r)" using 2(3) by (simp add: registry_ok_def)
      show ?thesis
        using 2(1) [OF abs refl registry_add_ok [OF 2(3) False] e] Inr abs len by (auto simp: Let_def)
    qed
  qed
qed

lemma registry_ok_empty: "registry_ok \<lparr>lcr_list = [], lcr_id_dict = []\<rparr>"
  by (simp add: registry_ok_def)

lemma registry_init_spec:
  assumes "mapR (\<lambda>l. make_life_cycle l (cfg_tokens_per_block c)) (cfg_layers c) = Inr lcs"
  obtains r where "registry_init c = Inr r" and "registry_ok r" and "set (lcr_list r) = set lcs"
  using registry_add_layers_spec [OF registry_ok_empty assms] that by (auto simp: registry_init_def)

lemma registry_ok_get_id:
  assumes "registry_ok r" and "lc \<in> set (lcr_list r)"
  shows "\<exists>i < length (lcr_list r). get_id r lc = Inr i \<and> lcr_list r ! i = lc"
proof -
  from assms(2) obtain i where "i < length (lcr_list r)" "lcr_list r ! i = lc" by (auto simp: in_set_conv_nth)
  then show ?thesis using registry_ok_lookup [OF assms(1), of lc i] by (auto simp: get_id_def)
qed

lemma registry_ok_get_id_iff:
  "registry_ok r \<Longrightarrow> get_id r lc = Inr i \<longleftrightarrow> i < length (lcr_list r) \<and> lcr_list r ! i = lc"
  using registry_ok_lookup [of r lc i] by (auto simp: get_id_def split: option.splits)

section \<open>Properties\<close>

text \<open>
  C32 The stale range of a layer is exact. For a sliding window, a block is stale when
  the sequence has \<open>h\<close> tokens of history exactly if it is not one of the sink blocks and none
  of its tokens is in the window of the next token, \<open>h + 1 - w .. h\<close>; with full attention no
  block is ever stale; for a state-space layer the stale blocks are those entirely inside the history.
\<close>

theorem stale_range_exact:
  assumes "make_life_cycle l tpb = Inr lc" and "0 < tpb"
  shows "range_contains (get_stale_range lc h tpb) b \<longleftrightarrow>
    (case lc of
       AttnLifeCycle (Some w) s \<Rightarrow> s \<le> b \<and> (\<forall>t. b * tpb \<le> t \<and> t < (b + 1) * tpb \<longrightarrow> t < h + 1 - w)
     | AttnLifeCycle None s \<Rightarrow> False
     | SsmLifeCycle \<Rightarrow> 0 \<le> b \<and> (\<forall>t. b * tpb \<le> t \<and> t < (b + 1) * tpb \<longrightarrow> t < h))"
proof -
  have tokens: "(\<forall>t. b * tpb \<le> t \<and> t < (b + 1) * tpb \<longrightarrow> t < x) \<longleftrightarrow> (b + 1) * tpb \<le> x" for x
  proof
    assume "\<forall>t. b * tpb \<le> t \<and> t < (b + 1) * tpb \<longrightarrow> t < x"
    from spec [OF this, of "(b + 1) * tpb - 1"] assms(2) show "(b + 1) * tpb \<le> x"
      by (simp add: algebra_simps)
  qed auto
  show ?thesis
  proof (cases l)
    case (SsmLayerConfig i bs)
    then show ?thesis using assms stale_contains_ssm [OF assms(2), of h b] tokens by simp
  next
    case (AttentionLayerConfig i bs win snk)
    then have m: "attn_make win snk tpb = Inr lc" using assms(1) by simp
    then obtain s where lc: "lc = AttnLifeCycle win s" "\<forall>w. win = Some w \<longrightarrow> 0 < w"
      by (auto simp: attn_make_def res_iffs split: option.splits)
    have s: "0 \<le> s" using attn_make_sink_nonneg [OF m] lc by simp
    show ?thesis
    proof (cases win)
      case None
      then show ?thesis using lc stale_contains_no_window by simp
    next
      case (Some w)
      then show ?thesis using lc stale_contains_window [OF assms(2) _ s, of w h b] tokens by simp
    qed
  qed
qed

theorem stale_range_exact_witness:
  "range_contains (get_stale_range (AttnLifeCycle (Some 100) 1) 300 32) 5
    \<and> \<not> range_contains (get_stale_range (AttnLifeCycle (Some 100) 1) 300 32) 6"
proof -
  have m: "make_life_cycle (AttentionLayerConfig 0 [] (Some 100) (Some 4)) 32 = Inr (AttnLifeCycle (Some 100) 1)"
    by code_simp
  have "\<exists>t. 6 * 32 \<le> t \<and> t < (6 + 1) * 32 \<and> \<not> t < 300 + 1 - (100::int)" by (intro exI [of _ 210]) simp
  then show ?thesis
    using stale_range_exact [OF m, of 300 5] stale_range_exact [OF m, of 300 6] by auto
qed

text \<open>
  C33 Scratch blocks are safe to share. A block that \<open>compute_scratch_range\<close> selects holds no
  token of the history, starts below the capacity, is no sink block, and each of its tokens stays outside the window
  even if up to \<open>max_rewind_len\<close> tokens at the end of the capacity are taken back; and every
  such block is selected.
\<close>

theorem scratch_range_exact:
  assumes "attn_make (Some w) snk tpb = Inr (AttnLifeCycle (Some w) s)" and "0 \<le> mr" and "mr \<le> cap"
  shows "range_contains (compute_scratch_range (AttnLifeCycle (Some w) s) h cap tpb mr) b \<longleftrightarrow>
    s \<le> b \<and> b * tpb < cap \<and>
    (\<forall>t. b * tpb \<le> t \<and> t < (b + 1) * tpb \<longrightarrow> h \<le> t \<and> (\<forall>k. 0 \<le> k \<and> k \<le> mr \<longrightarrow> t < (cap - k) + 1 - w))"
    (is "?L \<longleftrightarrow> s \<le> b \<and> b * tpb < cap \<and> ?T")
proof -
  have tpb: "0 < tpb" and w: "0 < w" using assms(1) by (auto simp: attn_make_def res_iffs)
  have s: "0 \<le> s" using attn_make_sink_nonneg [OF assms(1)] by simp
  have "?T \<longleftrightarrow> (b + 1) * tpb \<le> cap - mr + 1 - w \<and> h \<le> b * tpb"
  proof
    assume T: ?T
    from spec [OF T, of "(b + 1) * tpb - 1"] have "(b + 1) * tpb - 1 < (cap - mr) + 1 - w"
      using tpb assms(2) by (simp add: algebra_simps)
    moreover from spec [OF T, of "b * tpb"] have "h \<le> b * tpb" using tpb by (simp add: algebra_simps)
    ultimately show "(b + 1) * tpb \<le> cap - mr + 1 - w \<and> h \<le> b * tpb" by simp
  next
    assume r: "(b + 1) * tpb \<le> cap - mr + 1 - w \<and> h \<le> b * tpb"
    then show ?T by auto
  qed
  then show ?thesis using scratch_contains [OF tpb w s, of h cap mr b] assms(3) by auto
qed

theorem scratch_range_exact_witness:
  "range_contains (compute_scratch_range (AttnLifeCycle (Some 64) 0) 100 1000 32 5) 4
    \<and> \<not> range_contains (compute_scratch_range (AttnLifeCycle (Some 64) 0) 100 1000 32 5) 3"
proof -
  have m: "attn_make (Some 64) None 32 = Inr (AttnLifeCycle (Some 64) 0)" by code_simp
  have "\<not> (\<forall>t. 3 * 32 \<le> t \<and> t < (3 + 1) * 32 \<longrightarrow> 100 \<le> (t::int) \<and> (\<forall>k. 0 \<le> k \<and> k \<le> 5 \<longrightarrow> t < 1000 - k + 1 - 64))"
    by (auto intro!: exI [of _ 96])
  then show ?thesis
    using scratch_range_exact [OF m, of 5 1000 100 4] scratch_range_exact [OF m, of 5 1000 100 3] by auto
qed

text \<open>
  C37 The life-cycle registry numbers the life cycles of the layers: building it fails exactly with the first
  error of \<open>make_life_cycle\<close> on the layers; otherwise every layer's life cycle has an id, ids and life
  cycles correspond one to one and fill \<open>0 .. size - 1\<close>, and an unknown life cycle is a \<open>KeyError\<close>.
\<close>

theorem registry_one_to_one:
  "case mapR (\<lambda>l. make_life_cycle l (cfg_tokens_per_block c)) (cfg_layers c) of
     Inl e \<Rightarrow> registry_init c = Inl e
   | Inr lcs \<Rightarrow> \<exists>r n. registry_init c = Inr r \<and> registry_size r = Inr n
       \<and> (\<forall>lc i. get_id r lc = Inr i \<longleftrightarrow> get_life_cycle r i = Inr lc)
       \<and> (\<forall>lc. if lc \<in> set lcs then \<exists>i. i < n \<and> get_id r lc = Inr i else get_id r lc = Inl KeyError)
       \<and> (\<forall>i. i < n \<longleftrightarrow> (\<exists>lc. lc \<in> set lcs \<and> get_life_cycle r i = Inr lc))"
proof (cases "mapR (\<lambda>l. make_life_cycle l (cfg_tokens_per_block c)) (cfg_layers c)")
  case (Inl e)
  then show ?thesis using registry_add_layers_error [OF registry_ok_empty] by (simp add: registry_init_def)
next
  case (Inr lcs)
  obtain r where r: "registry_init c = Inr r" "registry_ok r" "set (lcr_list r) = set lcs"
    using registry_init_spec [OF Inr] .
  let ?n = "length (lcr_list r)"
  have sz: "registry_size r = Inr ?n" using r(2) by (simp add: registry_size_def registry_ok_def)
  have bij: "get_id r lc = Inr i \<longleftrightarrow> get_life_cycle r i = Inr lc" for lc i
    using registry_ok_get_id_iff [OF r(2), of lc i] by (auto simp: get_life_cycle_def)
  have known: "if lc \<in> set lcs then \<exists>i. i < ?n \<and> get_id r lc = Inr i else get_id r lc = Inl KeyError" for lc
  proof (cases "lc \<in> set lcs")
    case True
    then show ?thesis using registry_ok_get_id [OF r(2), of lc] r(3) by auto
  next
    case False
    then show ?thesis using registry_ok_absent [OF r(2), of lc] r(3) by (simp add: get_id_def)
  qed
  have filled: "i < ?n \<longleftrightarrow> (\<exists>lc. lc \<in> set lcs \<and> get_life_cycle r i = Inr lc)" for i
    unfolding get_life_cycle_def list_get_Inr_iff r(3) [symmetric] by (metis nth_mem)
  show ?thesis unfolding Inr sum.case using r(1) sz bij known filled by blast
qed

end
