(* ===== verification/KV_Storage_Config.thy ===== *)
theory KV_Storage_Config
  imports KV_Config
begin

text \<open>
  The layout of buffers in memory pools (\<^verbatim>\<open>_storage/_config.py\<close>). Buffers of one life cycle and one
  size are coalesced; a life cycle becomes a slot variant with one coalesced buffer per pool,
  and variants with the same list of slot sizes share a pool group. Python dictionaries are association lists
  in insertion order; \<open>Fraction\<close> is \<open>rat\<close>.
\<close>

section \<open>Data\<close>

record buffer_id =
  bid_layer_id :: int
  bid_role :: string

record coalesced_buffer =
  cb_single_buffer_size :: int
  cb_buffer_ids :: "buffer_id list"

definition cb_size :: "coalesced_buffer \<Rightarrow> int" where
  "cb_size cb = cb_single_buffer_size cb * int (length (cb_buffer_ids cb))"

definition cb_num_buffers :: "coalesced_buffer \<Rightarrow> nat" where
  "cb_num_buffers cb = length (cb_buffer_ids cb)"

record slot_desc_variant =
  sv_life_cycle_id :: nat
  sv_coalesced_buffers :: "coalesced_buffer list"

definition slot_desc_variant_make :: "nat \<Rightarrow> coalesced_buffer list \<Rightarrow> slot_desc_variant res" where
  "slot_desc_variant_make lc cbs =
     assertR (is_sorted cbs cb_size True) (Inr \<lparr>sv_life_cycle_id = lc, sv_coalesced_buffers = cbs\<rparr>)"

definition variant_slot_size_list :: "slot_desc_variant \<Rightarrow> int list" where
  "variant_slot_size_list v = map cb_size (sv_coalesced_buffers v)"

type_synonym slot_desc = "slot_desc_variant list"

definition slot_desc_slot_size_list :: "bool \<Rightarrow> slot_desc \<Rightarrow> int list res" where
  "slot_desc_slot_size_list ndebug d = get_uniform_attribute ndebug d variant_slot_size_list"

record buffer_attr =
  ba_life_cycle_id :: nat
  ba_pool_index :: nat
  ba_offset :: int
  ba_size :: int
  ba_expansion :: int

record layer_attr =
  la_life_cycle_id :: nat
  la_slot_util :: "nat list"
  la_slot_util_frac_max :: rat

record storage_config =
  sc_cache_tiers :: "cache_tier_config list"
  sc_slot_desc_list :: "slot_desc list"
  sc_expansion :: "(buffer_id \<times> int) list"

section \<open>Queries of a storage configuration\<close>

definition num_life_cycles :: "storage_config \<Rightarrow> nat" where
  "num_life_cycles sc = sum_list (map length (sc_slot_desc_list sc))"

fun grouping_variants :: "int \<Rightarrow> slot_desc_variant list \<Rightarrow> int list \<Rightarrow> int list res" where
  "grouping_variants pg [] ret = Inr ret"
| "grouping_variants pg (s # ss) ret =
     bindR (list_set ret (sv_life_cycle_id s) pg) (\<lambda>ret'. grouping_variants pg ss ret')"

fun grouping_groups :: "int \<Rightarrow> slot_desc list \<Rightarrow> int list \<Rightarrow> int list res" where
  "grouping_groups pg [] ret = Inr ret"
| "grouping_groups pg (d # ds) ret =
     bindR (grouping_variants pg d ret) (\<lambda>ret'. grouping_groups (pg + 1) ds ret')"

definition life_cycle_grouping :: "storage_config \<Rightarrow> int list res" where
  "life_cycle_grouping sc = grouping_groups 0 (sc_slot_desc_list sc) (replicate (num_life_cycles sc) (-1))"

type_synonym attr_dict = "(buffer_id \<times> buffer_attr) list"

fun attrs_buffers :: "(buffer_id \<times> int) list \<Rightarrow> nat \<Rightarrow> nat \<Rightarrow> int \<Rightarrow> int \<Rightarrow> buffer_id list \<Rightarrow> attr_dict \<Rightarrow> attr_dict" where
  "attrs_buffers ex lc pool sz offset [] ret = ret"
| "attrs_buffers ex lc pool sz offset (b # bs) ret =
     attrs_buffers ex lc pool sz (offset + sz) bs
       (dict_set b \<lparr>ba_life_cycle_id = lc, ba_pool_index = pool, ba_offset = offset, ba_size = sz,
          ba_expansion = (case map_of ex b of None \<Rightarrow> 1 | Some e \<Rightarrow> e)\<rparr> ret)"

fun attrs_pools :: "(buffer_id \<times> int) list \<Rightarrow> nat \<Rightarrow> nat \<Rightarrow> coalesced_buffer list \<Rightarrow> attr_dict \<Rightarrow> attr_dict" where
  "attrs_pools ex lc pool [] ret = ret"
| "attrs_pools ex lc pool (cb # cbs) ret =
     attrs_pools ex lc (pool + 1) cbs
       (attrs_buffers ex lc pool (cb_single_buffer_size cb) 0 (cb_buffer_ids cb) ret)"

definition buffer_attributes :: "storage_config \<Rightarrow> attr_dict" where
  "buffer_attributes sc =
     foldl (\<lambda>ret slot. attrs_pools (sc_expansion sc) (sv_life_cycle_id slot) 0 (sv_coalesced_buffers slot) ret)
       [] (concat (sc_slot_desc_list sc))"

fun page_indices_variants :: "slot_desc_variant list \<Rightarrow> nat list list \<Rightarrow> nat list list res" where
  "page_indices_variants [] ret = Inr ret"
| "page_indices_variants (s # ss) ret =
     bindR (list_set ret (sv_life_cycle_id s) (map cb_num_buffers (sv_coalesced_buffers s)))
       (\<lambda>ret'. page_indices_variants ss ret')"

definition slot_to_page_indices :: "storage_config \<Rightarrow> nat list list res" where
  "slot_to_page_indices sc =
     page_indices_variants (concat (sc_slot_desc_list sc)) (replicate (num_life_cycles sc) [])"

text \<open>The counts per layer inside one coalesced buffer, in the order of first appearance.\<close>

definition slot_util_counts :: "buffer_id list \<Rightarrow> (int \<times> nat) list" where
  "slot_util_counts bs =
     foldl (\<lambda>d b. dict_set (bid_layer_id b) ((case map_of d (bid_layer_id b) of None \<Rightarrow> 0 | Some n \<Rightarrow> n) + 1) d) [] bs"

type_synonym layer_dict = "(int \<times> layer_attr) list"

fun layer_attrs_counts :: "nat \<Rightarrow> nat \<Rightarrow> nat \<Rightarrow> nat \<Rightarrow> (int \<times> nat) list \<Rightarrow> layer_dict \<Rightarrow> layer_dict res" where
  "layer_attrs_counts lc num_pools pool per_slot [] ret = Inr ret"
| "layer_attrs_counts lc num_pools pool per_slot ((lid, cnt) # cs) ret =
     (let attr = (case map_of ret lid of
             None \<Rightarrow> \<lparr>la_life_cycle_id = lc, la_slot_util = replicate num_pools 0, la_slot_util_frac_max = 0\<rparr>
           | Some a \<Rightarrow> a)
      in assertR (la_life_cycle_id attr = lc) (
         bindR (list_set (la_slot_util attr) pool cnt) (\<lambda>util.
           layer_attrs_counts lc num_pools pool per_slot cs
             (dict_set lid (attr\<lparr>la_slot_util := util,
                la_slot_util_frac_max := max (la_slot_util_frac_max attr) (of_nat cnt / of_nat per_slot)\<rparr>) ret))))"

fun layer_attrs_pools :: "nat \<Rightarrow> nat \<Rightarrow> nat \<Rightarrow> coalesced_buffer list \<Rightarrow> layer_dict \<Rightarrow> layer_dict res" where
  "layer_attrs_pools lc num_pools pool [] ret = Inr ret"
| "layer_attrs_pools lc num_pools pool (cb # cbs) ret =
     bindR (layer_attrs_counts lc num_pools pool (cb_num_buffers cb) (slot_util_counts (cb_buffer_ids cb)) ret)
       (\<lambda>ret'. layer_attrs_pools lc num_pools (pool + 1) cbs ret')"

fun layer_attrs_variants :: "slot_desc_variant list \<Rightarrow> layer_dict \<Rightarrow> layer_dict res" where
  "layer_attrs_variants [] ret = Inr ret"
| "layer_attrs_variants (s # ss) ret =
     bindR (layer_attrs_pools (sv_life_cycle_id s) (length (sv_coalesced_buffers s)) 0 (sv_coalesced_buffers s) ret)
       (\<lambda>ret'. layer_attrs_variants ss ret')"

definition layer_attributes :: "storage_config \<Rightarrow> layer_dict res" where
  "layer_attributes sc = layer_attrs_variants (concat (sc_slot_desc_list sc)) []"

fun layer_ids_loop :: "attr_dict \<Rightarrow> (int \<times> nat) list \<Rightarrow> (int \<times> nat) list res" where
  "layer_ids_loop [] m = Inr m"
| "layer_ids_loop ((b, attr) # as) m =
     (let m' = (case map_of m (bid_layer_id b) of
                  None \<Rightarrow> dict_set (bid_layer_id b) (ba_life_cycle_id attr) m | Some _ \<Rightarrow> m)
      in assertR (map_of m' (bid_layer_id b) = Some (ba_life_cycle_id attr)) (layer_ids_loop as m'))"

definition layer_to_life_cycle_ids :: "storage_config \<Rightarrow> (int \<times> nat) list res" where
  "layer_to_life_cycle_ids sc = layer_ids_loop (buffer_attributes sc) []"

definition storage_config_post_init :: "storage_config \<Rightarrow> storage_config res" where
  "storage_config_post_init sc =
     assertR (distinct (map sv_life_cycle_id (concat (sc_slot_desc_list sc)))) (Inr sc)"

section \<open>Creation\<close>

type_synonym size_groups = "(int \<times> buffer_id list) list"
type_synonym buffer_groups = "(nat \<times> size_groups) list"

fun group_buffers :: "int \<Rightarrow> int \<Rightarrow> buffer_config list \<Rightarrow> size_groups \<Rightarrow> (buffer_id \<times> int) list
    \<Rightarrow> (size_groups \<times> (buffer_id \<times> int) list) res" where
  "group_buffers tpb lid [] groups ex = Inr (groups, ex)"
| "group_buffers tpb lid (b # bs) groups ex =
     (let tpb_override = (case bc_tokens_per_block_override b of None \<Rightarrow> tpb | Some v \<Rightarrow> v)
      in bindR (exact_div tpb tpb_override) (\<lambda>expansion.
         let sz = bc_size b * expansion;
             buf_id = \<lparr>bid_layer_id = lid, bid_role = bc_role b\<rparr>
         in group_buffers tpb lid bs (dict_append sz buf_id groups) (dict_set buf_id expansion ex)))"

fun group_layers :: "int \<Rightarrow> life_cycle_registry \<Rightarrow> layer_config list \<Rightarrow> buffer_groups \<Rightarrow> (buffer_id \<times> int) list
    \<Rightarrow> (buffer_groups \<times> (buffer_id \<times> int) list) res" where
  "group_layers tpb reg [] groups ex = Inr (groups, ex)"
| "group_layers tpb reg (l # ls) groups ex =
     bindR (make_life_cycle l tpb) (\<lambda>lc.
     bindR (get_id reg lc) (\<lambda>lc_id.
     bindR (group_buffers tpb (layer_id l) (buffers l)
              (case map_of groups lc_id of None \<Rightarrow> [] | Some g \<Rightarrow> g) ex) (\<lambda>(g', ex').
       group_layers tpb reg ls (dict_set lc_id g' groups) ex')))"

definition coalesce :: "size_groups \<Rightarrow> coalesced_buffer list" where
  "coalesce groups =
     sort_key (\<lambda>p. - cb_size p)
       (map (\<lambda>(sz, ids). \<lparr>cb_single_buffer_size = sz, cb_buffer_ids = ids\<rparr>) groups)"

definition create_storage_config :: "kv_cache_manager_config \<Rightarrow> storage_config res" where
  "create_storage_config config =
     bindR (registry_init config) (\<lambda>reg.
     bindR (group_layers (cfg_tokens_per_block config) reg (cfg_layers config) [] []) (\<lambda>(groups, ex).
     bindR (mapR (\<lambda>(lc_id, g). slot_desc_variant_make lc_id (coalesce g)) groups) (\<lambda>slot_groups.
       storage_config_post_init
         \<lparr>sc_cache_tiers = cfg_cache_tiers config,
          sc_slot_desc_list = map snd (partition_by slot_groups variant_slot_size_list),
          sc_expansion = ex\<rparr>)))"

section \<open>What grouping does\<close>

text \<open>
  The buffers of a layer with their expanded sizes, and of all layers with the ids of the life
  cycles: what the configuration asks to be placed.
\<close>

definition expanded_size :: "int \<Rightarrow> buffer_config \<Rightarrow> int" where
  "expanded_size tpb b =
     bc_size b * (tpb div (case bc_tokens_per_block_override b of None \<Rightarrow> tpb | Some v \<Rightarrow> v))"

definition layer_demand :: "int \<Rightarrow> layer_config \<Rightarrow> (int \<times> buffer_id) list" where
  "layer_demand tpb l =
     map (\<lambda>b. (expanded_size tpb b, \<lparr>bid_layer_id = layer_id l, bid_role = bc_role b\<rparr>)) (buffers l)"

definition config_demand :: "int \<Rightarrow> (layer_config \<Rightarrow> nat) \<Rightarrow> layer_config list \<Rightarrow> (nat \<times> int \<times> buffer_id) list" where
  "config_demand tpb lcid ls = concat (map (\<lambda>l. map (Pair (lcid l)) (layer_demand tpb l)) ls)"

text \<open>What a dictionary of size groups, of buffer groups, and a storage configuration hold.\<close>

abbreviation size_groups_content :: "size_groups \<Rightarrow> (int \<times> buffer_id) list" where
  "size_groups_content g \<equiv> concat (map (\<lambda>(sz, ids). map (Pair sz) ids) g)"

abbreviation buffer_groups_content :: "buffer_groups \<Rightarrow> (nat \<times> int \<times> buffer_id) list" where
  "buffer_groups_content g \<equiv> concat (map (\<lambda>(lc, sg). map (Pair lc) (size_groups_content sg)) g)"

definition variant_content :: "slot_desc_variant \<Rightarrow> (nat \<times> int \<times> buffer_id) list" where
  "variant_content v =
     concat (map (\<lambda>cb. map (\<lambda>b. (sv_life_cycle_id v, cb_single_buffer_size cb, b)) (cb_buffer_ids cb))
       (sv_coalesced_buffers v))"

definition storage_content :: "storage_config \<Rightarrow> (nat \<times> int \<times> buffer_id) list" where
  "storage_content sc = concat (map variant_content (concat (sc_slot_desc_list sc)))"

lemma check_overrides_iff:
  "check_overrides tpb bs = Inr () \<longleftrightarrow>
     (\<forall>b \<in> set bs. case bc_tokens_per_block_override b of None \<Rightarrow> True | Some v \<Rightarrow> v \<noteq> 0 \<and> tpb mod v = 0)"
  by (induction tpb bs rule: check_overrides.induct) (auto simp: res_iffs split: option.splits)

lemma group_buffers_spec:
  "check_overrides tpb bs = Inr () \<Longrightarrow> tpb \<noteq> 0 \<Longrightarrow>
    \<exists>g' ex'. group_buffers tpb (layer_id l) bs g ex = Inr (g', ex')
      \<and> mset (size_groups_content g') = mset (size_groups_content g)
          + mset (map (\<lambda>b. (expanded_size tpb b, \<lparr>bid_layer_id = layer_id l, bid_role = bc_role b\<rparr>)) bs)"
proof (induction bs arbitrary: g ex)
  case Nil
  then show ?case by simp
next
  case (Cons b bs)
  let ?o = "case bc_tokens_per_block_override b of None \<Rightarrow> tpb | Some v \<Rightarrow> v"
  let ?bid = "\<lparr>bid_layer_id = layer_id l, bid_role = bc_role b\<rparr>"
  let ?g = "dict_append (expanded_size tpb b) ?bid g" and ?ex = "dict_set ?bid (tpb div ?o) ex"
  have div: "exact_div tpb ?o = Inr (tpb div ?o)" and bs: "check_overrides tpb bs = Inr ()"
    using Cons.prems by (auto simp: exact_div_def res_iffs split: option.splits)
  have step: "group_buffers tpb (layer_id l) (b # bs) g ex = group_buffers tpb (layer_id l) bs ?g ?ex"
    using div by (simp add: expanded_size_def Let_def)
  from Cons.IH [OF bs Cons.prems(2), of ?g ?ex] show ?case
    unfolding step using dict_append_mset [of Pair "expanded_size tpb b" ?bid g] by auto
qed

lemma buffer_groups_content_set:
  "mset (buffer_groups_content (dict_set lc g' d)) + mset (map (Pair lc) (size_groups_content (dget d lc)))
    = mset (buffer_groups_content d) + mset (map (Pair lc) (size_groups_content g'))"
  using dict_set_sum [of "\<lambda>lc sg. mset (map (Pair lc) (size_groups_content sg))" lc g' d]
  by (auto simp: mset_concat comp_def case_prod_unfold split: option.splits)

text \<open>
  \<open>layer_ids reg tpb lcid ls\<close>: every layer has a life cycle, known to the registry under the id
  that \<open>lcid\<close> gives, and its overrides divide the tokens per block.
\<close>

definition layer_ids :: "life_cycle_registry \<Rightarrow> int \<Rightarrow> (layer_config \<Rightarrow> nat) \<Rightarrow> layer_config list \<Rightarrow> bool" where
  "layer_ids reg tpb lcid ls \<longleftrightarrow> (\<forall>l \<in> set ls.
     (\<exists>lc. make_life_cycle l tpb = Inr lc \<and> get_id reg lc = Inr (lcid l))
     \<and> check_overrides tpb (buffers l) = Inr ())"

lemma group_layers_spec:
  "layer_ids reg tpb lcid ls \<Longrightarrow> tpb \<noteq> 0 \<Longrightarrow> dict_ok g \<Longrightarrow>
    \<exists>g' ex'. group_layers tpb reg ls g ex = Inr (g', ex') \<and> dict_ok g'
      \<and> set (dict_keys g') = set (dict_keys g) \<union> lcid ` set ls
      \<and> mset (buffer_groups_content g') = mset (buffer_groups_content g) + mset (config_demand tpb lcid ls)"
proof (induction ls arbitrary: g ex)
  case Nil
  then show ?case by (simp add: config_demand_def)
next
  case (Cons l ls)
  from Cons.prems(1) obtain lc where lc: "make_life_cycle l tpb = Inr lc" "get_id reg lc = Inr (lcid l)"
    "check_overrides tpb (buffers l) = Inr ()" and ls: "layer_ids reg tpb lcid ls"
    by (auto simp: layer_ids_def)
  obtain sg ex1 where sg: "group_buffers tpb (layer_id l) (buffers l) (dget g (lcid l)) ex = Inr (sg, ex1)"
    "mset (size_groups_content sg) = mset (size_groups_content (dget g (lcid l))) + mset (layer_demand tpb l)"
    using group_buffers_spec [OF lc(3) Cons.prems(2), of l "dget g (lcid l)" ex]
    unfolding layer_demand_def by blast
  let ?g = "dict_set (lcid l) sg g"
  have "dict_ok ?g" using Cons.prems(3) by simp
  from Cons.IH [OF ls Cons.prems(2) this, of ex1] obtain g' ex' where
    g': "group_layers tpb reg ls ?g ex1 = Inr (g', ex')" "dict_ok g'"
      "set (dict_keys g') = set (dict_keys ?g) \<union> lcid ` set ls"
      "mset (buffer_groups_content g') = mset (buffer_groups_content ?g) + mset (config_demand tpb lcid ls)"
    by blast
  have "mset (map (Pair (lcid l)) (size_groups_content sg))
    = mset (map (Pair (lcid l)) (size_groups_content (dget g (lcid l)))) + mset (map (Pair (lcid l)) (layer_demand tpb l))"
    unfolding mset_map sg(2) by simp
  then have "mset (buffer_groups_content ?g) = mset (buffer_groups_content g) + mset (map (Pair (lcid l)) (layer_demand tpb l))"
    using buffer_groups_content_set [of "lcid l" sg g] by simp
  moreover have "group_layers tpb reg (l # ls) g ex = Inr (g', ex')" using lc sg(1) g'(1) by simp
  ultimately show ?case using g' by (intro exI [of _ g'] exI [of _ ex']) (simp add: config_demand_def)
qed

lemma mset_concat_map_sort_key: "mset (concat (map h (sort_key k xs))) = mset (concat (map h xs))"
proof -
  have "mset (concat (map h ys)) = sum_mset (image_mset (mset \<circ> h) (mset ys))" for ys
    by (simp add: mset_concat sum_mset_sum_list [symmetric] multiset.map_comp)
  then show ?thesis by simp
qed

lemma variant_content_coalesce:
  "mset (variant_content \<lparr>sv_life_cycle_id = lc, sv_coalesced_buffers = coalesce g\<rparr>)
    = mset (map (Pair lc) (size_groups_content g))"
  unfolding variant_content_def coalesce_def slot_desc_variant.simps mset_concat_map_sort_key
  by (simp add: map_concat comp_def case_prod_unfold)

lemma coalesce_sorted: "is_sorted (coalesce g) cb_size True"
proof -
  have "sorted (map (\<lambda>p. - cb_size p) (coalesce g))" by (simp add: coalesce_def)
  then show ?thesis by (simp add: is_sorted_iff sorted_map)
qed

definition make_variants :: "buffer_groups \<Rightarrow> slot_desc_variant list" where
  "make_variants g = map (\<lambda>(lc, sg). \<lparr>sv_life_cycle_id = lc, sv_coalesced_buffers = coalesce sg\<rparr>) g"

lemma mapR_make_variants:
  "mapR (\<lambda>(lc_id, g). slot_desc_variant_make lc_id (coalesce g)) groups = Inr (make_variants groups)"
  unfolding make_variants_def
  by (intro mapR_Inr_map) (auto simp: slot_desc_variant_make_def coalesce_sorted)

lemma make_variants_ids: "map sv_life_cycle_id (make_variants g) = dict_keys g"
  by (auto simp: make_variants_def)

lemma make_variants_content:
  "mset (concat (map variant_content (make_variants g))) = mset (buffer_groups_content g)"
  by (induction g) (auto simp: make_variants_def variant_content_coalesce)

text \<open>A configuration that passes its own checks and whose layers have life cycles.\<close>

definition config_ok :: "kv_cache_manager_config \<Rightarrow> bool" where
  "config_ok c \<longleftrightarrow> config_post_init c = Inr c \<and> 0 < cfg_tokens_per_block c
     \<and> list_all (\<lambda>l. layer_post_init l = Inr l) (cfg_layers c)
     \<and> (case mapR (\<lambda>l. make_life_cycle l (cfg_tokens_per_block c)) (cfg_layers c) of Inl _ \<Rightarrow> False | Inr _ \<Rightarrow> True)"

text \<open>The id of the life cycle of a layer.\<close>

definition layer_lc_id :: "kv_cache_manager_config \<Rightarrow> layer_config \<Rightarrow> nat" where
  "layer_lc_id c l =
     (case bindR (registry_init c) (\<lambda>r. bindR (make_life_cycle l (cfg_tokens_per_block c)) (get_id r)) of
        Inl _ \<Rightarrow> 0 | Inr i \<Rightarrow> i)"

lemma mapR_Inr_elem: "mapR f xs = Inr ys \<Longrightarrow> x \<in> set xs \<Longrightarrow> \<exists>y \<in> set ys. f x = Inr y"
  by (induction xs arbitrary: ys) (auto simp: res_iffs)

lemma mapR_Inr_elem2: "mapR f xs = Inr ys \<Longrightarrow> y \<in> set ys \<Longrightarrow> \<exists>x \<in> set xs. f x = Inr y"
  by (induction xs arbitrary: ys) (auto simp: res_iffs)

lemma config_ok_layer_ids:
  assumes "config_ok c"
  obtains r where "registry_init c = Inr r" and "registry_ok r"
    and "layer_ids r (cfg_tokens_per_block c) (layer_lc_id c) (cfg_layers c)"
    and "layer_lc_id c ` set (cfg_layers c) = {..<length (lcr_list r)}"
proof -
  let ?tpb = "cfg_tokens_per_block c" and ?ls = "cfg_layers c"
  obtain lcs where lcs: "mapR (\<lambda>l. make_life_cycle l ?tpb) ?ls = Inr lcs"
    using assms by (auto simp: config_ok_def split: sum.splits)
  obtain r where r: "registry_init c = Inr r" "registry_ok r" "set (lcr_list r) = set lcs"
    using registry_init_spec [OF lcs] .
  have id: "\<exists>lc i. make_life_cycle l ?tpb = Inr lc \<and> get_id r lc = Inr i \<and> layer_lc_id c l = i
    \<and> i < length (lcr_list r) \<and> lcr_list r ! i = lc" if "l \<in> set ?ls" for l
  proof -
    obtain lc where lc: "lc \<in> set lcs" "make_life_cycle l ?tpb = Inr lc" using mapR_Inr_elem [OF lcs \<open>l \<in> set ?ls\<close>] by auto
    then obtain i where "i < length (lcr_list r)" "get_id r lc = Inr i" "lcr_list r ! i = lc"
      using registry_ok_get_id [OF r(2)] r(3) by blast
    then show ?thesis using lc(2) r(1) by (simp add: layer_lc_id_def)
  qed
  have "check_overrides ?tpb (concat (map buffers ?ls)) = Inr ()"
    using assms by (auto simp: config_ok_def config_post_init_def res_iffs)
  then have "\<forall>l \<in> set ?ls. check_overrides ?tpb (buffers l) = Inr ()"
    by (auto simp: check_overrides_iff)
  moreover have "\<forall>l \<in> set ?ls. \<exists>lc. make_life_cycle l ?tpb = Inr lc \<and> get_id r lc = Inr (layer_lc_id c l)"
    using id by blast
  ultimately have 1: "layer_ids r ?tpb (layer_lc_id c) ?ls" by (simp add: layer_ids_def)
  have "i \<in> layer_lc_id c ` set ?ls" if i: "i < length (lcr_list r)" for i
  proof -
    have "lcr_list r ! i \<in> set lcs" using i r(3) nth_mem by blast
    from mapR_Inr_elem2 [OF lcs this] obtain l where l: "l \<in> set ?ls" "make_life_cycle l ?tpb = Inr (lcr_list r ! i)" by auto
    with id [OF l(1)] have "lcr_list r ! layer_lc_id c l = lcr_list r ! i" "layer_lc_id c l < length (lcr_list r)" by auto
    then have "layer_lc_id c l = i" using r(2) i nth_eq_iff_index_eq by (auto simp: registry_ok_def)
    then show ?thesis using l(1) by blast
  qed
  then have "layer_lc_id c ` set ?ls = {..<length (lcr_list r)}" using id by force
  with r 1 show ?thesis by (intro that)
qed

lemma create_spec:
  assumes "config_ok c"
  obtains sc r g where "create_storage_config c = Inr sc" and "registry_init c = Inr r" and "registry_ok r"
    and "sc_slot_desc_list sc = map snd (partition_by (make_variants g) variant_slot_size_list)"
    and "dict_ok g" and "set (dict_keys g) = {..<length (lcr_list r)}"
    and "mset (buffer_groups_content g) = mset (config_demand (cfg_tokens_per_block c) (layer_lc_id c) (cfg_layers c))"
proof -
  obtain r where r: "registry_init c = Inr r" "registry_ok r"
    "layer_ids r (cfg_tokens_per_block c) (layer_lc_id c) (cfg_layers c)"
    "layer_lc_id c ` set (cfg_layers c) = {..<length (lcr_list r)}"
    using config_ok_layer_ids [OF assms] .
  have "cfg_tokens_per_block c \<noteq> 0" using assms by (auto simp: config_ok_def)
  then obtain g ex where g: "group_layers (cfg_tokens_per_block c) r (cfg_layers c) [] [] = Inr (g, ex)"
    "dict_ok g" "set (dict_keys g) = {..<length (lcr_list r)}"
    "mset (buffer_groups_content g) = mset (config_demand (cfg_tokens_per_block c) (layer_lc_id c) (cfg_layers c))"
    using group_layers_spec [OF r(3), of "[]" "[]"] r(4) by auto
  let ?vs = "map snd (partition_by (make_variants g) variant_slot_size_list)"
  have "mset (map sv_life_cycle_id (concat ?vs)) = mset (dict_keys g)"
    unfolding mset_map partition_by_mset make_variants_ids [symmetric] ..
  then have "distinct (map sv_life_cycle_id (concat ?vs))"
    using g(2) mset_eq_imp_distinct_iff by blast
  then have "create_storage_config c = Inr \<lparr>sc_cache_tiers = cfg_cache_tiers c, sc_slot_desc_list = ?vs, sc_expansion = ex\<rparr>"
    using r(1) g(1) mapR_make_variants [of g]
    by (simp add: create_storage_config_def storage_config_post_init_def)
  then show ?thesis using r(1,2) g by (intro that) auto
qed

lemma demand_distinct:
  "distinct (map layer_id ls) \<Longrightarrow> \<forall>l \<in> set ls. distinct (map bc_role (buffers l)) \<Longrightarrow>
    distinct (map (\<lambda>(lc, sz, b). b) (config_demand tpb lcid ls))"
proof (induction ls)
  case Nil
  then show ?case by (simp add: config_demand_def)
next
  case (Cons l ls)
  have "map (\<lambda>(lc, sz, b). b) (config_demand tpb lcid (l # ls)) =
    map (\<lambda>r. \<lparr>bid_layer_id = layer_id l, bid_role = r\<rparr>) (map bc_role (buffers l))
    @ map (\<lambda>(lc, sz, b). b) (config_demand tpb lcid ls)"
    by (simp add: config_demand_def layer_demand_def)
  moreover have "distinct (map (\<lambda>r. \<lparr>bid_layer_id = layer_id l, bid_role = r\<rparr>) (map bc_role (buffers l)))"
    unfolding distinct_map using Cons.prems(2) by (auto simp: inj_on_def distinct_map)
  moreover have "bid_layer_id b \<in> layer_id ` set ls" if "b \<in> set (map (\<lambda>(lc, sz, b). b) (config_demand tpb lcid ls))" for b
    using that by (auto simp: config_demand_def layer_demand_def)
  ultimately show ?case using Cons by fastforce
qed

lemma layer_post_init_distinct: "layer_post_init l = Inr l \<Longrightarrow> distinct (map bc_role (buffers l))"
  by (cases l) (auto simp: res_iffs)

lemma config_ok_distinct:
  assumes "config_ok c"
  shows "distinct (map (\<lambda>(lc, sz, b). b) (config_demand tpb lcid (cfg_layers c)))"
  using assms layer_post_init_distinct
  by (intro demand_distinct) (auto simp: config_ok_def config_post_init_def res_iffs list_all_iff)

lemma storage_content_spec:
  assumes "config_ok c" and "create_storage_config c = Inr sc"
  shows "mset (storage_content sc) = mset (config_demand (cfg_tokens_per_block c) (layer_lc_id c) (cfg_layers c))"
    and "distinct (map (\<lambda>(lc, sz, b). b) (storage_content sc))"
proof -
  let ?D = "config_demand (cfg_tokens_per_block c) (layer_lc_id c) (cfg_layers c)"
  obtain sc' r g where "create_storage_config c = Inr sc'" "registry_init c = Inr r" "registry_ok r"
    and g': "sc_slot_desc_list sc' = map snd (partition_by (make_variants g) variant_slot_size_list)"
    and "dict_ok g" "set (dict_keys g) = {..<length (lcr_list r)}"
    and g2: "mset (buffer_groups_content g) = mset ?D"
    by (rule create_spec [OF assms(1)])
  then have g1: "sc_slot_desc_list sc = map snd (partition_by (make_variants g) variant_slot_size_list)"
    using assms(2) by simp
  note g = g1 g2
  have "mset (concat (map h xs)) = sum_mset (image_mset (mset \<circ> h) (mset xs))" for h :: "'x \<Rightarrow> 'y list" and xs
    by (simp add: mset_concat sum_mset_sum_list [symmetric] multiset.map_comp)
  then show eq: "mset (storage_content sc) = mset ?D"
    unfolding storage_content_def g(1) g(2) [symmetric] make_variants_content [symmetric]
    using partition_by_mset [of "make_variants g" variant_slot_size_list] by metis
  then have "mset (map (\<lambda>(lc, sz, b). b) (storage_content sc)) = mset (map (\<lambda>(lc, sz, b). b) ?D)"
    unfolding mset_map by simp
  then show "distinct (map (\<lambda>(lc, sz, b). b) (storage_content sc))"
    using config_ok_distinct [OF assms(1)] mset_eq_imp_distinct_iff by blast
qed

section \<open>Grouping by pool\<close>

lemma grouping_variants_spec:
  "\<forall>v \<in> set vs. sv_life_cycle_id v < length ret \<Longrightarrow>
    \<exists>ret'. grouping_variants pg vs ret = Inr ret' \<and> length ret' = length ret
      \<and> (\<forall>j < length ret. ret' ! j = (if j \<in> sv_life_cycle_id ` set vs then pg else ret ! j))"
proof (induction vs arbitrary: ret)
  case Nil
  then show ?case by simp
next
  case (Cons v vs)
  then show ?case using Cons.IH [of "ret[sv_life_cycle_id v := pg]"] by (auto simp: nth_list_update)
qed

lemma grouping_groups_spec:
  "\<forall>v \<in> set (concat ds). sv_life_cycle_id v < length ret \<Longrightarrow> distinct (map sv_life_cycle_id (concat ds)) \<Longrightarrow>
    \<exists>ret'. grouping_groups pg ds ret = Inr ret' \<and> length ret' = length ret
      \<and> (\<forall>j < length ret. j \<notin> sv_life_cycle_id ` set (concat ds) \<longrightarrow> ret' ! j = ret ! j)
      \<and> (\<forall>i < length ds. \<forall>v \<in> set (ds ! i). ret' ! sv_life_cycle_id v = pg + int i)"
proof (induction ds arbitrary: pg ret)
  case Nil
  then show ?case by simp
next
  case (Cons d ds)
  obtain ret1 where r1: "grouping_variants pg d ret = Inr ret1" "length ret1 = length ret"
    "\<forall>j < length ret. ret1 ! j = (if j \<in> sv_life_cycle_id ` set d then pg else ret ! j)"
    using grouping_variants_spec [of d ret pg] Cons.prems(1) by auto
  have "\<forall>v \<in> set (concat ds). sv_life_cycle_id v < length ret1" "distinct (map sv_life_cycle_id (concat ds))"
    using Cons.prems r1(2) by auto
  from Cons.IH [OF this, of "pg + 1"] obtain ret' where
    r': "grouping_groups (pg + 1) ds ret1 = Inr ret'" "length ret' = length ret1"
      "\<forall>j < length ret1. j \<notin> sv_life_cycle_id ` set (concat ds) \<longrightarrow> ret' ! j = ret1 ! j"
      "\<forall>i < length ds. \<forall>v \<in> set (ds ! i). ret' ! sv_life_cycle_id v = pg + 1 + int i" by blast
  have first: "ret' ! sv_life_cycle_id v = pg" if v: "v \<in> set d" for v
  proof -
    have "sv_life_cycle_id v < length ret" using Cons.prems(1) v by simp
    moreover have "sv_life_cycle_id v \<notin> sv_life_cycle_id ` set (concat ds)"
      using Cons.prems(2) v by fastforce
    ultimately show ?thesis using r' r1 v by simp
  qed
  have "ret' ! sv_life_cycle_id v = pg + int i" if "i < length (d # ds)" "v \<in> set ((d # ds) ! i)" for i v
    using that first r'(4) by (cases i) auto
  moreover have "ret' ! j = ret ! j" if "j < length ret" "j \<notin> sv_life_cycle_id ` set (concat (d # ds))" for j
    using that r1(2,3) r'(3) by (simp add: image_Un)
  moreover have "grouping_groups pg (d # ds) ret = Inr ret'" using r1(1) r'(1) by simp
  ultimately show ?case using r1(2) r'(2) by auto
qed

lemma partition_by_groups:
  assumes "i < length (partition_by xs f)"
  shows "\<exists>k. snd (partition_by xs f ! i) = filter (\<lambda>x. f x = k) xs \<and> k \<in> f ` set xs \<and> k = dict_keys (partition_by xs f) ! i"
proof -
  obtain k v where kv: "partition_by xs f ! i = (k, v)" by force
  then have "(k, v) \<in> set (partition_by xs f)" using assms nth_mem by metis
  then have "map_of (partition_by xs f) k = Some v" by (rule map_of_is_SomeI [OF partition_by_ok])
  then show ?thesis using kv assms unfolding partition_by_lookup by (auto split: if_splits)
qed

section \<open>Offsets of the buffers\<close>

text \<open>The attributes of the buffers of one coalesced buffer and of one variant, as lists.\<close>

definition buffer_attr_at :: "(buffer_id \<times> int) list \<Rightarrow> nat \<Rightarrow> nat \<Rightarrow> int \<Rightarrow> int \<Rightarrow> buffer_id \<Rightarrow> buffer_attr" where
  "buffer_attr_at ex lc pool sz offset b =
     \<lparr>ba_life_cycle_id = lc, ba_pool_index = pool, ba_offset = offset, ba_size = sz,
      ba_expansion = (case map_of ex b of None \<Rightarrow> 1 | Some e \<Rightarrow> e)\<rparr>"

definition cb_attrs :: "(buffer_id \<times> int) list \<Rightarrow> nat \<Rightarrow> nat \<Rightarrow> coalesced_buffer \<Rightarrow> attr_dict" where
  "cb_attrs ex lc pool cb =
     map (\<lambda>(k, b). (b, buffer_attr_at ex lc pool (cb_single_buffer_size cb) (int k * cb_single_buffer_size cb) b))
       (enumerate 0 (cb_buffer_ids cb))"

definition variant_attrs :: "(buffer_id \<times> int) list \<Rightarrow> slot_desc_variant \<Rightarrow> attr_dict" where
  "variant_attrs ex v =
     concat (map (\<lambda>(pool, cb). cb_attrs ex (sv_life_cycle_id v) pool cb) (enumerate 0 (sv_coalesced_buffers v)))"

lemma attrs_buffers_eq:
  "distinct bs \<Longrightarrow> set bs \<inter> fst ` set ret = {} \<Longrightarrow>
    attrs_buffers ex lc pool sz (int i * sz) bs ret =
      ret @ map (\<lambda>(k, b). (b, buffer_attr_at ex lc pool sz (int k * sz) b)) (enumerate i bs)"
proof (induction bs arbitrary: i ret)
  case Nil
  then show ?case by simp
next
  case (Cons b bs)
  have new: "dict_set b v ret = ret @ [(b, v)]" for v using Cons.prems(2) by (intro dict_set_new) auto
  show ?case
    using Cons.IH [of "ret @ [(b, buffer_attr_at ex lc pool sz (int i * sz) b)]" "Suc i"] Cons.prems
    by (auto simp: new buffer_attr_at_def [symmetric] algebra_simps)
qed

lemma keys_cb_attrs [simp]: "dict_keys (cb_attrs ex lc pool cb) = cb_buffer_ids cb"
  by (simp add: cb_attrs_def comp_def case_prod_unfold)

lemma attrs_pools_eq:
  "distinct (concat (map cb_buffer_ids cbs)) \<Longrightarrow> set (concat (map cb_buffer_ids cbs)) \<inter> fst ` set ret = {} \<Longrightarrow>
    attrs_pools ex lc p cbs ret = ret @ concat (map (\<lambda>(pool, cb). cb_attrs ex lc pool cb) (enumerate p cbs))"
proof (induction cbs arbitrary: p ret)
  case Nil
  then show ?case by simp
next
  case (Cons cb cbs)
  have 1: "attrs_buffers ex lc p (cb_single_buffer_size cb) 0 (cb_buffer_ids cb) ret = ret @ cb_attrs ex lc p cb"
    using attrs_buffers_eq [of "cb_buffer_ids cb" ret ex lc p "cb_single_buffer_size cb" 0] Cons.prems
    by (auto simp: cb_attrs_def)
  have keys: "fst ` set (cb_attrs ex lc p cb) = set (cb_buffer_ids cb)"
    using keys_cb_attrs [of ex lc p cb] by (metis list.set_map)
  then have "set (concat (map cb_buffer_ids cbs)) \<inter> fst ` set (ret @ cb_attrs ex lc p cb) = {}"
    unfolding set_append image_Un keys using Cons.prems by auto
  then show ?case using Cons.IH [of "ret @ cb_attrs ex lc p cb" "Suc p"] Cons.prems(1) 1 by simp
qed

definition variant_buffers :: "slot_desc_variant \<Rightarrow> buffer_id list" where
  "variant_buffers v = concat (map cb_buffer_ids (sv_coalesced_buffers v))"

lemma keys_variant_attrs: "dict_keys (variant_attrs ex v) = variant_buffers v"
proof -
  have "map fst (concat (map (\<lambda>(pool, cb). cb_attrs ex lc pool cb) (enumerate p cbs))) = concat (map cb_buffer_ids cbs)" for lc p cbs
    by (induction cbs arbitrary: p) auto
  then show ?thesis by (simp add: variant_attrs_def variant_buffers_def)
qed

lemma buffer_attributes_foldl:
  "distinct (concat (map variant_buffers vs)) \<Longrightarrow> set (concat (map variant_buffers vs)) \<inter> fst ` set ret = {} \<Longrightarrow>
    foldl (\<lambda>ret slot. attrs_pools ex (sv_life_cycle_id slot) 0 (sv_coalesced_buffers slot) ret) ret vs
      = ret @ concat (map (variant_attrs ex) vs)"
proof (induction vs arbitrary: ret)
  case Nil
  then show ?case by simp
next
  case (Cons v vs)
  have 1: "attrs_pools ex (sv_life_cycle_id v) 0 (sv_coalesced_buffers v) ret = ret @ variant_attrs ex v"
    using attrs_pools_eq [of "sv_coalesced_buffers v" ret ex "sv_life_cycle_id v" 0] Cons.prems
    by (simp add: variant_attrs_def variant_buffers_def Int_Un_distrib2)
  have keys: "fst ` set (variant_attrs ex v) = set (variant_buffers v)"
    using keys_variant_attrs [of ex v] by (metis list.set_map)
  then have "set (concat (map variant_buffers vs)) \<inter> fst ` set (ret @ variant_attrs ex v) = {}"
    unfolding set_append image_Un keys using Cons.prems by auto
  then show ?case using Cons.IH [of "ret @ variant_attrs ex v"] Cons.prems(1) 1 by simp
qed

lemma storage_content_buffers:
  "map (\<lambda>(lc, sz, b). b) (storage_content sc) = concat (map variant_buffers (concat (sc_slot_desc_list sc)))"
proof -
  have "map (\<lambda>(lc, sz, b). b) (variant_content v) = variant_buffers v" for v
    by (simp add: variant_content_def variant_buffers_def map_concat comp_def)
  then show ?thesis by (simp add: storage_content_def map_concat comp_def)
qed

lemma buffer_attributes_eq:
  assumes "distinct (map (\<lambda>(lc, sz, b). b) (storage_content sc))"
  shows "buffer_attributes sc = concat (map (variant_attrs (sc_expansion sc)) (concat (sc_slot_desc_list sc)))"
  using buffer_attributes_foldl [of "concat (sc_slot_desc_list sc)" "[]" "sc_expansion sc"] assms
  by (simp add: buffer_attributes_def storage_content_buffers)

lemma in_variant_attrs_iff:
  "(b, a) \<in> set (variant_attrs ex v) \<longleftrightarrow>
    (\<exists>p k cb. p < length (sv_coalesced_buffers v) \<and> cb = sv_coalesced_buffers v ! p
      \<and> k < length (cb_buffer_ids cb) \<and> cb_buffer_ids cb ! k = b
      \<and> a = buffer_attr_at ex (sv_life_cycle_id v) p (cb_single_buffer_size cb) (int k * cb_single_buffer_size cb) b)"
  by (force simp: variant_attrs_def cb_attrs_def in_set_enumerate_eq)

lemma multiples_disjoint:
  "k1 \<noteq> k2 \<Longrightarrow> 0 \<le> sz \<Longrightarrow> int k1 * sz + sz \<le> int k2 * sz \<or> int k2 * sz + sz \<le> int k1 * sz"
proof -
  assume "k1 \<noteq> k2" "0 \<le> sz"
  then consider "int k1 + 1 \<le> int k2" | "int k2 + 1 \<le> int k1" by linarith
  then show ?thesis
    using mult_right_mono [of "int k1 + 1" "int k2" sz] mult_right_mono [of "int k2 + 1" "int k1" sz] \<open>0 \<le> sz\<close>
    by cases (auto simp: algebra_simps)
qed

text \<open>Where an entry of \<open>buffer_attributes\<close> comes from.\<close>

definition located :: "storage_config \<Rightarrow> buffer_id \<Rightarrow> buffer_attr \<Rightarrow> slot_desc_variant \<Rightarrow> nat \<Rightarrow> bool" where
  "located sc b a v k \<longleftrightarrow> v \<in> set (concat (sc_slot_desc_list sc))
     \<and> sv_life_cycle_id v = ba_life_cycle_id a \<and> ba_pool_index a < length (sv_coalesced_buffers v)
     \<and> k < length (cb_buffer_ids (sv_coalesced_buffers v ! ba_pool_index a))
     \<and> cb_buffer_ids (sv_coalesced_buffers v ! ba_pool_index a) ! k = b
     \<and> ba_size a = cb_single_buffer_size (sv_coalesced_buffers v ! ba_pool_index a) \<and> 0 \<le> ba_size a
     \<and> ba_offset a = int k * ba_size a"

lemma buffer_located:
  assumes d: "distinct (map (\<lambda>(lc, sz, b). b) (storage_content sc))"
    and sz: "\<And>lc sz b. (lc, sz, b) \<in> set (storage_content sc) \<Longrightarrow> 0 \<le> sz"
    and a: "map_of (buffer_attributes sc) b = Some a"
  obtains v k where "located sc b a v k"
proof -
  have "(b, a) \<in> set (buffer_attributes sc)" using a by (rule map_of_SomeD)
  then obtain v where v: "v \<in> set (concat (sc_slot_desc_list sc))" "(b, a) \<in> set (variant_attrs (sc_expansion sc) v)"
    unfolding buffer_attributes_eq [OF d] by auto
  then obtain p k cb where pk: "p < length (sv_coalesced_buffers v)" "cb = sv_coalesced_buffers v ! p"
    "k < length (cb_buffer_ids cb)" "cb_buffer_ids cb ! k = b"
    "a = buffer_attr_at (sc_expansion sc) (sv_life_cycle_id v) p (cb_single_buffer_size cb) (int k * cb_single_buffer_size cb) b"
    unfolding in_variant_attrs_iff by blast
  then have "(sv_life_cycle_id v, cb_single_buffer_size cb, b) \<in> set (variant_content v)"
    unfolding variant_content_def using nth_mem by fastforce
  then have "0 \<le> cb_single_buffer_size cb" using v(1) by (intro sz) (auto simp: storage_content_def)
  with v(1) pk show ?thesis by (intro that [of v k]) (auto simp: buffer_attr_at_def located_def)
qed

lemma located_inside:
  assumes "located sc b a v k"
  shows "v \<in> set (concat (sc_slot_desc_list sc)) \<and> sv_life_cycle_id v = ba_life_cycle_id a
    \<and> ba_pool_index a < length (variant_slot_size_list v)
    \<and> 0 \<le> ba_offset a \<and> ba_offset a + ba_size a \<le> variant_slot_size_list v ! ba_pool_index a"
proof -
  let ?n = "length (cb_buffer_ids (sv_coalesced_buffers v ! ba_pool_index a))"
  have "(int k + 1) * ba_size a \<le> int ?n * ba_size a"
    using assms by (intro mult_right_mono) (auto simp: located_def)
  then show ?thesis
    using assms by (auto simp: located_def variant_slot_size_list_def cb_size_def algebra_simps)
qed

lemma located_disjoint:
  assumes dist: "distinct (map sv_life_cycle_id (concat (sc_slot_desc_list sc)))"
    and l1: "located sc b1 a1 v1 k1" and l2: "located sc b2 a2 v2 k2" and "b1 \<noteq> b2"
    and same: "ba_life_cycle_id a1 = ba_life_cycle_id a2" "ba_pool_index a1 = ba_pool_index a2"
  shows "ba_offset a1 + ba_size a1 \<le> ba_offset a2 \<or> ba_offset a2 + ba_size a2 \<le> ba_offset a1"
proof -
  have "inj_on sv_life_cycle_id (set (concat (sc_slot_desc_list sc)))" using dist by (simp add: distinct_map)
  then have "v1 = v2" using l1 l2 same unfolding located_def by (metis inj_onD)
  then have "k1 \<noteq> k2" "ba_size a2 = ba_size a1" using l1 l2 \<open>b1 \<noteq> b2\<close> same by (auto simp: located_def)
  then show ?thesis using multiples_disjoint [of k1 k2 "ba_size a1"] l1 l2 by (simp add: located_def)
qed

lemma buffer_attributes_keys:
  assumes ok: "config_ok c" and sc: "create_storage_config c = Inr sc"
  shows "dict_ok (buffer_attributes sc)"
    and "set (dict_keys (buffer_attributes sc)) =
      {b. \<exists>l \<in> set (cfg_layers c). \<exists>bc \<in> set (buffers l). b = \<lparr>bid_layer_id = layer_id l, bid_role = bc_role bc\<rparr>}"
proof -
  note content = storage_content_spec [OF ok sc]
  have keys: "dict_keys (buffer_attributes sc) = map (\<lambda>(lc, sz, b). b) (storage_content sc)"
    unfolding buffer_attributes_eq [OF content(2)] storage_content_buffers map_concat
    by (simp add: comp_def keys_variant_attrs)
  then show "dict_ok (buffer_attributes sc)" using content(2) by simp
  show "set (dict_keys (buffer_attributes sc)) =
      {b. \<exists>l \<in> set (cfg_layers c). \<exists>bc \<in> set (buffers l). b = \<lparr>bid_layer_id = layer_id l, bid_role = bc_role bc\<rparr>}"
    unfolding keys set_map mset_eq_setD [OF content(1)]
    by (auto simp: config_demand_def layer_demand_def image_iff) force+
qed

section \<open>Properties\<close>

text \<open>
  C34 \<open>create_storage_config\<close> succeeds on every configuration that passes its own checks, and it
  places every buffer of every layer exactly once, in the slot variant of the life cycle of its layer and in a
  coalesced buffer for exactly its expanded size; no buffer id occurs twice.
\<close>

theorem create_storage_config_places:
  assumes "config_ok c"
  shows "\<exists>sc. create_storage_config c = Inr sc
    \<and> mset (storage_content sc) = mset (config_demand (cfg_tokens_per_block c) (layer_lc_id c) (cfg_layers c))
    \<and> distinct (map (\<lambda>(lc, sz, b). b) (storage_content sc))"
proof -
  obtain sc where sc: "create_storage_config c = Inr sc" using create_spec [OF assms] by metis
  show ?thesis using sc storage_content_spec [OF assms sc] by (intro exI [of _ sc]) simp
qed

text \<open>Two attention layers, one of them with a sliding window and a quantisation scale per half block.\<close>

definition example_config :: kv_cache_manager_config where
  "example_config =
     \<lparr>cfg_tokens_per_block = 32, cfg_cache_tiers = [GpuCacheTierConfig 1000000],
      cfg_layers =
        [AttentionLayerConfig 0 [\<lparr>bc_role = ''key'', bc_size = 512, bc_tokens_per_block_override = None\<rparr>,
                                 \<lparr>bc_role = ''value'', bc_size = 512, bc_tokens_per_block_override = None\<rparr>] None None,
         AttentionLayerConfig 1 [\<lparr>bc_role = ''key'', bc_size = 512, bc_tokens_per_block_override = None\<rparr>,
                                 \<lparr>bc_role = ''scale'', bc_size = 256, bc_tokens_per_block_override = Some 16\<rparr>]
           (Some 128) (Some 4)],
      cfg_max_util_for_resume = 97 / 100, cfg_enable_partial_reuse = True, cfg_constraints = [],
      cfg_typical_step = None, cfg_initial_pool_ratio = None, cfg_swa_scratch_reuse = None,
      cfg_commit_min_snapshot = False, cfg_enable_stats = True\<rparr>"

lemma example_config_ok: "config_ok example_config"
  by (simp add: config_ok_def example_config_def config_post_init_def attn_make_def)

theorem create_storage_config_places_witness:
  "config_ok example_config \<and> (\<exists>sc. create_storage_config example_config = Inr sc
    \<and> size (mset (storage_content sc)) = 4)"
proof -
  have "length (config_demand tpb lcid (cfg_layers example_config)) = 4" for tpb lcid
    by (simp add: config_demand_def layer_demand_def example_config_def)
  then show ?thesis
    using create_storage_config_places [OF example_config_ok] example_config_ok by (metis size_mset)
qed

text \<open>
  C36 Pool groups are well formed: in every pool group all variants have the same list of slot
  sizes, two pool groups have different lists, the life cycles of the registry are exactly the
  variants, and \<open>life_cycle_grouping\<close> maps every life cycle to the pool group that holds it.
\<close>

theorem pool_groups_well_formed:
  assumes "config_ok c"
  shows "\<exists>sc r sizes grouping. create_storage_config c = Inr sc \<and> registry_init c = Inr r
    \<and> mapR (slot_desc_slot_size_list False) (sc_slot_desc_list sc) = Inr sizes \<and> distinct sizes
    \<and> num_life_cycles sc = length (lcr_list r)
    \<and> life_cycle_grouping sc = Inr grouping \<and> length grouping = length (lcr_list r)
    \<and> (\<forall>lc pg. lc < length grouping \<longrightarrow> (grouping ! lc = int pg \<longleftrightarrow> pg < length (sc_slot_desc_list sc)
         \<and> lc \<in> sv_life_cycle_id ` set (sc_slot_desc_list sc ! pg)))"
proof -
  obtain sc r g where g: "create_storage_config c = Inr sc" "registry_init c = Inr r" "registry_ok r"
    "sc_slot_desc_list sc = map snd (partition_by (make_variants g) variant_slot_size_list)"
    "dict_ok g" "set (dict_keys g) = {..<length (lcr_list r)}"
    using create_spec [OF assms] by metis
  let ?p = "partition_by (make_variants g) variant_slot_size_list"
  have "slot_desc_slot_size_list False d = Inr k" if "(k, d) \<in> set ?p" for k d
  proof -
    from that obtain i where i: "i < length ?p" "?p ! i = (k, d)" by (auto simp: in_set_conv_nth)
    with partition_by_groups [OF i(1)] have "d = filter (\<lambda>v. variant_slot_size_list v = k) (make_variants g)"
      "k \<in> variant_slot_size_list ` set (make_variants g)" by auto
    then show ?thesis
      by (auto simp: slot_desc_slot_size_list_def get_uniform_attribute_def filter_empty_conv
          split: list.splits dest: filter_eq_ConsD)
  qed
  then have "mapR (\<lambda>x. slot_desc_slot_size_list False (snd x)) ?p = Inr (map fst ?p)"
    by (intro mapR_Inr_map) auto
  then have sizes: "mapR (slot_desc_slot_size_list False) (sc_slot_desc_list sc) = Inr (dict_keys ?p)"
    unfolding g(4) by (simp add: mapR_map comp_def)
  have perm: "mset (map sv_life_cycle_id (concat (sc_slot_desc_list sc))) = mset (dict_keys g)"
    unfolding g(4) mset_map partition_by_mset make_variants_ids [symmetric] ..
  have dist: "distinct (map sv_life_cycle_id (concat (sc_slot_desc_list sc)))"
    using perm g(5) mset_eq_imp_distinct_iff by blast
  have ids: "sv_life_cycle_id ` set (concat (sc_slot_desc_list sc)) = {..<length (lcr_list r)}"
    using mset_eq_setD [OF perm] g(6) by simp
  have "num_life_cycles sc = card (set (map sv_life_cycle_id (concat (sc_slot_desc_list sc))))"
    using distinct_card [OF dist] by (simp add: num_life_cycles_def length_concat)
  then have n: "num_life_cycles sc = length (lcr_list r)" using ids by simp
  obtain ret where ret: "life_cycle_grouping sc = Inr ret" "length ret = num_life_cycles sc"
    "\<forall>i < length (sc_slot_desc_list sc). \<forall>v \<in> set (sc_slot_desc_list sc ! i). ret ! sv_life_cycle_id v = int i"
    using grouping_groups_spec [OF _ dist, of "replicate (num_life_cycles sc) (-1)" 0] ids n
    by (auto simp: life_cycle_grouping_def)
  have "ret ! lc = int pg \<longleftrightarrow> pg < length (sc_slot_desc_list sc)
      \<and> lc \<in> sv_life_cycle_id ` set (sc_slot_desc_list sc ! pg)" if lc: "lc < length ret" for lc pg
  proof -
    have "lc \<in> sv_life_cycle_id ` set (concat (sc_slot_desc_list sc))" using lc ids ret(2) n by simp
    then obtain d v where "d \<in> set (sc_slot_desc_list sc)" "v \<in> set d" "lc = sv_life_cycle_id v" by auto
    then obtain i where i: "i < length (sc_slot_desc_list sc)" "v \<in> set (sc_slot_desc_list sc ! i)"
      "lc = sv_life_cycle_id v" by (metis in_set_conv_nth)
    then have "ret ! lc = int i" using ret(3) by auto
    then show ?thesis using i ret(3) by (auto, metis of_nat_eq_iff)
  qed
  then show ?thesis
    using g(1,2) sizes partition_by_ok n ret(1,2) by (metis (no_types, lifting))
qed


theorem pool_groups_well_formed_witness:
  "\<exists>sc r sizes. create_storage_config example_config = Inr sc \<and> registry_init example_config = Inr r
    \<and> mapR (slot_desc_slot_size_list False) (sc_slot_desc_list sc) = Inr sizes \<and> distinct sizes
    \<and> num_life_cycles sc = length (lcr_list r)"
  using pool_groups_well_formed [OF example_config_ok] by blast

text \<open>
  C35 Buffers do not overlap: after \<open>create_storage_config\<close>, \<open>buffer_attributes\<close> has exactly one
  entry for each buffer of the configuration; an entry lies inside the slot of its pool; and two different
  buffers of the same life cycle and pool occupy disjoint byte ranges.
\<close>

theorem buffer_attributes_disjoint:
  assumes ok: "config_ok c" and sc: "create_storage_config c = Inr sc"
    and sizes: "\<forall>l \<in> set (cfg_layers c). \<forall>b \<in> set (buffers l). 0 \<le> expanded_size (cfg_tokens_per_block c) b"
  shows "dict_ok (buffer_attributes sc)
    \<and> set (dict_keys (buffer_attributes sc)) =
        {b. \<exists>l \<in> set (cfg_layers c). \<exists>bc \<in> set (buffers l). b = \<lparr>bid_layer_id = layer_id l, bid_role = bc_role bc\<rparr>}
    \<and> (\<forall>b1 a1. map_of (buffer_attributes sc) b1 = Some a1 \<longrightarrow>
         (\<exists>v \<in> set (concat (sc_slot_desc_list sc)). sv_life_cycle_id v = ba_life_cycle_id a1
            \<and> ba_pool_index a1 < length (variant_slot_size_list v)
            \<and> 0 \<le> ba_offset a1 \<and> ba_offset a1 + ba_size a1 \<le> variant_slot_size_list v ! ba_pool_index a1)
       \<and> (\<forall>b2 a2. map_of (buffer_attributes sc) b2 = Some a2 \<and> b1 \<noteq> b2
            \<and> ba_life_cycle_id a1 = ba_life_cycle_id a2 \<and> ba_pool_index a1 = ba_pool_index a2
          \<longrightarrow> ba_offset a1 + ba_size a1 \<le> ba_offset a2 \<or> ba_offset a2 + ba_size a2 \<le> ba_offset a1))"
proof -
  note content = storage_content_spec [OF ok sc]
  have sz: "0 \<le> sz" if "(lc, sz, b) \<in> set (storage_content sc)" for lc sz b
    using that sizes unfolding mset_eq_setD [OF content(1)] by (auto simp: config_demand_def layer_demand_def)
  have dist: "distinct (map sv_life_cycle_id (concat (sc_slot_desc_list sc)))"
    using sc by (auto simp: create_storage_config_def storage_config_post_init_def res_iffs split: prod.splits)
  have loc: "\<exists>v k. located sc b a v k" if "map_of (buffer_attributes sc) b = Some a" for b a
  proof (rule buffer_located [OF content(2) _ that])
    show "0 \<le> sz" if "(lc, sz, b) \<in> set (storage_content sc)" for lc sz b using sz that .
  qed blast
  have inside: "\<exists>v \<in> set (concat (sc_slot_desc_list sc)). sv_life_cycle_id v = ba_life_cycle_id a
      \<and> ba_pool_index a < length (variant_slot_size_list v)
      \<and> 0 \<le> ba_offset a \<and> ba_offset a + ba_size a \<le> variant_slot_size_list v ! ba_pool_index a"
    if "map_of (buffer_attributes sc) b = Some a" for b a
    using loc [OF that] located_inside by blast
  have disjoint: "ba_offset a1 + ba_size a1 \<le> ba_offset a2 \<or> ba_offset a2 + ba_size a2 \<le> ba_offset a1"
    if "map_of (buffer_attributes sc) b1 = Some a1" "map_of (buffer_attributes sc) b2 = Some a2" "b1 \<noteq> b2"
      "ba_life_cycle_id a1 = ba_life_cycle_id a2" "ba_pool_index a1 = ba_pool_index a2" for b1 a1 b2 a2
    using loc [OF that(1)] loc [OF that(2)] located_disjoint [OF dist _ _ that(3-5)] by blast
  show ?thesis
  proof (intro conjI allI impI, goal_cases)
    case 1 show ?case by (rule buffer_attributes_keys [OF ok sc])
  next
    case 2 show ?case by (rule buffer_attributes_keys [OF ok sc])
  next
    case (3 b1 a1) then show ?case by (rule inside)
  next
    case (4 b1 a1 b2 a2) then show ?case by (elim conjE) (rule disjoint)
  qed
qed

theorem buffer_attributes_disjoint_witness:
  "\<exists>sc. create_storage_config example_config = Inr sc \<and> dict_ok (buffer_attributes sc)
    \<and> \<lparr>bid_layer_id = 1, bid_role = ''scale''\<rparr> \<in> set (dict_keys (buffer_attributes sc))"
proof -
  obtain sc where sc: "create_storage_config example_config = Inr sc"
    using create_spec [OF example_config_ok] by metis
  have "\<forall>l \<in> set (cfg_layers example_config). \<forall>b \<in> set (buffers l).
      0 \<le> expanded_size (cfg_tokens_per_block example_config) b"
    by (simp add: example_config_def expanded_size_def)
  from buffer_attributes_disjoint [OF example_config_ok sc this] show ?thesis
    using sc by (intro exI [of _ sc]) (simp add: example_config_def)
qed

end
