(* ===== verification/KV_Eviction.thy ===== *)
theory KV_Eviction
  imports KV_Utils
begin

text \<open>
  The eviction policies and the eviction controller of one cache level
  (\<^verbatim>\<open>_eviction_controller/_eviction_controller.py\<close>). Pages are identified by numbers; what the
  code reads and writes of a page (its place in the queue \<open>node_ref\<close>, its priority, cache level and life cycle) is
  kept in a store \<open>pages\<close>, which is passed along because the code changes \<open>node_ref\<close> in place.

  The doubly linked list comes from the package \<^verbatim>\<open>llist\<close>, which is not part of the repository: its
  operations are the record \<open>dllist_ops\<close>, an argument of the definitions, and
  \<open>dllist_laws\<close> states its documented behaviour over the sequence of nodes.
\<close>

section \<open>The linked list\<close>

record ('q, 'n) dllist_ops =
  dl_empty :: 'q
  dl_append :: "'q \<Rightarrow> nat \<Rightarrow> 'q \<times> 'n"
  dl_appendleft :: "'q \<Rightarrow> nat \<Rightarrow> 'q \<times> 'n"
  dl_first :: "'q \<Rightarrow> 'n option"
  dl_value :: "'n \<Rightarrow> nat"
  dl_remove :: "'q \<Rightarrow> 'n \<Rightarrow> ('q \<times> nat) res"
  dl_len :: "'q \<Rightarrow> nat"
  dl_iter :: "'q \<Rightarrow> nat list"

definition dllist_laws :: "('q, 'n) dllist_ops \<Rightarrow> ('q \<Rightarrow> 'n list) \<Rightarrow> bool" where
  "dllist_laws ops nodes \<longleftrightarrow>
     nodes (dl_empty ops) = []
   \<and> (\<forall>q p. case dl_append ops q p of (q', n) \<Rightarrow>
        nodes q' = nodes q @ [n] \<and> n \<notin> set (nodes q) \<and> dl_value ops n = p)
   \<and> (\<forall>q p. case dl_appendleft ops q p of (q', n) \<Rightarrow>
        nodes q' = n # nodes q \<and> n \<notin> set (nodes q) \<and> dl_value ops n = p)
   \<and> (\<forall>q. dl_first ops q = (case nodes q of [] \<Rightarrow> None | n # _ \<Rightarrow> Some n))
   \<and> (\<forall>q n. if n \<in> set (nodes q)
        then \<exists>q'. dl_remove ops q n = Inr (q', dl_value ops n) \<and> nodes q' = remove1 n (nodes q)
        else dl_remove ops q n = Inl ValueError)
   \<and> (\<forall>q. dl_len ops q = length (nodes q))
   \<and> (\<forall>q. dl_iter ops q = map (dl_value ops) (nodes q))"

section \<open>Pages as the eviction controller sees them\<close>

record 'n evictable_page =
  ep_node_ref :: "'n option"
  ep_priority :: int
  ep_cache_level :: nat
  ep_life_cycle :: nat

type_synonym 'n pages = "nat \<Rightarrow> 'n evictable_page"

abbreviation set_node_ref :: "'n pages \<Rightarrow> nat \<Rightarrow> 'n option \<Rightarrow> 'n pages" where
  "set_node_ref pg p r \<equiv> pg(p := (pg p)\<lparr>ep_node_ref := r\<rparr>)"

section \<open>The LRU policy\<close>

definition lru_push :: "('q, 'n) dllist_ops \<Rightarrow> 'n pages \<Rightarrow> 'q \<Rightarrow> nat \<Rightarrow> bool \<Rightarrow> ('q \<times> 'n) res" where
  "lru_push ops pg q page evict_first =
     assertR (ep_node_ref (pg page) = None)
       (Inr (if evict_first then dl_appendleft ops q page else dl_append ops q page))"

definition lru_remove :: "('q, 'n) dllist_ops \<Rightarrow> 'n pages \<Rightarrow> 'q \<Rightarrow> 'n \<Rightarrow> ('q \<times> nat) res" where
  "lru_remove ops pg q node =
     assertR (ep_node_ref (pg (dl_value ops node)) = Some node) (dl_remove ops q node)"

definition lru_pop :: "('q, 'n) dllist_ops \<Rightarrow> 'n pages \<Rightarrow> 'q \<Rightarrow> ('q \<times> nat) res" where
  "lru_pop ops pg q =
     (case dl_first ops q of None \<Rightarrow> Inl AssertionError
      | Some victim \<Rightarrow>
          let page = dl_value ops victim
          in bindR (lru_remove ops pg q victim) (\<lambda>(q', _). Inr (q', page)))"

section \<open>The prioritized policy\<close>

text \<open>The dictionary \<open>_policies\<close> in its iteration order, one LRU queue per priority.\<close>

type_synonym 'q prio_policy = "(int \<times> 'q) list"

definition prio_len :: "('q, 'n) dllist_ops \<Rightarrow> 'q prio_policy \<Rightarrow> nat" where
  "prio_len ops d = sum_list (map (\<lambda>(_, q). dl_len ops q) d)"

definition get_policy :: "('q, 'n) dllist_ops \<Rightarrow> 'q prio_policy \<Rightarrow> int \<Rightarrow> 'q prio_policy" where
  "get_policy ops d priority =
     (if map_of d priority = None then sort_key fst (dict_set priority (dl_empty ops) d) else d)"

definition prio_push :: "('q, 'n) dllist_ops \<Rightarrow> 'n pages \<Rightarrow> 'q prio_policy \<Rightarrow> nat \<Rightarrow> bool \<Rightarrow> ('q prio_policy \<times> 'n) res" where
  "prio_push ops pg d page evict_first =
     (let pr = ep_priority (pg page); d' = get_policy ops d pr
      in case map_of d' pr of None \<Rightarrow> Inl KeyError
         | Some q \<Rightarrow> bindR (lru_push ops pg q page evict_first) (\<lambda>(q', n). Inr (dict_set pr q' d', n)))"

definition prio_pop :: "('q, 'n) dllist_ops \<Rightarrow> 'n pages \<Rightarrow> 'q prio_policy \<Rightarrow> ('q prio_policy \<times> nat) res" where
  "prio_pop ops pg d =
     (case d of [] \<Rightarrow> Inl StopIteration
      | (pr, q) # rest \<Rightarrow> bindR (lru_pop ops pg q) (\<lambda>(q', page). Inr ((pr, q') # rest, page)))"

definition prio_remove :: "('q, 'n) dllist_ops \<Rightarrow> 'n pages \<Rightarrow> 'q prio_policy \<Rightarrow> 'n \<Rightarrow> ('q prio_policy \<times> nat) res" where
  "prio_remove ops pg d node =
     (let page = dl_value ops node; pr = ep_priority (pg page)
      in case map_of d pr of None \<Rightarrow> Inl KeyError
         | Some q \<Rightarrow> bindR (lru_remove ops pg q node) (\<lambda>(q', _).
             Inr (if dl_len ops q' = 0 then dict_del pr (dict_set pr q' d) else dict_set pr q' d, page)))"

definition prio_iter :: "('q, 'n) dllist_ops \<Rightarrow> 'q prio_policy \<Rightarrow> nat list" where
  "prio_iter ops d = concat (map (\<lambda>(_, q). dl_iter ops q) d)"

section \<open>The controller\<close>

record 'q eviction_controller =
  ec_life_cycle_grouping :: "nat list"
  ec_policies :: "'q prio_policy list"
  ec_cache_level :: nat

definition eviction_controller_init :: "nat list \<Rightarrow> nat \<Rightarrow> 'q eviction_controller res" where
  "eviction_controller_init grouping level =
     (if grouping = [] then Inl ValueError
      else let num_pool_groups = fold max grouping 0 + 1
           in assertR (num_pool_groups = length (remdups grouping))
                (Inr \<lparr>ec_life_cycle_grouping = grouping, ec_policies = replicate num_pool_groups [],
                      ec_cache_level = level\<rparr>))"

text \<open>The index of the pool group of a life cycle, with the policy found there.\<close>

definition ec_get_policy :: "'q eviction_controller \<Rightarrow> nat \<Rightarrow> (nat \<times> 'q prio_policy) res" where
  "ec_get_policy ec lc =
     bindR (list_get (ec_life_cycle_grouping ec) lc) (\<lambda>i.
     bindR (list_get (ec_policies ec) i) (\<lambda>d. Inr (i, d)))"

definition schedule_for_eviction :: "('q, 'n) dllist_ops \<Rightarrow> 'n pages \<times> 'q eviction_controller \<Rightarrow> nat \<Rightarrow> bool
    \<Rightarrow> ('n pages \<times> 'q eviction_controller) res" where
  "schedule_for_eviction ops st page evict_first =
     (case st of (pg, ec) \<Rightarrow>
        assertR (ep_node_ref (pg page) = None \<and> ep_cache_level (pg page) = ec_cache_level ec) (
        bindR (ec_get_policy ec (ep_life_cycle (pg page))) (\<lambda>(i, d).
        bindR (prio_push ops pg d page evict_first) (\<lambda>(d', n).
        assertR (dl_value ops n = page)
          (Inr (set_node_ref pg page (Some n), ec\<lparr>ec_policies := (ec_policies ec)[i := d']\<rparr>))))))"

definition num_pool_groups :: "'q eviction_controller \<Rightarrow> nat" where
  "num_pool_groups ec = length (ec_policies ec)"

definition evict_dependencies :: "'q eviction_controller \<Rightarrow> nat \<Rightarrow> nat list list" where
  "evict_dependencies ec page = replicate (num_pool_groups ec) []"

definition num_evictable_pages :: "('q, 'n) dllist_ops \<Rightarrow> 'q eviction_controller \<Rightarrow> nat \<Rightarrow> nat res" where
  "num_evictable_pages ops ec i = bindR (list_get (ec_policies ec) i) (\<lambda>d. Inr (prio_len ops d))"

definition page_iterator :: "('q, 'n) dllist_ops \<Rightarrow> 'q eviction_controller \<Rightarrow> nat \<Rightarrow> nat list res" where
  "page_iterator ops ec i = bindR (list_get (ec_policies ec) i) (\<lambda>d. Inr (prio_iter ops d))"

definition ec_remove :: "('q, 'n) dllist_ops \<Rightarrow> 'n pages \<times> 'q eviction_controller \<Rightarrow> 'n
    \<Rightarrow> ('n pages \<times> 'q eviction_controller) res" where
  "ec_remove ops st node =
     (case st of (pg, ec) \<Rightarrow>
        let page = dl_value ops node
        in assertR (ep_node_ref (pg page) = Some node) (
           bindR (ec_get_policy ec (ep_life_cycle (pg page))) (\<lambda>(i, d).
           bindR (prio_remove ops pg d node) (\<lambda>(d', _).
             Inr (set_node_ref pg page None, ec\<lparr>ec_policies := (ec_policies ec)[i := d']\<rparr>)))))"

text \<open>
  The inner loop of \<open>evict\<close> for pool group \<open>i\<close>: pop until \<open>want\<close> pages of the group are
  collected. The result carries the state, the pages collected so far and the exception, if one
  was raised.
\<close>

type_synonym ('q, 'n) evict_state = "'n pages \<times> 'q eviction_controller \<times> nat list list"

function evict_while :: "('q, 'n) dllist_ops \<Rightarrow> nat \<Rightarrow> nat \<Rightarrow> ('q, 'n) evict_state
    \<Rightarrow> ('q, 'n) evict_state \<times> error option" where
  "evict_while ops i want (pg, ec, ret) =
     (if \<not> (i < length ret) \<or> \<not> (i < length (ec_policies ec)) then ((pg, ec, ret), Some IndexError)
      else if length (ret ! i) < want then
        (case prio_pop ops pg (ec_policies ec ! i) of Inl e \<Rightarrow> ((pg, ec, ret), Some e)
         | Inr (d', page) \<Rightarrow>
             let ec' = ec\<lparr>ec_policies := (ec_policies ec)[i := d']\<rparr>;
                 ret' = ret[i := ret ! i @ [page]]
             in evict_while ops i want
                  (set_node_ref pg page None, ec', map2 (@) ret' (evict_dependencies ec' page)))
      else ((pg, ec, ret), None))"
  by pat_completeness auto
termination
  by (relation "measure (\<lambda>(ops, i, want, pg, ec, ret). want - length (ret ! i))")
    (auto simp: evict_dependencies_def num_pool_groups_def)

fun evict_groups :: "('q, 'n) dllist_ops \<Rightarrow> nat \<Rightarrow> int list \<Rightarrow> ('q, 'n) evict_state
    \<Rightarrow> ('q, 'n) evict_state \<times> error option" where
  "evict_groups ops i [] st = (st, None)"
| "evict_groups ops i (want # wants) st =
     (case st of (pg, ec, ret) \<Rightarrow>
        if want < 0 then (st, Some ValueError)
        else if \<not> (i < length (ec_policies ec)) then (st, Some IndexError)
        else if int (prio_len ops (ec_policies ec ! i) + length (ret ! i)) < want then (st, Some OutOfPagesError)
        else case evict_while ops i (nat want) st of
               (st', Some e) \<Rightarrow> (st', Some e)
             | (st', None) \<Rightarrow> evict_groups ops (i + 1) wants st')"

fun schedule_all :: "('q, 'n) dllist_ops \<Rightarrow> nat list \<Rightarrow> 'n pages \<times> 'q eviction_controller
    \<Rightarrow> ('n pages \<times> 'q eviction_controller) \<times> error option" where
  "schedule_all ops [] st = (st, None)"
| "schedule_all ops (p # ps) st =
     (case schedule_for_eviction ops st p True of Inl e \<Rightarrow> (st, Some e)
      | Inr st' \<Rightarrow> schedule_all ops ps st')"

text \<open>
  \<open>evict\<close> returns the pages per pool group, or raises; when it raises, the pages already popped have been
  put back, so the state is part of the result in both cases.
\<close>

definition evict :: "bool \<Rightarrow> ('q, 'n) dllist_ops \<Rightarrow> 'n pages \<times> 'q eviction_controller \<Rightarrow> int list
    \<Rightarrow> ('n pages \<times> 'q eviction_controller) \<times> nat list list res" where
  "evict ndebug ops st min_num_pages =
     (case st of (pg, ec) \<Rightarrow>
        if \<not> (ndebug \<or> length min_num_pages = num_pool_groups ec) then (st, Inl AssertionError)
        else case evict_groups ops 0 min_num_pages (pg, ec, replicate (num_pool_groups ec) []) of
          ((pg', ec', ret), None) \<Rightarrow>
            ((pg', ec'),
             assertR (list_all (\<lambda>p. ep_cache_level (pg' p) = ec_cache_level ec') (concat ret)) (Inr ret))
        | ((pg', ec', ret), Some e) \<Rightarrow>
            (case schedule_all ops (rev (concat ret)) (pg', ec') of
               (st', Some e') \<Rightarrow> (st', Inl e')
             | (st', None) \<Rightarrow> (st', Inl e)))"

section \<open>The contract of an eviction policy\<close>

text \<open>
  The protocol \<open>EvictionPolicy\<close>: what a policy promises its users, over the order in which it
  would iterate its pages. The laws speak of the page store before the call; the caller
  sets or clears \<open>node_ref\<close> afterwards, which the invariant then refers to.
\<close>

locale eviction_policy =
  fixes push :: "'n pages \<Rightarrow> 's \<Rightarrow> nat \<Rightarrow> bool \<Rightarrow> ('s \<times> 'n) res"
    and pop :: "'n pages \<Rightarrow> 's \<Rightarrow> ('s \<times> nat) res"
    and remove :: "'n pages \<Rightarrow> 's \<Rightarrow> 'n \<Rightarrow> ('s \<times> nat) res"
    and len :: "'s \<Rightarrow> nat"
    and iter :: "'s \<Rightarrow> nat list"
    and node_value :: "'n \<Rightarrow> nat"
    and pinv :: "'n pages \<Rightarrow> 's \<Rightarrow> bool"
  assumes len_law: "pinv pg s \<Longrightarrow> len s = length (iter s)"
    and iter_law: "pinv pg s \<Longrightarrow> distinct (iter s) \<and> (\<forall>p \<in> set (iter s). ep_node_ref (pg p) \<noteq> None)"
    and push_law: "pinv pg s \<Longrightarrow> ep_node_ref (pg p) = None \<Longrightarrow>
      \<exists>s' n xs ys. push pg s p ef = Inr (s', n) \<and> node_value n = p \<and> pinv (set_node_ref pg p (Some n)) s'
        \<and> iter s = xs @ ys \<and> iter s' = xs @ p # ys"
    and remove_law: "pinv pg s \<Longrightarrow> p \<in> set (iter s) \<Longrightarrow> ep_node_ref (pg p) = Some n \<Longrightarrow>
      \<exists>s'. remove pg s n = Inr (s', p) \<and> pinv (set_node_ref pg p None) s' \<and> iter s' = remove1 p (iter s)"
    and pop_law: "pinv pg s \<Longrightarrow> pop pg s = Inr (s', p) \<Longrightarrow>
      iter s = p # iter s' \<and> pinv (set_node_ref pg p None) s'"
begin

lemma push_remove:
  assumes inv: "pinv pg s" and p: "ep_node_ref (pg p) = None"
  shows "\<exists>s1 n s2. push pg s p ef = Inr (s1, n) \<and> len s1 = len s + 1
    \<and> remove (set_node_ref pg p (Some n)) s1 n = Inr (s2, p) \<and> iter s2 = iter s"
proof -
  obtain s1 n xs ys where s1: "push pg s p ef = Inr (s1, n)" "pinv (set_node_ref pg p (Some n)) s1"
    "iter s = xs @ ys" "iter s1 = xs @ p # ys"
    using push_law [OF assms] by blast
  have "p \<notin> set (iter s)" using iter_law [OF inv] p by auto
  then have "remove1 p (iter s1) = iter s" using s1(3,4) by (simp add: remove1_append)
  moreover obtain s2 where "remove (set_node_ref pg p (Some n)) s1 n = Inr (s2, p)" "iter s2 = remove1 p (iter s1)"
    using remove_law [OF s1(2), of p n] s1(4) by auto
  ultimately show ?thesis using s1 len_law [OF inv] len_law [OF s1(2)] by auto
qed

lemma pop_is_remove_first:
  assumes inv: "pinv pg s" and pop: "pop pg s = Inr (s', p)"
  shows "p \<notin> set (iter s')" and "len s = len s' + 1"
    and "ep_node_ref (pg p) = Some n \<Longrightarrow> \<exists>s''. remove pg s n = Inr (s'', p) \<and> iter s'' = iter s'"
proof -
  note s = pop_law [OF inv pop]
  show "p \<notin> set (iter s')" using iter_law [OF inv] s by simp
  show "len s = len s' + 1" using len_law [OF inv] len_law [OF conjunct2 [OF s]] s by simp
  show "\<exists>s''. remove pg s n = Inr (s'', p) \<and> iter s'' = iter s'" if "ep_node_ref (pg p) = Some n"
    using remove_law [OF inv _ that] s by auto
qed

end

section \<open>The LRU policy keeps the contract\<close>

lemma dllist_lawsD:
  assumes "dllist_laws ops nodes"
  shows dll_empty: "nodes (dl_empty ops) = []"
    and dll_append: "dl_append ops q p = (q', n) \<Longrightarrow> nodes q' = nodes q @ [n] \<and> n \<notin> set (nodes q) \<and> dl_value ops n = p"
    and dll_appendleft: "dl_appendleft ops q p = (q', n) \<Longrightarrow> nodes q' = n # nodes q \<and> n \<notin> set (nodes q) \<and> dl_value ops n = p"
    and dll_first: "dl_first ops q = (case nodes q of [] \<Rightarrow> None | n # _ \<Rightarrow> Some n)"
    and dll_remove: "n \<in> set (nodes q) \<Longrightarrow>
      \<exists>q'. dl_remove ops q n = Inr (q', dl_value ops n) \<and> nodes q' = remove1 n (nodes q)"
    and dll_len: "dl_len ops q = length (nodes q)"
    and dll_iter: "dl_iter ops q = map (dl_value ops) (nodes q)"
  using assms unfolding dllist_laws_def by (auto split: prod.splits if_splits)

definition lru_inv :: "('q, 'n) dllist_ops \<Rightarrow> ('q \<Rightarrow> 'n list) \<Rightarrow> 'n pages \<Rightarrow> 'q \<Rightarrow> bool" where
  "lru_inv ops nodes pg q \<longleftrightarrow> distinct (nodes q)
     \<and> (\<forall>n \<in> set (nodes q). ep_node_ref (pg (dl_value ops n)) = Some n)"

lemma lru_inv_values:
  assumes "dllist_laws ops nodes" and "lru_inv ops nodes pg q"
  shows "distinct (dl_iter ops q)" and "\<forall>p \<in> set (dl_iter ops q). ep_node_ref (pg p) \<noteq> None"
    and "p \<in> set (dl_iter ops q) \<Longrightarrow> ep_node_ref (pg p) = Some n \<Longrightarrow> n \<in> set (nodes q) \<and> dl_value ops n = p"
proof -
  have "inj_on (dl_value ops) (set (nodes q))"
    using assms(2) unfolding lru_inv_def inj_on_def by (metis option.inject)
  then show "distinct (dl_iter ops q)"
    using assms unfolding dll_iter [OF assms(1)] by (simp add: distinct_map lru_inv_def)
  show "\<forall>p \<in> set (dl_iter ops q). ep_node_ref (pg p) \<noteq> None"
    and "p \<in> set (dl_iter ops q) \<Longrightarrow> ep_node_ref (pg p) = Some n \<Longrightarrow> n \<in> set (nodes q) \<and> dl_value ops n = p"
    using assms(2) unfolding dll_iter [OF assms(1)] by (auto simp: lru_inv_def)
qed

lemma lru_inv_frame:
  assumes "dllist_laws ops nodes" and "lru_inv ops nodes pg q" and "p \<notin> set (dl_iter ops q)"
  shows "lru_inv ops nodes (set_node_ref pg p r) q"
  using assms(2,3) unfolding dll_iter [OF assms(1)] by (auto simp: lru_inv_def)

lemma lru_push_spec:
  assumes L: "dllist_laws ops nodes" and inv: "lru_inv ops nodes pg q" and p: "ep_node_ref (pg p) = None"
  obtains q' n where "lru_push ops pg q p ef = Inr (q', n)" and "dl_value ops n = p"
    and "lru_inv ops nodes (set_node_ref pg p (Some n)) q'"
    and "dl_iter ops q' = (if ef then p # dl_iter ops q else dl_iter ops q @ [p])"
proof -
  obtain q' n where qn: "(if ef then dl_appendleft ops q p else dl_append ops q p) = (q', n)" by force
  have nodes: "nodes q' = (if ef then n # nodes q else nodes q @ [n])" "n \<notin> set (nodes q)" "dl_value ops n = p"
    using qn dll_append [OF L, of q p q' n] dll_appendleft [OF L, of q p q' n] by (auto split: if_splits)
  have "p \<notin> set (dl_iter ops q)" using lru_inv_values(2) [OF L inv] p by auto
  then have "lru_inv ops nodes (set_node_ref pg p (Some n)) q" by (rule lru_inv_frame [OF L inv])
  then have "lru_inv ops nodes (set_node_ref pg p (Some n)) q'"
    using nodes by (auto simp: lru_inv_def split: if_splits)
  then show ?thesis
    using qn nodes p by (intro that [of q' n]) (auto simp: lru_push_def dll_iter [OF L])
qed

lemma lru_remove_spec:
  assumes L: "dllist_laws ops nodes" and inv: "lru_inv ops nodes pg q"
    and p: "p \<in> set (dl_iter ops q)" "ep_node_ref (pg p) = Some n"
  obtains q' where "lru_remove ops pg q n = Inr (q', p)" and "lru_inv ops nodes (set_node_ref pg p None) q'"
    and "dl_iter ops q' = remove1 p (dl_iter ops q)"
proof -
  have n: "n \<in> set (nodes q)" "dl_value ops n = p" using lru_inv_values(3) [OF L inv p] by auto
  obtain q' where q': "dl_remove ops q n = Inr (q', p)" "nodes q' = remove1 n (nodes q)"
    using dll_remove [OF L n(1)] n(2) by auto
  have d: "distinct (nodes q)" and refs: "\<forall>n \<in> set (nodes q). ep_node_ref (pg (dl_value ops n)) = Some n"
    using inv by (auto simp: lru_inv_def)
  have inj: "inj_on (dl_value ops) (set (nodes q))" using refs unfolding inj_on_def by (metis option.inject)
  have "dl_iter ops q' = remove1 p (dl_iter ops q)"
    unfolding dll_iter [OF L] q'(2) using map_remove1_inj [OF inj n(1)] n(2) by simp
  moreover have "lru_inv ops nodes (set_node_ref pg p None) q'"
    using d refs p(2) n unfolding lru_inv_def q'(2) by (auto simp: distinct_remove1)
  ultimately show ?thesis using q'(1) p(2) n(2) by (intro that [of q']) (auto simp: lru_remove_def)
qed

lemma lru_pop_spec:
  assumes L: "dllist_laws ops nodes" and inv: "lru_inv ops nodes pg q"
  shows "case dl_iter ops q of [] \<Rightarrow> lru_pop ops pg q = Inl AssertionError
    | p # ps \<Rightarrow> \<exists>q'. lru_pop ops pg q = Inr (q', p) \<and> dl_iter ops q' = ps
        \<and> lru_inv ops nodes (set_node_ref pg p None) q'"
proof (cases "nodes q")
  case Nil
  then show ?thesis by (simp add: dll_iter [OF L] lru_pop_def dll_first [OF L])
next
  case (Cons n ns)
  let ?p = "dl_value ops n"
  have it: "dl_iter ops q = ?p # map (dl_value ops) ns" using Cons by (simp add: dll_iter [OF L])
  have "ep_node_ref (pg ?p) = Some n" using inv Cons by (simp add: lru_inv_def)
  then obtain q' where "lru_remove ops pg q n = Inr (q', ?p)" "lru_inv ops nodes (set_node_ref pg ?p None) q'"
    "dl_iter ops q' = remove1 ?p (dl_iter ops q)"
    using lru_remove_spec [OF L inv, of ?p n] it by auto
  then show ?thesis using it Cons by (simp add: lru_pop_def dll_first [OF L])
qed

interpretation lru: eviction_policy "lru_push ops" "lru_pop ops" "lru_remove ops" "dl_len ops" "dl_iter ops"
  "dl_value ops" "\<lambda>pg q. dllist_laws ops nodes \<and> lru_inv ops nodes pg q" for ops nodes
proof unfold_locales
  fix pg q p n ef q'
  assume inv: "dllist_laws ops nodes \<and> lru_inv ops nodes pg q"
  then have L: "dllist_laws ops nodes" and I: "lru_inv ops nodes pg q" by auto
  show "dl_len ops q = length (dl_iter ops q)" by (simp add: dll_len [OF L] dll_iter [OF L])
  show "distinct (dl_iter ops q) \<and> (\<forall>p \<in> set (dl_iter ops q). ep_node_ref (pg p) \<noteq> None)"
    using lru_inv_values(1,2) [OF L I] by blast
  show "\<exists>q' n xs ys. lru_push ops pg q p ef = Inr (q', n) \<and> dl_value ops n = p
    \<and> (dllist_laws ops nodes \<and> lru_inv ops nodes (set_node_ref pg p (Some n)) q')
    \<and> dl_iter ops q = xs @ ys \<and> dl_iter ops q' = xs @ p # ys" if unref: "ep_node_ref (pg p) = None"
  proof -
    obtain q' n where q': "lru_push ops pg q p ef = Inr (q', n)" "dl_value ops n = p"
      "lru_inv ops nodes (set_node_ref pg p (Some n)) q'"
      "dl_iter ops q' = (if ef then p # dl_iter ops q else dl_iter ops q @ [p])"
      by (rule lru_push_spec [OF L I unref, of ef])
    then show ?thesis
      using L by (intro exI [of _ q'] exI [of _ n] exI [of _ "if ef then [] else dl_iter ops q"]
          exI [of _ "if ef then dl_iter ops q else []"]) auto
  qed
  show "\<exists>q'. lru_remove ops pg q n = Inr (q', p)
    \<and> (dllist_laws ops nodes \<and> lru_inv ops nodes (set_node_ref pg p None) q') \<and> dl_iter ops q' = remove1 p (dl_iter ops q)"
    if "p \<in> set (dl_iter ops q)" "ep_node_ref (pg p) = Some n"
    using lru_remove_spec [OF L I that] L by metis
  show "dl_iter ops q = p # dl_iter ops q'
    \<and> (dllist_laws ops nodes \<and> lru_inv ops nodes (set_node_ref pg p None) q')" if "lru_pop ops pg q = Inr (q', p)"
    using lru_pop_spec [OF L I] that L by (auto split: list.splits)
qed

section \<open>The prioritized policy keeps the contract\<close>

definition prio_inv :: "('q, 'n) dllist_ops \<Rightarrow> ('q \<Rightarrow> 'n list) \<Rightarrow> 'n pages \<Rightarrow> 'q prio_policy \<Rightarrow> bool" where
  "prio_inv ops nodes pg d \<longleftrightarrow> sorted_wrt (<) (map fst d)
     \<and> (\<forall>(pr, q) \<in> set d. lru_inv ops nodes pg q \<and> (\<forall>p \<in> set (dl_iter ops q). ep_priority (pg p) = pr))"

lemma prio_inv_append:
  "prio_inv ops nodes pg (xs @ (pr, q) # ys) \<longleftrightarrow>
     prio_inv ops nodes pg (xs @ ys) \<and> (\<forall>k \<in> fst ` set xs. k < pr) \<and> (\<forall>k \<in> fst ` set ys. pr < k)
     \<and> lru_inv ops nodes pg q \<and> (\<forall>p \<in> set (dl_iter ops q). ep_priority (pg p) = pr)"
  by (auto simp: prio_inv_def sorted_wrt_append)

lemma prio_iter_simps [simp]:
  "prio_iter ops [] = []" "prio_iter ops ((pr, q) # d) = dl_iter ops q @ prio_iter ops d"
  "prio_iter ops (d @ d') = prio_iter ops d @ prio_iter ops d'"
  by (simp_all add: prio_iter_def)

lemma prio_inv_priorities:
  "prio_inv ops nodes pg d \<Longrightarrow> p \<in> set (prio_iter ops d) \<Longrightarrow>
    \<exists>q. (ep_priority (pg p), q) \<in> set d \<and> p \<in> set (dl_iter ops q)"
  by (fastforce simp: prio_inv_def prio_iter_def)

lemma prio_inv_frame:
  assumes "dllist_laws ops nodes" and "prio_inv ops nodes pg d" and "p \<notin> set (prio_iter ops d)"
  shows "prio_inv ops nodes (set_node_ref pg p r) d"
proof -
  have "lru_inv ops nodes (set_node_ref pg p r) q" "\<forall>p' \<in> set (dl_iter ops q). ep_priority (set_node_ref pg p r p') = pr"
    if "(pr, q) \<in> set d" for pr q
  proof -
    have "p \<notin> set (dl_iter ops q)" using that assms(3) by (auto simp: prio_iter_def)
    moreover have "lru_inv ops nodes pg q" "\<forall>p' \<in> set (dl_iter ops q). ep_priority (pg p') = pr"
      using that assms(2) by (auto simp: prio_inv_def)
    ultimately show "lru_inv ops nodes (set_node_ref pg p r) q"
      "\<forall>p' \<in> set (dl_iter ops q). ep_priority (set_node_ref pg p r p') = pr"
      using lru_inv_frame [OF assms(1)] by auto
  qed
  then show ?thesis using assms(2) by (auto simp: prio_inv_def)
qed

lemma prio_inv_values:
  assumes L: "dllist_laws ops nodes" and inv: "prio_inv ops nodes pg d"
  shows "distinct (prio_iter ops d)" and "\<forall>p \<in> set (prio_iter ops d). ep_node_ref (pg p) \<noteq> None"
proof -
  show "\<forall>p \<in> set (prio_iter ops d). ep_node_ref (pg p) \<noteq> None"
    using inv lru_inv_values(2) [OF L] by (fastforce simp: prio_inv_def prio_iter_def)
  show "distinct (prio_iter ops d)"
    using inv
  proof (induction d)
    case Nil
    then show ?case by simp
  next
    case (Cons x d)
    obtain pr q where x: "x = (pr, q)" by force
    then have I: "prio_inv ops nodes pg d" "\<forall>k \<in> fst ` set d. pr < k" "lru_inv ops nodes pg q"
      "\<forall>p \<in> set (dl_iter ops q). ep_priority (pg p) = pr"
      using Cons.prems prio_inv_append [of ops nodes pg "[]" pr q d] by auto
    have "set (dl_iter ops q) \<inter> set (prio_iter ops d) = {}"
      using I prio_inv_priorities [OF I(1)] by fastforce
    then show ?case using Cons.IH [OF I(1)] lru_inv_values(1) [OF L I(3)] x by simp
  qed
qed

lemma sorted_dict_split:
  assumes "sorted_wrt (<) (map fst d)" and "map_of d (k :: 'k :: linorder) = Some v"
  obtains xs ys where "d = xs @ (k, v) # ys" and "k \<notin> fst ` set xs" and "k \<notin> fst ` set ys"
proof -
  obtain xs ys where d: "d = xs @ (k, v) # ys" using map_of_SomeD [OF assms(2)] by (auto simp: in_set_conv_decomp)
  have "\<forall>x \<in> set xs. fst x < k" "\<forall>y \<in> set ys. k < fst y"
    using assms(1) unfolding d by (auto simp: sorted_wrt_append)
  then show ?thesis by (intro that [OF d]) fastforce+
qed

lemma dict_set_split: "k \<notin> fst ` set xs \<Longrightarrow> dict_set k v' (xs @ (k, v) # ys) = xs @ (k, v') # ys"
  by (induction xs) auto

lemma dict_del_split: "k \<notin> fst ` set xs \<Longrightarrow> dict_del k (xs @ (k, v) # ys) = xs @ ys"
  by (induction xs) auto

lemma map_of_split: "k \<notin> fst ` set xs \<Longrightarrow> map_of (xs @ (k, v) # ys) k = Some v"
  by (induction xs) auto

text \<open>Inserting a new key into a dictionary sorted by its keys and sorting it again.\<close>

lemma sort_new_key:
  assumes s: "sorted_wrt (<) (map fst d)" and new: "(k :: 'k :: linorder) \<notin> fst ` set d"
  obtains xs ys where "d = xs @ ys" and "sort_key fst (dict_set k v d) = xs @ (k, v) # ys"
    and "\<forall>x \<in> fst ` set xs. x < k" and "\<forall>y \<in> fst ` set ys. k < y"
proof -
  obtain xs ys where split: "d = xs @ ys" and ltx: "\<forall>x \<in> set xs. fst x < k" and lty: "\<forall>y \<in> set ys. k < fst y"
  proof (rule that [of "takeWhile (\<lambda>x. fst x < k) d" "dropWhile (\<lambda>x. fst x < k) d"])
    show "\<forall>x \<in> set (takeWhile (\<lambda>x. fst x < k) d). fst x < k" using set_takeWhileD by fast
    show "\<forall>y \<in> set (dropWhile (\<lambda>x. fst x < k) d). k < fst y"
      using s new
    proof (induction d)
      case (Cons x d)
      show ?case
      proof (cases "fst x < k")
        case False
        then have "k < fst x" using Cons.prems(2) by (simp add: not_less le_less)
        moreover have "\<forall>z \<in> set d. fst x < fst z" using Cons.prems(1) by simp
        ultimately show ?thesis using False by auto
      qed (use Cons in simp)
    qed simp
  qed simp
  have s2: "sorted_wrt (<) (map fst (xs @ (k, v) # ys))"
    using s ltx lty unfolding split by (auto simp: sorted_wrt_append)
  have "sort_key fst (d @ [(k, v)]) = xs @ (k, v) # ys"
  proof (rule properties_for_sort_key)
    show "mset (xs @ (k, v) # ys) = mset (d @ [(k, v)])" by (simp add: split)
    show "sorted (map fst (xs @ (k, v) # ys))" using s2 by (simp add: strict_sorted_iff)
    show "filter (\<lambda>y. fst x = fst y) (xs @ (k, v) # ys) = filter (\<lambda>y. fst x = fst y) (d @ [(k, v)])" for x
    proof (cases "fst x = k")
      case True
      then have "filter (\<lambda>y. fst x = fst y) xs = []" "filter (\<lambda>y. fst x = fst y) ys = []"
        using ltx lty by (auto simp: filter_empty_conv)
      then show ?thesis using True by (simp add: split)
    qed (simp add: split)
  qed
  then have "sort_key fst (dict_set k v d) = xs @ (k, v) # ys" using dict_set_new [OF new] by simp
  then show ?thesis using split ltx lty by (intro that) auto
qed

lemma get_policy_split:
  assumes L: "dllist_laws ops nodes" and inv: "prio_inv ops nodes pg d"
  obtains xs q ys where "get_policy ops d pr = xs @ (pr, q) # ys" and "prio_inv ops nodes pg (xs @ (pr, q) # ys)"
    and "pr \<notin> fst ` set xs" and "prio_iter ops d = prio_iter ops xs @ dl_iter ops q @ prio_iter ops ys"
    and "d = xs @ (pr, q) # ys \<or> map_of d pr = None"
proof (cases "map_of d pr")
  case None
  have s: "sorted_wrt (<) (map fst d)" using inv by (simp add: prio_inv_def)
  have "pr \<notin> fst ` set d" using None by (simp add: map_of_eq_None_iff)
  then obtain xs ys where xy: "d = xs @ ys" "sort_key fst (dict_set pr (dl_empty ops) d) = xs @ (pr, dl_empty ops) # ys"
    "\<forall>x \<in> fst ` set xs. x < pr" "\<forall>y \<in> fst ` set ys. pr < y"
    by (rule sort_new_key [OF s])
  have e: "dl_iter ops (dl_empty ops) = []" "lru_inv ops nodes pg (dl_empty ops)"
    by (simp_all add: dll_iter [OF L] dll_empty [OF L] lru_inv_def)
  then have "prio_inv ops nodes pg (xs @ (pr, dl_empty ops) # ys)"
    using inv xy by (simp add: prio_inv_append)
  then show ?thesis
    using None xy e by (intro that [of xs "dl_empty ops" ys]) (auto simp: get_policy_def)
next
  case (Some q)
  have s: "sorted_wrt (<) (map fst d)" using inv by (simp add: prio_inv_def)
  obtain xs ys where "d = xs @ (pr, q) # ys" "pr \<notin> fst ` set xs" "pr \<notin> fst ` set ys"
    by (rule sorted_dict_split [OF s Some])
  then show ?thesis using Some inv by (intro that [of xs q ys]) (auto simp: get_policy_def)
qed

lemma prio_push_spec:
  assumes L: "dllist_laws ops nodes" and inv: "prio_inv ops nodes pg d" and p: "ep_node_ref (pg p) = None"
  obtains xs q ys q' n where "prio_push ops pg d p ef = Inr (xs @ (ep_priority (pg p), q') # ys, n)"
    and "dl_value ops n = p"
    and "prio_inv ops nodes (set_node_ref pg p (Some n)) (xs @ (ep_priority (pg p), q') # ys)"
    and "dl_iter ops q' = (if ef then p # dl_iter ops q else dl_iter ops q @ [p])"
    and "prio_iter ops d = prio_iter ops xs @ dl_iter ops q @ prio_iter ops ys"
    and "d = xs @ (ep_priority (pg p), q) # ys \<or> map_of d (ep_priority (pg p)) = None"
proof -
  let ?pr = "ep_priority (pg p)"
  obtain xs q ys where g: "get_policy ops d ?pr = xs @ (?pr, q) # ys" "prio_inv ops nodes pg (xs @ (?pr, q) # ys)"
    "?pr \<notin> fst ` set xs" "prio_iter ops d = prio_iter ops xs @ dl_iter ops q @ prio_iter ops ys"
    "d = xs @ (?pr, q) # ys \<or> map_of d ?pr = None"
    by (rule get_policy_split [OF L inv])
  have I: "prio_inv ops nodes pg (xs @ ys)" "lru_inv ops nodes pg q" using g(2) by (auto simp: prio_inv_append)
  obtain q' n where q': "lru_push ops pg q p ef = Inr (q', n)" "dl_value ops n = p"
    "lru_inv ops nodes (set_node_ref pg p (Some n)) q'"
    "dl_iter ops q' = (if ef then p # dl_iter ops q else dl_iter ops q @ [p])"
    by (rule lru_push_spec [OF L I(2) p])
  have "p \<notin> set (prio_iter ops (xs @ ys))" using prio_inv_values(2) [OF L I(1)] p by blast
  then have "prio_inv ops nodes (set_node_ref pg p (Some n)) (xs @ ys)" by (rule prio_inv_frame [OF L I(1)])
  moreover have "\<forall>p' \<in> set (dl_iter ops q'). ep_priority (set_node_ref pg p (Some n) p') = ?pr"
    using g(2) q'(4) by (auto simp: prio_inv_append split: if_splits)
  ultimately have "prio_inv ops nodes (set_node_ref pg p (Some n)) (xs @ (?pr, q') # ys)"
    using g(2) q'(3) by (simp add: prio_inv_append)
  moreover have "prio_push ops pg d p ef = Inr (xs @ (?pr, q') # ys, n)"
  proof -
    have "map_of (get_policy ops d ?pr) ?pr = Some q" unfolding g(1) by (rule map_of_split [OF g(3)])
    moreover have "dict_set ?pr q' (get_policy ops d ?pr) = xs @ (?pr, q') # ys"
      unfolding g(1) by (rule dict_set_split [OF g(3)])
    ultimately show ?thesis using q'(1) by (simp add: prio_push_def Let_def)
  qed
  ultimately show ?thesis using q' g by (intro that [of xs q' ys n q]) auto
qed

lemma prio_remove_spec:
  assumes L: "dllist_laws ops nodes" and inv: "prio_inv ops nodes pg d"
    and p: "p \<in> set (prio_iter ops d)" "ep_node_ref (pg p) = Some n"
  obtains d' where "prio_remove ops pg d n = Inr (d', p)" and "prio_inv ops nodes (set_node_ref pg p None) d'"
    and "prio_iter ops d' = remove1 p (prio_iter ops d)"
proof -
  let ?pr = "ep_priority (pg p)"
  obtain q0 where "(?pr, q0) \<in> set d" "p \<in> set (dl_iter ops q0)" using prio_inv_priorities [OF inv p(1)] by blast
  moreover have s: "sorted_wrt (<) (map fst d)" using inv by (simp add: prio_inv_def)
  ultimately obtain q where q: "map_of d ?pr = Some q" "p \<in> set (dl_iter ops q)"
    using strict_sorted_iff [of "map fst d"] map_of_is_SomeI [of d ?pr q0] by blast
  obtain xs ys where d: "d = xs @ (?pr, q) # ys" "?pr \<notin> fst ` set xs" "?pr \<notin> fst ` set ys"
    by (rule sorted_dict_split [OF s q(1)])
  have I: "prio_inv ops nodes pg (xs @ ys)" "lru_inv ops nodes pg q" using inv d by (auto simp: prio_inv_append)
  have v: "dl_value ops n = p" using lru_inv_values(3) [OF L I(2) q(2) p(2)] by simp
  obtain q' where q': "lru_remove ops pg q n = Inr (q', p)" "lru_inv ops nodes (set_node_ref pg p None) q'"
    "dl_iter ops q' = remove1 p (dl_iter ops q)"
    by (rule lru_remove_spec [OF L I(2) q(2) p(2)])
  have dist: "distinct (prio_iter ops d)" by (rule prio_inv_values(1) [OF L inv])
  then have np: "p \<notin> set (prio_iter ops xs)" "p \<notin> set (prio_iter ops ys)" using d(1) q(2) by auto
  then have fr: "prio_inv ops nodes (set_node_ref pg p None) (xs @ ys)" by (intro prio_inv_frame [OF L I(1)]) simp
  moreover have "\<forall>p' \<in> set (dl_iter ops q'). ep_priority (set_node_ref pg p None p') = ?pr"
    using inv d q'(3) notin_set_remove1 by (fastforce simp: prio_inv_append)
  ultimately have inv': "prio_inv ops nodes (set_node_ref pg p None) (xs @ (?pr, q') # ys)"
    using inv d q'(2) by (simp add: prio_inv_append)
  have it: "remove1 p (prio_iter ops d) = prio_iter ops xs @ dl_iter ops q' @ prio_iter ops ys"
    unfolding d(1) using np q(2) q'(3) by (simp add: remove1_append)
  have r: "prio_remove ops pg d n = Inr (if dl_iter ops q' = [] then xs @ ys else xs @ (?pr, q') # ys, p)"
    using q(1) q'(1) v d
    by (simp add: prio_remove_def Let_def dict_set_split dict_del_split dll_len [OF L] dll_iter [OF L])
  show ?thesis
  proof (cases "dl_iter ops q' = []")
    case True
    then show ?thesis using r fr it by (intro that [of "xs @ ys"]) auto
  next
    case False
    then show ?thesis using r inv' it by (intro that [of "xs @ (?pr, q') # ys"]) auto
  qed
qed

lemma prio_pop_spec:
  assumes L: "dllist_laws ops nodes" and inv: "prio_inv ops nodes pg ((pr, q) # d)"
  shows "case dl_iter ops q of [] \<Rightarrow> prio_pop ops pg ((pr, q) # d) = Inl AssertionError
    | p # ps \<Rightarrow> \<exists>q'. prio_pop ops pg ((pr, q) # d) = Inr ((pr, q') # d, p) \<and> dl_iter ops q' = ps
        \<and> prio_inv ops nodes (set_node_ref pg p None) ((pr, q') # d)"
proof (cases "dl_iter ops q")
  case Nil
  have "lru_inv ops nodes pg q" using inv prio_inv_append [of ops nodes pg "[]" pr q d] by simp
  then show ?thesis using lru_pop_spec [OF L, of pg q] Nil by (simp add: prio_pop_def)
next
  case (Cons p ps)
  have I: "lru_inv ops nodes pg q" "prio_inv ops nodes pg d"
    using inv prio_inv_append [of ops nodes pg "[]" pr q d] by auto
  obtain q' where q': "lru_pop ops pg q = Inr (q', p)" "dl_iter ops q' = ps" "lru_inv ops nodes (set_node_ref pg p None) q'"
    using lru_pop_spec [OF L I(1)] Cons by auto
  have "p \<notin> set (prio_iter ops d)" using prio_inv_values(1) [OF L inv] Cons by simp
  then have "prio_inv ops nodes (set_node_ref pg p None) d" by (rule prio_inv_frame [OF L I(2)])
  then have "prio_inv ops nodes (set_node_ref pg p None) ((pr, q') # d)"
    using inv Cons q'(2,3) prio_inv_append [of ops nodes _ "[]" pr _ d] by auto
  then show ?thesis using Cons q' by (simp add: prio_pop_def)
qed

interpretation prio: eviction_policy "prio_push ops" "prio_pop ops" "prio_remove ops" "prio_len ops" "prio_iter ops"
  "dl_value ops" "\<lambda>pg d. dllist_laws ops nodes \<and> prio_inv ops nodes pg d" for ops nodes
proof unfold_locales
  fix pg d p n ef d'
  assume inv: "dllist_laws ops nodes \<and> prio_inv ops nodes pg d"
  then have L: "dllist_laws ops nodes" and I: "prio_inv ops nodes pg d" by auto
  show "prio_len ops d = length (prio_iter ops d)"
    by (simp add: prio_len_def prio_iter_def length_concat dll_len [OF L] dll_iter [OF L] comp_def case_prod_unfold)
  show "distinct (prio_iter ops d) \<and> (\<forall>p \<in> set (prio_iter ops d). ep_node_ref (pg p) \<noteq> None)"
    using prio_inv_values [OF L I] by blast
  show "\<exists>d' n xs ys. prio_push ops pg d p ef = Inr (d', n) \<and> dl_value ops n = p
    \<and> (dllist_laws ops nodes \<and> prio_inv ops nodes (set_node_ref pg p (Some n)) d')
    \<and> prio_iter ops d = xs @ ys \<and> prio_iter ops d' = xs @ p # ys" if unref: "ep_node_ref (pg p) = None"
  proof -
    obtain xs q ys q' n where q': "prio_push ops pg d p ef = Inr (xs @ (ep_priority (pg p), q') # ys, n)"
      "dl_value ops n = p" "prio_inv ops nodes (set_node_ref pg p (Some n)) (xs @ (ep_priority (pg p), q') # ys)"
      "dl_iter ops q' = (if ef then p # dl_iter ops q else dl_iter ops q @ [p])"
      "prio_iter ops d = prio_iter ops xs @ dl_iter ops q @ prio_iter ops ys"
      by (rule prio_push_spec [OF L I unref, of ef])
    let ?d = "xs @ (ep_priority (pg p), q') # ys"
    show ?thesis using q' L
      by (intro exI [of _ ?d] exI [of _ n] exI [of _ "prio_iter ops xs @ (if ef then [] else dl_iter ops q)"]
          exI [of _ "(if ef then dl_iter ops q else []) @ prio_iter ops ys"]) auto
  qed
  show "\<exists>d'. prio_remove ops pg d n = Inr (d', p)
    \<and> (dllist_laws ops nodes \<and> prio_inv ops nodes (set_node_ref pg p None) d') \<and> prio_iter ops d' = remove1 p (prio_iter ops d)"
    if "p \<in> set (prio_iter ops d)" "ep_node_ref (pg p) = Some n"
    using prio_remove_spec [OF L I that] L by metis
  show "prio_iter ops d = p # prio_iter ops d'
    \<and> (dllist_laws ops nodes \<and> prio_inv ops nodes (set_node_ref pg p None) d')" if pop: "prio_pop ops pg d = Inr (d', p)"
  proof (cases d)
    case Nil
    then show ?thesis using pop by (simp add: prio_pop_def)
  next
    case (Cons x rest)
    obtain pr q where "x = (pr, q)" by force
    with Cons show ?thesis
      using prio_pop_spec [OF L, of pg pr q rest] I pop L by (auto split: list.splits)
  qed
qed

section \<open>The invariant of the controller\<close>

text \<open>What a policy holds, per priority; and the size of the queue that \<open>pop\<close> takes from.\<close>

definition policy_abs :: "('q, 'n) dllist_ops \<Rightarrow> 'q prio_policy \<Rightarrow> (int \<times> nat list) list" where
  "policy_abs ops d = map (\<lambda>(pr, q). (pr, dl_iter ops q)) d"

definition front_len :: "(int \<times> nat list) list \<Rightarrow> nat" where
  "front_len a = (case a of [] \<Rightarrow> 0 | (_, ps) # _ \<Rightarrow> length ps)"

definition in_group :: "'n pages \<Rightarrow> 'q eviction_controller \<Rightarrow> nat \<Rightarrow> nat \<Rightarrow> bool" where
  "in_group pg ec i p \<longleftrightarrow> ep_cache_level (pg p) = ec_cache_level ec
     \<and> ep_life_cycle (pg p) < length (ec_life_cycle_grouping ec)
     \<and> ec_life_cycle_grouping ec ! ep_life_cycle (pg p) = i"

definition ec_inv :: "('q, 'n) dllist_ops \<Rightarrow> ('q \<Rightarrow> 'n list) \<Rightarrow> 'n pages \<Rightarrow> 'q eviction_controller \<Rightarrow> bool" where
  "ec_inv ops nodes pg ec \<longleftrightarrow> dllist_laws ops nodes
     \<and> (\<forall>i < num_pool_groups ec. prio_inv ops nodes pg (ec_policies ec ! i)
          \<and> (\<forall>p \<in> set (prio_iter ops (ec_policies ec ! i)). in_group pg ec i p))
     \<and> (\<forall>i \<in> set (ec_life_cycle_grouping ec). i < num_pool_groups ec)"

lemma ec_invD:
  assumes "ec_inv ops nodes pg ec"
  shows ec_inv_laws: "dllist_laws ops nodes"
    and ec_inv_prio: "i < num_pool_groups ec \<Longrightarrow> prio_inv ops nodes pg (ec_policies ec ! i)"
    and ec_inv_group: "i < num_pool_groups ec \<Longrightarrow> p \<in> set (prio_iter ops (ec_policies ec ! i)) \<Longrightarrow> in_group pg ec i p"
    and ec_inv_grouping: "lc < length (ec_life_cycle_grouping ec) \<Longrightarrow> ec_life_cycle_grouping ec ! lc < num_pool_groups ec"
  using assms unfolding ec_inv_def by auto

lemma prio_iter_abs: "prio_iter ops d = concat (map snd (policy_abs ops d))"
  by (simp add: prio_iter_def policy_abs_def comp_def case_prod_unfold)

lemma in_group_node_ref [simp]: "in_group (set_node_ref pg q r) ec i p \<longleftrightarrow> in_group pg ec i p"
  by (simp add: in_group_def)

lemma in_group_policies [simp]: "in_group pg (ec\<lparr>ec_policies := ds\<rparr>) i p \<longleftrightarrow> in_group pg ec i p"
  by (simp add: in_group_def)

lemma in_group_unique: "in_group pg ec i p \<Longrightarrow> in_group pg ec j p \<Longrightarrow> i = j"
  by (simp add: in_group_def)

text \<open>One policy changes together with the \<open>node_ref\<close> of one page of its pool group.\<close>

lemma ec_inv_update:
  assumes inv: "ec_inv ops nodes pg ec" and i: "i < num_pool_groups ec" and p: "in_group pg ec i p"
    and d: "prio_inv ops nodes (set_node_ref pg p r) d" "set (prio_iter ops d) \<subseteq> insert p (set (prio_iter ops (ec_policies ec ! i)))"
  shows "ec_inv ops nodes (set_node_ref pg p r) (ec\<lparr>ec_policies := (ec_policies ec)[i := d]\<rparr>)"
proof -
  have "prio_inv ops nodes (set_node_ref pg p r) (ec_policies ec ! j)"
    if j: "j < num_pool_groups ec" "j \<noteq> i" for j
  proof -
    have "p \<notin> set (prio_iter ops (ec_policies ec ! j))"
      using ec_inv_group [OF inv j(1)] in_group_unique [OF p] j(2) by blast
    then show ?thesis by (rule prio_inv_frame [OF ec_inv_laws [OF inv] ec_inv_prio [OF inv j(1)]])
  qed
  then show ?thesis
    using inv i p d ec_inv_group [OF inv] unfolding ec_inv_def num_pool_groups_def
    by (auto simp: nth_list_update num_pool_groups_def)
qed

lemma schedule_spec:
  assumes inv: "ec_inv ops nodes pg ec" and p: "ep_node_ref (pg p) = None" "in_group pg ec i p"
  obtains n xs q ys q' where
    "schedule_for_eviction ops (pg, ec) p ef =
       Inr (set_node_ref pg p (Some n), ec\<lparr>ec_policies := (ec_policies ec)[i := xs @ (ep_priority (pg p), q') # ys]\<rparr>)"
    and "ec_inv ops nodes (set_node_ref pg p (Some n)) (ec\<lparr>ec_policies := (ec_policies ec)[i := xs @ (ep_priority (pg p), q') # ys]\<rparr>)"
    and "dl_value ops n = p" and "dl_iter ops q' = (if ef then p # dl_iter ops q else dl_iter ops q @ [p])"
    and "prio_iter ops (ec_policies ec ! i) = prio_iter ops xs @ dl_iter ops q @ prio_iter ops ys"
    and "ec_policies ec ! i = xs @ (ep_priority (pg p), q) # ys \<or> map_of (ec_policies ec ! i) (ep_priority (pg p)) = None"
    and "i < num_pool_groups ec"
proof -
  note L = ec_inv_laws [OF inv]
  have i: "i < num_pool_groups ec" "ec_life_cycle_grouping ec ! ep_life_cycle (pg p) = i"
    "ep_life_cycle (pg p) < length (ec_life_cycle_grouping ec)"
    using p(2) ec_inv_grouping [OF inv] by (auto simp: in_group_def)
  obtain xs q ys q' n where d': "prio_push ops pg (ec_policies ec ! i) p ef = Inr (xs @ (ep_priority (pg p), q') # ys, n)"
    "dl_value ops n = p" "prio_inv ops nodes (set_node_ref pg p (Some n)) (xs @ (ep_priority (pg p), q') # ys)"
    "dl_iter ops q' = (if ef then p # dl_iter ops q else dl_iter ops q @ [p])"
    "prio_iter ops (ec_policies ec ! i) = prio_iter ops xs @ dl_iter ops q @ prio_iter ops ys"
    "ec_policies ec ! i = xs @ (ep_priority (pg p), q) # ys \<or> map_of (ec_policies ec ! i) (ep_priority (pg p)) = None"
    by (rule prio_push_spec [OF L ec_inv_prio [OF inv i(1)] p(1), of ef])
  have "ec_inv ops nodes (set_node_ref pg p (Some n)) (ec\<lparr>ec_policies := (ec_policies ec)[i := xs @ (ep_priority (pg p), q') # ys]\<rparr>)"
    using d' by (intro ec_inv_update [OF inv i(1) p(2) d'(3)]) (auto split: if_splits)
  moreover have "schedule_for_eviction ops (pg, ec) p ef =
      Inr (set_node_ref pg p (Some n), ec\<lparr>ec_policies := (ec_policies ec)[i := xs @ (ep_priority (pg p), q') # ys]\<rparr>)"
    using d' i p by (simp add: schedule_for_eviction_def ec_get_policy_def in_group_def num_pool_groups_def)
  ultimately show ?thesis using d' i(1) by (intro that) auto
qed

lemma ec_remove_spec:
  assumes inv: "ec_inv ops nodes pg ec" and i: "i < num_pool_groups ec"
    and p: "p \<in> set (prio_iter ops (ec_policies ec ! i))" "ep_node_ref (pg p) = Some n"
  obtains d' where "ec_remove ops (pg, ec) n = Inr (set_node_ref pg p None, ec\<lparr>ec_policies := (ec_policies ec)[i := d']\<rparr>)"
    and "ec_inv ops nodes (set_node_ref pg p None) (ec\<lparr>ec_policies := (ec_policies ec)[i := d']\<rparr>)"
    and "prio_iter ops d' = remove1 p (prio_iter ops (ec_policies ec ! i))" and "dl_value ops n = p"
proof -
  note L = ec_inv_laws [OF inv] and I = ec_inv_prio [OF inv i] and G = ec_inv_group [OF inv i p(1)]
  obtain d' where d': "prio_remove ops pg (ec_policies ec ! i) n = Inr (d', p)"
    "prio_inv ops nodes (set_node_ref pg p None) d'" "prio_iter ops d' = remove1 p (prio_iter ops (ec_policies ec ! i))"
    by (rule prio_remove_spec [OF L I p])
  obtain q where q: "(ep_priority (pg p), q) \<in> set (ec_policies ec ! i)" "p \<in> set (dl_iter ops q)"
    using prio_inv_priorities [OF I p(1)] by blast
  then have lru: "lru_inv ops nodes pg q" using I by (auto simp: prio_inv_def)
  have v: "dl_value ops n = p" using lru_inv_values(3) [OF L lru q(2) p(2)] by blast
  have "ec_inv ops nodes (set_node_ref pg p None) (ec\<lparr>ec_policies := (ec_policies ec)[i := d']\<rparr>)"
    using d'(3) set_remove1_subset by (intro ec_inv_update [OF inv i G d'(2)]) force
  moreover have "ec_remove ops (pg, ec) n = Inr (set_node_ref pg p None, ec\<lparr>ec_policies := (ec_policies ec)[i := d']\<rparr>)"
    using d'(1) v p(2) G i by (simp add: ec_remove_def ec_get_policy_def in_group_def num_pool_groups_def)
  ultimately show ?thesis using d'(3) v by (intro that)
qed

section \<open>Eviction\<close>

definition prepend :: "nat list \<Rightarrow> (int \<times> nat list) list \<Rightarrow> (int \<times> nat list) list" where
  "prepend ps a = (case a of [] \<Rightarrow> [] | (pr, qs) # r \<Rightarrow> (pr, ps @ qs) # r)"

text \<open>
  \<open>popped\<close> relates the state before \<open>evict\<close> to a state during it: the pages collected for a pool group
  are what is missing at the front of its first queue.
\<close>

definition popped :: "('q, 'n) dllist_ops \<Rightarrow> ('q \<Rightarrow> 'n list) \<Rightarrow> 'q eviction_controller \<Rightarrow> ('q, 'n) evict_state \<Rightarrow> bool" where
  "popped ops nodes ec0 st \<longleftrightarrow> (case st of (pg, ec, ret) \<Rightarrow>
     ec_inv ops nodes pg ec \<and> length ret = num_pool_groups ec0
   \<and> ec = ec0\<lparr>ec_policies := ec_policies ec\<rparr> \<and> num_pool_groups ec = num_pool_groups ec0
   \<and> distinct (concat ret)
   \<and> (\<forall>i < num_pool_groups ec0.
        policy_abs ops (ec_policies ec0 ! i) = prepend (ret ! i) (policy_abs ops (ec_policies ec ! i))
      \<and> (\<forall>p \<in> set (ret ! i). in_group pg ec i p \<and> ep_node_ref (pg p) = None
           \<and> ec_policies ec ! i \<noteq> [] \<and> ep_priority (pg p) = fst (hd (ec_policies ec ! i)))))"

lemma poppedD:
  assumes "popped ops nodes ec0 (pg, ec, ret)"
  shows popped_inv: "ec_inv ops nodes pg ec" and popped_length: "length ret = num_pool_groups ec0"
    and popped_ec: "ec = ec0\<lparr>ec_policies := ec_policies ec\<rparr>" and popped_groups: "num_pool_groups ec = num_pool_groups ec0"
    and popped_distinct: "distinct (concat ret)"
    and popped_abs: "i < num_pool_groups ec0 \<Longrightarrow>
      policy_abs ops (ec_policies ec0 ! i) = prepend (ret ! i) (policy_abs ops (ec_policies ec ! i))"
    and popped_pages: "i < num_pool_groups ec0 \<Longrightarrow> p \<in> set (ret ! i) \<Longrightarrow> in_group pg ec i p \<and> ep_node_ref (pg p) = None
      \<and> ec_policies ec ! i \<noteq> [] \<and> ep_priority (pg p) = fst (hd (ec_policies ec ! i))"
  using assms unfolding popped_def by auto

lemma poppedI:
  assumes "ec_inv ops nodes pg ec" and "length ret = num_pool_groups ec0"
    and "ec = ec0\<lparr>ec_policies := ec_policies ec\<rparr>" and "num_pool_groups ec = num_pool_groups ec0"
    and "distinct (concat ret)"
    and "\<And>i. i < num_pool_groups ec0 \<Longrightarrow>
      policy_abs ops (ec_policies ec0 ! i) = prepend (ret ! i) (policy_abs ops (ec_policies ec ! i))"
    and "\<And>i p. i < num_pool_groups ec0 \<Longrightarrow> p \<in> set (ret ! i) \<Longrightarrow> in_group pg ec i p \<and> ep_node_ref (pg p) = None
      \<and> ec_policies ec ! i \<noteq> [] \<and> ep_priority (pg p) = fst (hd (ec_policies ec ! i))"
  shows "popped ops nodes ec0 (pg, ec, ret)"
  using assms unfolding popped_def prod.case by blast

lemma popped_start:
  "ec_inv ops nodes pg ec \<Longrightarrow> popped ops nodes ec (pg, ec, replicate (num_pool_groups ec) [])"
  by (auto simp: popped_def prepend_def split: list.splits)

lemma popped_iter:
  assumes "popped ops nodes ec0 (pg, ec, ret)" and i: "i < num_pool_groups ec0"
  shows "prio_iter ops (ec_policies ec0 ! i) = ret ! i @ prio_iter ops (ec_policies ec ! i)"
proof (cases "ec_policies ec ! i")
  case Nil
  then have "ret ! i = []" using popped_pages [OF assms] by (cases "ret ! i") auto
  then show ?thesis using Nil popped_abs [OF assms] by (simp add: prio_iter_abs policy_abs_def prepend_def)
next
  case (Cons x d)
  then show ?thesis
    using popped_abs [OF assms] by (cases x) (simp add: prio_iter_abs policy_abs_def prepend_def)
qed

lemma popped_unref:
  assumes "popped ops nodes ec0 (pg, ec, ret)" and "p \<in> set (concat ret)"
  shows "ep_node_ref (pg p) = None"
proof -
  obtain xs where "xs \<in> set ret" "p \<in> set xs" using assms(2) by auto
  then obtain i where "i < num_pool_groups ec0" "p \<in> set (ret ! i)"
    using popped_length [OF assms(1)] by (metis in_set_conv_nth)
  then show ?thesis using popped_pages [OF assms(1)] by blast
qed

lemma popped_pop:
  assumes P: "popped ops nodes ec0 (pg, ec, ret)" and i: "i < num_pool_groups ec0"
    and front: "ec_policies ec ! i = (pr, q) # d" "dl_iter ops q = p # ps"
  obtains q' where "prio_pop ops pg (ec_policies ec ! i) = Inr ((pr, q') # d, p)"
    and "popped ops nodes ec0 (set_node_ref pg p None, ec\<lparr>ec_policies := (ec_policies ec)[i := (pr, q') # d]\<rparr>,
      ret[i := ret ! i @ [p]])"
proof -
  note inv = popped_inv [OF P] and n = popped_groups [OF P] and len = popped_length [OF P]
  have i': "i < num_pool_groups ec" using i n by simp
  note L = ec_inv_laws [OF inv] and I = ec_inv_prio [OF inv i']
  have p: "p \<in> set (prio_iter ops (ec_policies ec ! i))" using front by simp
  obtain q' where q': "prio_pop ops pg (ec_policies ec ! i) = Inr ((pr, q') # d, p)" "dl_iter ops q' = ps"
    "prio_inv ops nodes (set_node_ref pg p None) ((pr, q') # d)"
    using prio_pop_spec [OF L, of pg pr q d] I front by auto
  let ?ec = "ec\<lparr>ec_policies := (ec_policies ec)[i := (pr, q') # d]\<rparr>" and ?pg = "set_node_ref pg p None"
  let ?ret = "ret[i := ret ! i @ [p]]"
  have G: "in_group pg ec i p" using ec_inv_group [OF inv i' p] .
  have inv': "ec_inv ops nodes ?pg ?ec"
    using front q'(2) by (intro ec_inv_update [OF inv i' G q'(3)]) auto
  have "ep_node_ref (pg p) \<noteq> None" using prio_inv_values(2) [OF L I] p by blast
  then have "p \<notin> set (concat ret)" using popped_unref [OF P, of p] by metis
  moreover have "mset (concat ?ret) = mset (p # concat ret)"
    using mset_concat_update [of i ret p] i len by simp
  ultimately have d1: "distinct (concat ?ret)"
    using popped_distinct [OF P] mset_eq_imp_distinct_iff by (metis distinct.simps(2))
  have a1: "policy_abs ops (ec_policies ec0 ! j) = prepend (?ret ! j) (policy_abs ops (ec_policies ?ec ! j))"
    if "j < num_pool_groups ec0" for j
    using popped_abs [OF P that] front q'(2) i' that len n
    by (cases "j = i") (auto simp: policy_abs_def prepend_def num_pool_groups_def)
  have p1: "in_group ?pg ?ec j p' \<and> ep_node_ref (?pg p') = None
      \<and> ec_policies ?ec ! j \<noteq> [] \<and> ep_priority (?pg p') = fst (hd (ec_policies ?ec ! j))"
    if j: "j < num_pool_groups ec0" and p': "p' \<in> set (?ret ! j)" for j p'
  proof (cases "j = i")
    case True
    have "ep_priority (pg p) = pr" using I front by (auto simp: prio_inv_def)
    moreover have "p' = p \<or> p' \<in> set (ret ! i)" using p' True len i by auto
    ultimately show ?thesis
      using True G popped_pages [OF P i, of p'] front i' by (auto simp: num_pool_groups_def)
  next
    case False
    then show ?thesis using popped_pages [OF P j, of p'] p' by auto
  qed
  have e1: "?ec = ec0\<lparr>ec_policies := ec_policies ?ec\<rparr>"
  proof -
    obtain ds where "ec = ec0\<lparr>ec_policies := ds\<rparr>" using popped_ec [OF P] by blast
    then show ?thesis by simp
  qed
  have "popped ops nodes ec0 (?pg, ?ec, ?ret)"
    by (rule poppedI [OF inv' _ e1 _ d1 a1 p1]) (use len n in \<open>simp_all add: num_pool_groups_def\<close>)
  then show ?thesis using that q'(1) by blast
qed

declare evict_while.simps [simp del]

lemma evict_while_unfold:
  assumes "i < length ret" and "i < length (ec_policies ec)"
  shows evict_while_done: "\<not> length (ret ! i) < want \<Longrightarrow> evict_while ops i want (pg, ec, ret) = ((pg, ec, ret), None)"
    and evict_while_raise: "length (ret ! i) < want \<Longrightarrow> prio_pop ops pg (ec_policies ec ! i) = Inl e \<Longrightarrow>
      evict_while ops i want (pg, ec, ret) = ((pg, ec, ret), Some e)"
    and evict_while_pop: "length (ret ! i) < want \<Longrightarrow> length ret = length (ec_policies ec) \<Longrightarrow>
      prio_pop ops pg (ec_policies ec ! i) = Inr (d', p) \<Longrightarrow>
      evict_while ops i want (pg, ec, ret) = evict_while ops i want
        (set_node_ref pg p None, ec\<lparr>ec_policies := (ec_policies ec)[i := d']\<rparr>, ret[i := ret ! i @ [p]])"
  using assms by (simp_all add: evict_while.simps [of ops i want pg ec ret] Let_def evict_dependencies_def
      num_pool_groups_def map2_append_replicate)

lemma popped_front_len:
  assumes "popped ops nodes ec0 (pg, ec, ret)" and "i < num_pool_groups ec0"
  shows "length (ret ! i) \<le> front_len (policy_abs ops (ec_policies ec0 ! i))"
proof (cases "ec_policies ec ! i")
  case Nil
  then have "ret ! i = []" using popped_pages [OF assms] by (cases "ret ! i") auto
  then show ?thesis by simp
next
  case (Cons x d)
  then show ?thesis using popped_abs [OF assms] by (cases x) (simp add: front_len_def prepend_def policy_abs_def)
qed

lemma evict_while_spec:
  assumes "popped ops nodes ec0 (pg, ec, ret)" and "i < num_pool_groups ec0"
  shows "\<exists>pg' ec' ret' r. evict_while ops i want (pg, ec, ret) = ((pg', ec', ret'), r)
    \<and> popped ops nodes ec0 (pg', ec', ret') \<and> (\<forall>j. j \<noteq> i \<longrightarrow> ret' ! j = ret ! j)
    \<and> (if want \<le> front_len (policy_abs ops (ec_policies ec0 ! i)) then r = None \<and> length (ret' ! i) = max want (length (ret ! i))
       else r = Some (if ec_policies ec0 ! i = [] then StopIteration else AssertionError))"
  using assms(1)
proof (induction "want - length (ret ! i)" arbitrary: pg ec ret)
  case 0
  note P = 0(2)
  have idx: "i < length ret" "i < length (ec_policies ec)"
    using popped_length [OF P] popped_groups [OF P] assms(2) by (auto simp: num_pool_groups_def)
  have "evict_while ops i want (pg, ec, ret) = ((pg, ec, ret), None)"
    using 0(1) by (intro evict_while_done [OF idx]) simp
  then show ?case using P 0(1) popped_front_len [OF P assms(2)] by auto
next
  case (Suc k)
  note P = Suc(3)
  let ?F = "front_len (policy_abs ops (ec_policies ec0 ! i))"
  have idx: "i < length ret" "i < length (ec_policies ec)" and more: "length (ret ! i) < want"
    using popped_length [OF P] popped_groups [OF P] assms(2) Suc(2) by (auto simp: num_pool_groups_def)
  note inv = popped_inv [OF P] and A = popped_abs [OF P assms(2)]
  have stuck: ?case if e: "prio_pop ops pg (ec_policies ec ! i) = Inl e" "?F = length (ret ! i)"
      "e = (if ec_policies ec0 ! i = [] then StopIteration else AssertionError)" for e
  proof -
    have "evict_while ops i want (pg, ec, ret) = ((pg, ec, ret), Some e)"
      by (rule evict_while_raise [OF idx more e(1)])
    then show ?thesis using P more e(2,3) by (intro exI [of _ pg] exI [of _ ec] exI [of _ ret]) auto
  qed
  show ?case
  proof (cases "ec_policies ec ! i")
    case Nil
    then have "ret ! i = []" using popped_pages [OF P assms(2)] by (cases "ret ! i") auto
    moreover have "ec_policies ec0 ! i = []" using A Nil by (simp add: policy_abs_def prepend_def)
    ultimately show ?thesis using Nil by (intro stuck [of StopIteration]) (auto simp: prio_pop_def front_len_def policy_abs_def)
  next
    case (Cons x d)
    obtain pr q where x: "ec_policies ec ! i = (pr, q) # d" using Cons by (cases x) auto
    have F: "?F = length (ret ! i) + length (dl_iter ops q)" and ne: "ec_policies ec0 ! i \<noteq> []"
      using A x by (auto simp: front_len_def prepend_def policy_abs_def)
    show ?thesis
    proof (cases "dl_iter ops q")
      case Nil
      have "i < num_pool_groups ec" using popped_groups [OF P] assms(2) by simp
      then have "prio_pop ops pg (ec_policies ec ! i) = Inl AssertionError"
        using prio_pop_spec [OF ec_inv_laws [OF inv], of pg pr q d] ec_inv_prio [OF inv, of i] x Nil by simp
      then show ?thesis using Nil F ne by (intro stuck [of AssertionError]) auto
    next
      case (Cons p ps)
      obtain q' where q': "prio_pop ops pg (ec_policies ec ! i) = Inr ((pr, q') # d, p)"
        "popped ops nodes ec0 (set_node_ref pg p None, ec\<lparr>ec_policies := (ec_policies ec)[i := (pr, q') # d]\<rparr>,
          ret[i := ret ! i @ [p]])"
        by (rule popped_pop [OF P assms(2) x Cons])
      let ?ec = "ec\<lparr>ec_policies := (ec_policies ec)[i := (pr, q') # d]\<rparr>" and ?ret = "ret[i := ret ! i @ [p]]"
      have step: "evict_while ops i want (pg, ec, ret) = evict_while ops i want (set_node_ref pg p None, ?ec, ?ret)"
        using popped_length [OF P] popped_groups [OF P]
        by (intro evict_while_pop [OF idx more _ q'(1)]) (simp add: num_pool_groups_def)
      have k: "k = want - length (?ret ! i)" using Suc(2) idx by simp
      have m: "max want (length (?ret ! i)) = max want (length (ret ! i))" using idx more by simp
      obtain pg' ec' ret' r where IH: "evict_while ops i want (set_node_ref pg p None, ?ec, ?ret) = ((pg', ec', ret'), r)"
        "popped ops nodes ec0 (pg', ec', ret')" "\<forall>j. j \<noteq> i \<longrightarrow> ret' ! j = ?ret ! j"
        "if want \<le> ?F then r = None \<and> length (ret' ! i) = max want (length (?ret ! i))
         else r = Some (if ec_policies ec0 ! i = [] then StopIteration else AssertionError)"
        using Suc(1) [OF k q'(2)] by blast
      have "\<forall>j. j \<noteq> i \<longrightarrow> ret' ! j = ret ! j" using IH(3) by simp
      then show ?thesis using IH(1,2,4) unfolding step m by blast
    qed
  qed
qed

text \<open>How a request for \<open>want\<close> pages of one pool group can fail.\<close>

definition evict_fails :: "('q, 'n) dllist_ops \<Rightarrow> 'q prio_policy \<Rightarrow> int \<Rightarrow> error \<Rightarrow> bool" where
  "evict_fails ops d want e \<longleftrightarrow>
     (e = OutOfPagesError \<and> int (prio_len ops d) < want)
   \<or> (e = AssertionError \<and> int (front_len (policy_abs ops d)) < want \<and> want \<le> int (prio_len ops d))"

text \<open>The error of the first pool group that fails.\<close>

definition first_failure :: "(nat \<Rightarrow> error \<Rightarrow> bool) \<Rightarrow> nat \<Rightarrow> error \<Rightarrow> bool" where
  "first_failure fails n e \<longleftrightarrow> (\<exists>i < n. fails i e \<and> (\<forall>k < i. \<forall>e'. \<not> fails k e'))"

lemma first_failure_0: "fails 0 e \<Longrightarrow> 0 < n \<Longrightarrow> first_failure fails n e"
  by (auto simp: first_failure_def)

lemma first_failure_Suc: "first_failure (\<lambda>k. fails (Suc k)) n e \<Longrightarrow> \<forall>e'. \<not> fails 0 e' \<Longrightarrow> first_failure fails (Suc n) e"
  unfolding first_failure_def by (metis Suc_less_eq less_Suc_eq_0_disj)

lemma popped_len:
  assumes P: "popped ops nodes ec0 (pg, ec, ret)" and i: "i < num_pool_groups ec0"
  shows "prio_len ops (ec_policies ec ! i) + length (ret ! i) = prio_len ops (ec_policies ec0 ! i)"
proof -
  have L: "dllist_laws ops nodes" using ec_inv_laws [OF popped_inv [OF P]] .
  have len: "prio_len ops d = length (prio_iter ops d)" for d
    by (simp add: prio_len_def prio_iter_def length_concat dll_len [OF L] dll_iter [OF L] comp_def case_prod_unfold)
  show ?thesis unfolding len using popped_iter [OF P i] by simp
qed

lemma evict_groups_spec:
  "popped ops nodes ec0 (pg, ec, ret) \<Longrightarrow> i + length wants = num_pool_groups ec0 \<Longrightarrow> list_all (\<lambda>w. 0 \<le> w) wants \<Longrightarrow>
    \<forall>j. i \<le> j \<and> j < num_pool_groups ec0 \<longrightarrow> ret ! j = [] \<Longrightarrow>
    \<exists>pg' ec' ret' r. evict_groups ops i wants (pg, ec, ret) = ((pg', ec', ret'), r)
      \<and> popped ops nodes ec0 (pg', ec', ret') \<and> (\<forall>j < i. ret' ! j = ret ! j)
      \<and> (case r of None \<Rightarrow> \<forall>k < length wants. int (length (ret' ! (i + k))) = wants ! k
             \<and> (\<forall>e. \<not> evict_fails ops (ec_policies ec0 ! (i + k)) (wants ! k) e)
         | Some e \<Rightarrow> first_failure (\<lambda>k. evict_fails ops (ec_policies ec0 ! (i + k)) (wants ! k)) (length wants) e)"
proof (induction wants arbitrary: i pg ec ret)
  case Nil
  then show ?case by auto
next
  case (Cons w ws)
  note P = Cons.prems(1)
  have i: "i < num_pool_groups ec0" and w: "0 \<le> w" and e: "ret ! i = []" using Cons.prems by auto
  have idx: "i < length (ec_policies ec)" using popped_groups [OF P] i by (simp add: num_pool_groups_def)
  let ?d0 = "ec_policies ec0 ! i"
  have len: "prio_len ops (ec_policies ec ! i) + length (ret ! i) = prio_len ops ?d0" by (rule popped_len [OF P i])
  show ?case
  proof (cases "int (prio_len ops ?d0) < w")
    case True
    then have "evict_groups ops i (w # ws) (pg, ec, ret) = ((pg, ec, ret), Some OutOfPagesError)"
      using w idx len by simp
    moreover have "evict_fails ops (ec_policies ec0 ! (i + 0)) ((w # ws) ! 0) OutOfPagesError"
      using True by (simp add: evict_fails_def)
    ultimately show ?thesis using P by (auto intro!: first_failure_0)
  next
    case False
    obtain pg1 ec1 ret1 r where W: "evict_while ops i (nat w) (pg, ec, ret) = ((pg1, ec1, ret1), r)"
      "popped ops nodes ec0 (pg1, ec1, ret1)" "\<forall>j. j \<noteq> i \<longrightarrow> ret1 ! j = ret ! j"
      "if nat w \<le> front_len (policy_abs ops ?d0) then r = None \<and> length (ret1 ! i) = max (nat w) (length (ret ! i))
       else r = Some (if ?d0 = [] then StopIteration else AssertionError)"
      using evict_while_spec [OF P i, of "nat w"] by blast
    have step: "evict_groups ops i (w # ws) (pg, ec, ret) =
        (case r of Some e \<Rightarrow> ((pg1, ec1, ret1), Some e) | None \<Rightarrow> evict_groups ops (i + 1) ws (pg1, ec1, ret1))"
      using False w idx len W(1) by (simp split: option.split)
    show ?thesis
    proof (cases "nat w \<le> front_len (policy_abs ops ?d0)")
      case True
      then have r: "r = None" "int (length (ret1 ! i)) = w" using W(4) e w by auto
      have "\<forall>j. i + 1 \<le> j \<and> j < num_pool_groups ec0 \<longrightarrow> ret1 ! j = []" using W(3) Cons.prems(4) by auto
      then obtain pg' ec' ret' r' where IH: "evict_groups ops (i + 1) ws (pg1, ec1, ret1) = ((pg', ec', ret'), r')"
        "popped ops nodes ec0 (pg', ec', ret')" "\<forall>j < i + 1. ret' ! j = ret1 ! j"
        "case r' of None \<Rightarrow> \<forall>k < length ws. int (length (ret' ! (i + 1 + k))) = ws ! k
             \<and> (\<forall>e. \<not> evict_fails ops (ec_policies ec0 ! (i + 1 + k)) (ws ! k) e)
         | Some e \<Rightarrow> first_failure (\<lambda>k. evict_fails ops (ec_policies ec0 ! (i + 1 + k)) (ws ! k)) (length ws) e"
        using Cons.IH [OF W(2), of "i + 1"] Cons.prems(2,3) by (auto simp del: One_nat_def)
      have "\<forall>j < i. ret' ! j = ret ! j" using IH(3) W(3) by simp
      moreover have none: "\<forall>e. \<not> evict_fails ops ?d0 w e" using False True w by (auto simp: evict_fails_def)
      have "case r' of None \<Rightarrow> \<forall>k < length (w # ws). int (length (ret' ! (i + k))) = (w # ws) ! k
             \<and> (\<forall>e. \<not> evict_fails ops (ec_policies ec0 ! (i + k)) ((w # ws) ! k) e)
         | Some e \<Rightarrow> first_failure (\<lambda>k. evict_fails ops (ec_policies ec0 ! (i + k)) ((w # ws) ! k)) (length (w # ws)) e"
      proof (cases r')
        case None
        have "int (length (ret' ! (i + k))) = (w # ws) ! k \<and> (\<forall>e. \<not> evict_fails ops (ec_policies ec0 ! (i + k)) ((w # ws) ! k) e)"
          if "k < length (w # ws)" for k
          using that IH(3,4) r(2) none None by (cases k) auto
        then show ?thesis using None by simp
      next
        case (Some e)
        then show ?thesis using IH(4) none by (auto intro!: first_failure_Suc)
      qed
      ultimately show ?thesis using IH(1,2) unfolding step r(1) by auto
    next
      case F: False
      have "?d0 \<noteq> []" using False F w by (auto simp: prio_len_def)
      then have "r = Some AssertionError" using W(4) F by simp
      moreover have "evict_fails ops (ec_policies ec0 ! (i + 0)) ((w # ws) ! 0) AssertionError"
        using False F w by (auto simp: evict_fails_def)
      ultimately show ?thesis using W(2,3) unfolding step by (auto intro!: first_failure_0)
    qed
  qed
qed

lemma popped_unpop:
  assumes P: "popped ops nodes ec0 (pg, ec, ret)" and i: "i < num_pool_groups ec0" and ret: "ret ! i = ps @ [p]"
  obtains pg' ec' where "schedule_for_eviction ops (pg, ec) p True = Inr (pg', ec')"
    and "popped ops nodes ec0 (pg', ec', ret[i := ps])"
proof -
  note inv = popped_inv [OF P] and n = popped_groups [OF P] and len = popped_length [OF P]
  have pp: "in_group pg ec i p" "ep_node_ref (pg p) = None" "ec_policies ec ! i \<noteq> []"
    "ep_priority (pg p) = fst (hd (ec_policies ec ! i))"
    using popped_pages [OF P i, of p] ret by auto
  obtain q d where front: "ec_policies ec ! i = (ep_priority (pg p), q) # d"
    using pp(3,4) by (cases "ec_policies ec ! i") auto
  obtain nd xs q0 ys q' where S: "schedule_for_eviction ops (pg, ec) p True =
       Inr (set_node_ref pg p (Some nd), ec\<lparr>ec_policies := (ec_policies ec)[i := xs @ (ep_priority (pg p), q') # ys]\<rparr>)"
    "ec_inv ops nodes (set_node_ref pg p (Some nd)) (ec\<lparr>ec_policies := (ec_policies ec)[i := xs @ (ep_priority (pg p), q') # ys]\<rparr>)"
    "dl_iter ops q' = p # dl_iter ops q0"
    "ec_policies ec ! i = xs @ (ep_priority (pg p), q0) # ys \<or> map_of (ec_policies ec ! i) (ep_priority (pg p)) = None"
    "i < num_pool_groups ec"
    using schedule_spec [OF inv pp(2,1), of True] by metis
  have "sorted_wrt (<) (map fst (ec_policies ec ! i))" using ec_inv_prio [OF inv S(5)] by (simp add: prio_inv_def)
  then have "xs = []" "ys = d" "q0 = q" using S(4) front by (cases xs; fastforce)+
  let ?pg = "set_node_ref pg p (Some nd)"
  let ?ec = "ec\<lparr>ec_policies := (ec_policies ec)[i := (ep_priority (pg p), q') # d]\<rparr>" and ?ret = "ret[i := ps]"
  have inv': "ec_inv ops nodes ?pg ?ec" using S(2) \<open>xs = []\<close> \<open>ys = d\<close> by simp
  have up: "?ret[i := ?ret ! i @ [p]] = ret" using ret i len by (metis length_list_update list_update_id list_update_overwrite nth_list_update_eq)
  have "mset (concat ret) = mset (p # concat ?ret)"
    using mset_concat_update [of i ?ret p] i len unfolding up by simp
  then have "distinct (p # concat ?ret)" using popped_distinct [OF P] mset_eq_imp_distinct_iff by blast
  then have d1: "distinct (concat ?ret)" and np: "p \<notin> set (concat ?ret)" by auto
  have a1: "policy_abs ops (ec_policies ec0 ! j) = prepend (?ret ! j) (policy_abs ops (ec_policies ?ec ! j))"
    if "j < num_pool_groups ec0" for j
    using popped_abs [OF P that] front S(3,5) \<open>q0 = q\<close> that len n ret
    by (cases "j = i") (auto simp: policy_abs_def prepend_def num_pool_groups_def)
  have p1: "in_group ?pg ?ec j p' \<and> ep_node_ref (?pg p') = None
      \<and> ec_policies ?ec ! j \<noteq> [] \<and> ep_priority (?pg p') = fst (hd (ec_policies ?ec ! j))"
    if j: "j < num_pool_groups ec0" and p': "p' \<in> set (?ret ! j)" for j p'
  proof -
    have "?ret ! j \<in> set ?ret" using j len by (intro nth_mem) simp
    then have "p' \<noteq> p" using np p' by auto
    moreover have "p' \<in> set (ret ! j)" using p' ret len j by (cases "j = i") auto
    ultimately show ?thesis
      using popped_pages [OF P j, of p'] front S(5) by (cases "j = i") (auto simp: num_pool_groups_def)
  qed
  have e1: "?ec = ec0\<lparr>ec_policies := ec_policies ?ec\<rparr>"
  proof -
    obtain ds where "ec = ec0\<lparr>ec_policies := ds\<rparr>" using popped_ec [OF P] by blast
    then show ?thesis by simp
  qed
  have "popped ops nodes ec0 (?pg, ?ec, ?ret)"
    by (rule poppedI [OF inv' _ e1 _ d1 a1 p1]) (use len n in \<open>simp_all add: num_pool_groups_def\<close>)
  then show ?thesis using S(1) \<open>xs = []\<close> \<open>ys = d\<close> by (intro that) auto
qed

lemma rollback_spec:
  "popped ops nodes ec0 (pg, ec, ret) \<Longrightarrow>
    \<exists>pg' ec'. schedule_all ops (rev (concat ret)) (pg, ec) = ((pg', ec'), None)
      \<and> popped ops nodes ec0 (pg', ec', replicate (num_pool_groups ec0) [])"
proof (induction "length (concat ret)" arbitrary: pg ec ret)
  case 0
  then have "concat ret = []" by simp
  moreover have "ret = replicate (num_pool_groups ec0) []"
    using \<open>concat ret = []\<close> popped_length [OF 0(2)] by (intro replicate_eqI) auto
  ultimately show ?case using 0(2) by auto
next
  case (Suc k)
  then have "concat ret \<noteq> []" by (metis Zero_not_Suc list.size(3))
  then obtain i ps p where l: "i < length ret" "ret ! i = ps @ [p]" "concat ret = concat (ret[i := ps]) @ [p]"
    using concat_last [of ret] by blast
  have i: "i < num_pool_groups ec0" using l(1) popped_length [OF Suc(3)] by simp
  obtain pg1 ec1 where S: "schedule_for_eviction ops (pg, ec) p True = Inr (pg1, ec1)"
    "popped ops nodes ec0 (pg1, ec1, ret[i := ps])"
    by (rule popped_unpop [OF Suc(3) i l(2)])
  have "k = length (concat (ret[i := ps]))" using Suc(2) l(3) by simp
  then obtain pg' ec' where "schedule_all ops (rev (concat (ret[i := ps]))) (pg1, ec1) = ((pg', ec'), None)"
    "popped ops nodes ec0 (pg', ec', replicate (num_pool_groups ec0) [])"
    using Suc(1) [OF _ S(2)] by blast
  then show ?case using S(1) unfolding l(3) by auto
qed

section \<open>Properties\<close>

text \<open>
  C15 The outcome of \<open>evict\<close> for non-negative counts, one per pool group. A pool group fails when it has fewer evictable
  pages than requested (\<open>OutOfPagesError\<close>), or when it has enough but the queue of its first priority does not
  (\<open>AssertionError\<close>: \<open>pop\<close> does not move on to the next priority). If no pool group fails, \<open>evict\<close> returns: each
  pool group gives exactly the requested number of pages, the first ones in eviction order (by priority, then
  least recently scheduled), and the rest stays in order. Otherwise it raises the error of the first pool group that
  fails, and every page is back at its old place in its queue.
\<close>

theorem evict_outcome:
  assumes inv: "ec_inv ops nodes pg ec" and "length wants = num_pool_groups ec" and "list_all (\<lambda>w. 0 \<le> w) wants"
  shows "case evict ndebug ops (pg, ec) wants of
     ((pg', ec'), Inr ret) \<Rightarrow> ec_inv ops nodes pg' ec' \<and> length ret = num_pool_groups ec
       \<and> (\<forall>i < num_pool_groups ec. (\<forall>e. \<not> evict_fails ops (ec_policies ec ! i) (wants ! i) e)
            \<and> int (length (ret ! i)) = wants ! i
            \<and> prio_iter ops (ec_policies ec ! i) = ret ! i @ prio_iter ops (ec_policies ec' ! i))
   | ((pg', ec'), Inl e) \<Rightarrow> ec_inv ops nodes pg' ec'
       \<and> (\<forall>i < num_pool_groups ec. policy_abs ops (ec_policies ec' ! i) = policy_abs ops (ec_policies ec ! i))
       \<and> first_failure (\<lambda>i. evict_fails ops (ec_policies ec ! i) (wants ! i)) (num_pool_groups ec) e"
proof -
  let ?start = "(pg, ec, replicate (num_pool_groups ec) [])"
  let ?fails = "\<lambda>k. evict_fails ops (ec_policies ec ! k) (wants ! k)"
  have G: "\<exists>pg' ec' ret r. evict_groups ops 0 wants ?start = ((pg', ec', ret), r) \<and> popped ops nodes ec (pg', ec', ret)
    \<and> (case r of None \<Rightarrow> \<forall>k < length wants. int (length (ret ! k)) = wants ! k \<and> (\<forall>e. \<not> ?fails k e)
       | Some e \<Rightarrow> first_failure ?fails (length wants) e)"
    using evict_groups_spec [OF popped_start [OF inv], of 0 wants, unfolded add_0] assms(2,3) by auto
  then obtain pg' ec' ret r where g: "evict_groups ops 0 wants ?start = ((pg', ec', ret), r)"
    and P: "popped ops nodes ec (pg', ec', ret)"
    and r: "case r of None \<Rightarrow> \<forall>k < length wants. int (length (ret ! k)) = wants ! k \<and> (\<forall>e. \<not> ?fails k e)
       | Some e \<Rightarrow> first_failure ?fails (length wants) e" by blast
  show ?thesis
  proof (cases r)
    case None
    have "list_all (\<lambda>p. ep_cache_level (pg' p) = ec_cache_level ec') (concat ret)"
      using popped_pages [OF P] popped_length [OF P]
      by (auto simp: list_all_iff in_set_conv_nth in_group_def) (metis nth_mem)
    then have "evict ndebug ops (pg, ec) wants = ((pg', ec'), Inr ret)"
      using g None assms(2) by (simp add: evict_def)
    then show ?thesis
      using r None popped_inv [OF P] popped_length [OF P] popped_iter [OF P] assms(2) by auto
  next
    case (Some e)
    obtain pg2 ec2 where R: "schedule_all ops (rev (concat ret)) (pg', ec') = ((pg2, ec2), None)"
      "popped ops nodes ec (pg2, ec2, replicate (num_pool_groups ec) [])"
      using rollback_spec [OF P] by blast
    have "policy_abs ops (ec_policies ec2 ! i) = policy_abs ops (ec_policies ec ! i)" if "i < num_pool_groups ec" for i
      using popped_abs [OF R(2) that] that by (simp add: prepend_def split: list.splits)
    moreover have "evict ndebug ops (pg, ec) wants = ((pg2, ec2), Inl e)"
      using g Some R(1) assms(2) by (simp add: evict_def)
    ultimately show ?thesis using r Some popped_inv [OF R(2)] assms(2) by auto
  qed
qed

text \<open>A list of numbered nodes that behaves as the linked list does.\<close>

definition list_dllist :: "((nat \<times> nat) list, nat \<times> nat) dllist_ops" where
  "list_dllist =
     \<lparr>dl_empty = [],
      dl_append = (\<lambda>q p. let n = (Suc (sum_list (map fst q)), p) in (q @ [n], n)),
      dl_appendleft = (\<lambda>q p. let n = (Suc (sum_list (map fst q)), p) in (n # q, n)),
      dl_first = (\<lambda>q. case q of [] \<Rightarrow> None | n # _ \<Rightarrow> Some n),
      dl_value = snd,
      dl_remove = (\<lambda>q n. if n \<in> set q then Inr (remove1 n q, snd n) else Inl ValueError),
      dl_len = length,
      dl_iter = map snd\<rparr>"

lemma list_dllist_laws: "dllist_laws list_dllist (\<lambda>q. q)"
proof -
  have "(Suc (sum_list (map fst q)), p) \<notin> set q" for q :: "(nat \<times> nat) list" and p
  proof
    assume "(Suc (sum_list (map fst q)), p) \<in> set q"
    then have "Suc (sum_list (map fst q)) \<in> set (map fst q)" by force
    then show False using member_le_sum_list by fastforce
  qed
  then show ?thesis by (simp add: dllist_laws_def list_dllist_def Let_def)
qed

text \<open>Three unscheduled pages of one life cycle, the first of lower priority, and an empty controller.\<close>

definition example_pages :: "(nat \<times> nat) pages" where
  "example_pages p = \<lparr>ep_node_ref = None, ep_priority = (if p = 0 then 20 else 35), ep_cache_level = 0, ep_life_cycle = 0\<rparr>"

definition example_controller :: "((nat \<times> nat) list) eviction_controller" where
  "example_controller = \<lparr>ec_life_cycle_grouping = [0], ec_policies = [[]], ec_cache_level = 0\<rparr>"

lemma example_inv: "ec_inv list_dllist (\<lambda>q. q) example_pages example_controller"
  using list_dllist_laws by (simp add: ec_inv_def example_controller_def num_pool_groups_def prio_inv_def)

text \<open>The same pages after scheduling: one queue per priority.\<close>

definition queued_pages :: "(nat \<times> nat) pages" where
  "queued_pages = example_pages(0 := (example_pages 0)\<lparr>ep_node_ref := Some (1, 0)\<rparr>,
     1 := (example_pages 1)\<lparr>ep_node_ref := Some (1, 1)\<rparr>, 2 := (example_pages 2)\<lparr>ep_node_ref := Some (2, 2)\<rparr>)"

definition queued_controller :: "((nat \<times> nat) list) eviction_controller" where
  "queued_controller = example_controller\<lparr>ec_policies := [[(20, [(1, 0)]), (35, [(1, 1), (2, 2)])]]\<rparr>"

lemma queued_inv: "ec_inv list_dllist (\<lambda>q. q) queued_pages queued_controller"
  using list_dllist_laws
  by (simp add: ec_inv_def queued_controller_def queued_pages_def example_controller_def example_pages_def num_pool_groups_def
      prio_inv_def lru_inv_def prio_iter_def in_group_def list_dllist_def)

lemma queued_lengths:
  "num_pool_groups queued_controller = 1" "prio_iter list_dllist (ec_policies queued_controller ! 0) = [0, 1, 2]"
  "evict_fails list_dllist (ec_policies queued_controller ! 0) want e
     \<longleftrightarrow> e = OutOfPagesError \<and> 3 < want \<or> e = AssertionError \<and> 1 < want \<and> want \<le> 3"
  by (simp_all add: queued_controller_def example_controller_def num_pool_groups_def prio_iter_def prio_len_def front_len_def policy_abs_def
      evict_fails_def list_dllist_def)

theorem evict_outcome_witness:
  "snd (evict False list_dllist (queued_pages, queued_controller) [1]) = Inr [[0]]
   \<and> snd (evict False list_dllist (queued_pages, queued_controller) [2]) = Inl AssertionError
   \<and> snd (evict False list_dllist (queued_pages, queued_controller) [4]) = Inl OutOfPagesError"
proof -
  have out: "case snd (evict False list_dllist (queued_pages, queued_controller) [w]) of
      Inr ret \<Rightarrow> w \<le> 1 \<and> (\<exists>ps rest. ret = [ps] \<and> int (length ps) = w \<and> [0, 1, 2] = ps @ rest)
    | Inl e \<Rightarrow> e = OutOfPagesError \<and> 3 < w \<or> e = AssertionError \<and> 1 < w \<and> w \<le> 3" if "0 \<le> w" for w
  proof -
    obtain pg' ec' r where r: "evict False list_dllist (queued_pages, queued_controller) [w] = ((pg', ec'), r)" by (metis surj_pair)
    note O = evict_outcome [OF queued_inv, of "[w]" False, unfolded r prod.case queued_lengths(1)]
    show ?thesis
    proof (cases r)
      case (Inl e)
      then have "first_failure (\<lambda>i. evict_fails list_dllist (ec_policies queued_controller ! i) ([w] ! i)) 1 e" using O that by simp
      then have "evict_fails list_dllist (ec_policies queued_controller ! 0) w e" by (simp add: first_failure_def)
      then show ?thesis using r Inl by (simp add: queued_lengths(3))
    next
      case (Inr ret)
      then have ret: "length ret = 1" "\<forall>e. \<not> evict_fails list_dllist (ec_policies queued_controller ! 0) w e" "int (length (ret ! 0)) = w"
        "prio_iter list_dllist (ec_policies queued_controller ! 0) = ret ! 0 @ prio_iter list_dllist (ec_policies ec' ! 0)"
        using O that by simp_all
      have "ret = [ret ! 0]" using ret(1) by (cases ret) auto
      moreover have "w \<le> 1" using ret(2) unfolding queued_lengths(3) by (metis linorder_not_le)
      ultimately show ?thesis using r Inr ret(3,4) unfolding queued_lengths(2) by auto
    qed
  qed
  have "snd (evict False list_dllist (queued_pages, queued_controller) [1]) = Inr [[0]]"
    using out [of 1] by (auto simp: length_Suc_conv split: sum.splits)
  moreover have "snd (evict False list_dllist (queued_pages, queued_controller) [2]) = Inl AssertionError"
    "snd (evict False list_dllist (queued_pages, queued_controller) [4]) = Inl OutOfPagesError"
    using out [of 2] out [of 4] by (auto split: sum.splits)
  ultimately show ?thesis by blast
qed

text \<open>
  C16 Scheduling and removal. A page without a place in a queue, of the level of the controller and with a
  known life cycle, can always be scheduled: it gets a node of its own, and only the queue of its pool group
  changes, by the insertion of the page. Removing that node then succeeds and
  gives the former eviction order, and the page has no place in a queue again.
\<close>

theorem schedule_then_remove:
  assumes inv: "ec_inv ops nodes pg ec" and p: "ep_node_ref (pg p) = None" "in_group pg ec i p"
  shows "\<exists>pg1 ec1 n xs ys pg2 ec2. schedule_for_eviction ops (pg, ec) p ef = Inr (pg1, ec1)
    \<and> ep_node_ref (pg1 p) = Some n \<and> ec_inv ops nodes pg1 ec1
    \<and> prio_iter ops (ec_policies ec ! i) = xs @ ys \<and> prio_iter ops (ec_policies ec1 ! i) = xs @ p # ys
    \<and> (\<forall>j. j \<noteq> i \<longrightarrow> ec_policies ec1 ! j = ec_policies ec ! j)
    \<and> ec_remove ops (pg1, ec1) n = Inr (pg2, ec2) \<and> ec_inv ops nodes pg2 ec2 \<and> pg2 = pg
    \<and> (\<forall>j. prio_iter ops (ec_policies ec2 ! j) = prio_iter ops (ec_policies ec ! j))"
proof -
  obtain n xs q ys q' where S: "schedule_for_eviction ops (pg, ec) p ef =
       Inr (set_node_ref pg p (Some n), ec\<lparr>ec_policies := (ec_policies ec)[i := xs @ (ep_priority (pg p), q') # ys]\<rparr>)"
    "ec_inv ops nodes (set_node_ref pg p (Some n)) (ec\<lparr>ec_policies := (ec_policies ec)[i := xs @ (ep_priority (pg p), q') # ys]\<rparr>)"
    "dl_iter ops q' = (if ef then p # dl_iter ops q else dl_iter ops q @ [p])"
    "prio_iter ops (ec_policies ec ! i) = prio_iter ops xs @ dl_iter ops q @ prio_iter ops ys"
    "i < num_pool_groups ec"
    using schedule_spec [OF inv p, of ef] by metis
  let ?pg = "set_node_ref pg p (Some n)"
  let ?ec = "ec\<lparr>ec_policies := (ec_policies ec)[i := xs @ (ep_priority (pg p), q') # ys]\<rparr>"
  define us where "us = prio_iter ops xs @ (if ef then [] else dl_iter ops q)"
  define vs where "vs = (if ef then dl_iter ops q else []) @ prio_iter ops ys"
  have i: "i < num_pool_groups ?ec" using S(5) by (simp add: num_pool_groups_def)
  have it: "prio_iter ops (ec_policies ec ! i) = us @ vs" "prio_iter ops (ec_policies ?ec ! i) = us @ p # vs"
    using S(3-5) by (auto simp: us_def vs_def num_pool_groups_def)
  obtain d' where R: "ec_remove ops (?pg, ?ec) n = Inr (set_node_ref ?pg p None, ?ec\<lparr>ec_policies := (ec_policies ?ec)[i := d']\<rparr>)"
    "ec_inv ops nodes (set_node_ref ?pg p None) (?ec\<lparr>ec_policies := (ec_policies ?ec)[i := d']\<rparr>)"
    "prio_iter ops d' = remove1 p (prio_iter ops (ec_policies ?ec ! i))"
    using ec_remove_spec [OF S(2) i, of p n] it(2) by auto
  have pg2: "set_node_ref ?pg p None = pg" using p(1) by (auto simp: fun_eq_iff)
  have "p \<notin> set (prio_iter ops (ec_policies ec ! i))"
    using prio_inv_values(2) [OF ec_inv_laws [OF inv] ec_inv_prio [OF inv S(5)]] p(1) by metis
  then have "p \<notin> set us" unfolding it(1) by simp
  then have "prio_iter ops d' = us @ vs" using R(3) it(2) by (simp add: remove1_append)
  then have "prio_iter ops (ec_policies (?ec\<lparr>ec_policies := (ec_policies ?ec)[i := d']\<rparr>) ! j) = prio_iter ops (ec_policies ec ! j)" for j
    using it(1) S(5) by (cases "j = i") (auto simp: num_pool_groups_def)
  moreover have "\<forall>j. j \<noteq> i \<longrightarrow> ec_policies ?ec ! j = ec_policies ec ! j" by simp
  moreover have "ep_node_ref (?pg p) = Some n" by simp
  ultimately show ?thesis using S(1,2) it R(1,2) unfolding pg2 by blast
qed

theorem schedule_then_remove_witness:
  "\<exists>pg1 ec1 n. schedule_for_eviction list_dllist (example_pages, example_controller) 0 False = Inr (pg1, ec1)
    \<and> ep_node_ref (pg1 0) = Some n \<and> (\<exists>ec2. ec_remove list_dllist (pg1, ec1) n = Inr (example_pages, ec2))"
  using schedule_then_remove [OF example_inv, of 0 0 False]
  by (simp add: example_pages_def example_controller_def in_group_def) metis

end
