(* ===== verification/KV_Sizing.thy ===== *)
theory KV_Sizing
  imports Complex_Main KV_Utils
begin

text \<open>
  How many slots fit into a memory quota (\<^verbatim>\<open>_storage/_core.py\<close>). Memory is handed out in grains
  of a fixed granularity; a pool group needs the same number of slots in each of its pools, so
  \<open>n\<close> slots cost the sum over the pools of the rounded-up sizes. \<open>grains_to_slots\<close> finds the
  largest affordable number, and \<open>ratio_to_slot_count_list\<close> splits a quota among the pool groups
  by ratios, with a minimum for each of them.

  The shares are computed with floating-point numbers: \<open>share b s t\<close> is
  \<^verbatim>\<open>round(b * (s / t))\<close> for integers, and \<open>rshare b r rs\<close> is \<^verbatim>\<open>round(b * (r / sum(rs)))\<close> for a
  floating-point ratio \<open>r\<close>. Both are arguments of the definitions; \<open>share_laws\<close> and \<open>rshare_laws\<close> state what double
  precision guarantees: a positive part of a non-negative budget is between nothing and the whole
  budget, and the only remaining part gets all of it.
\<close>

section \<open>Grains and slots\<close>

definition grains_for_slots :: "int \<Rightarrow> int list \<Rightarrow> int \<Rightarrow> int" where
  "grains_for_slots num_slots slot_size_list granularity =
     sum_list (map (\<lambda>s. div_up (num_slots * s) granularity) slot_size_list)"

text \<open>
  The distribution of the grains over the pools, in increasing order of slot size:
  \<open>pools\<close> are the sizes still to be served. The result is the number of slots that every pool
  so far can hold, and the grains not handed out.
\<close>

fun distribute_grains :: "(int \<Rightarrow> int \<Rightarrow> int \<Rightarrow> int) \<Rightarrow> int \<Rightarrow> int list \<Rightarrow> int \<Rightarrow> int \<Rightarrow> int \<times> int" where
  "distribute_grains share granularity [] num_slots remaining = (num_slots, remaining)"
| "distribute_grains share granularity (slot_size # pools) num_slots remaining =
     (let pool_grains = max (div_up slot_size granularity)
            (share remaining slot_size (sum_list (slot_size # pools)))
      in distribute_grains share granularity pools
           (min num_slots (pool_grains * granularity div slot_size)) (remaining - pool_grains))"

text \<open>The doubling phase of the search; it does not end when the cost of a slot is zero.\<close>

partial_function (option) grow_search :: "int \<Rightarrow> int list \<Rightarrow> int \<Rightarrow> int \<Rightarrow> int \<Rightarrow> (int \<times> int) option" where
  "grow_search pg_grains sizes granularity lo step =
     (let hi = lo + step
      in if grains_for_slots hi sizes granularity \<le> pg_grains
         then grow_search pg_grains sizes granularity hi (step * 2)
         else Some (lo, hi))"

function bisect :: "int \<Rightarrow> int list \<Rightarrow> int \<Rightarrow> int \<Rightarrow> int \<Rightarrow> int" where
  "bisect pg_grains sizes granularity lo hi =
     (if lo + 1 < hi then
        let mid = (lo + hi) div 2
        in if grains_for_slots mid sizes granularity \<le> pg_grains
           then bisect pg_grains sizes granularity mid hi
           else bisect pg_grains sizes granularity lo mid
      else lo)"
  by pat_completeness auto
termination
  by (relation "measure (\<lambda>(g, ss, gr, lo, hi). nat (hi - lo))") auto

definition grains_to_slots :: "(int \<Rightarrow> int \<Rightarrow> int \<Rightarrow> int) \<Rightarrow> int \<Rightarrow> int list \<Rightarrow> int \<Rightarrow> (int \<times> int) res option" where
  "grains_to_slots share pg_grains slot_size_list granularity =
     (if pg_grains < sum_list (map (\<lambda>s. div_up s granularity) slot_size_list) then Some (Inr (0, 0))
      else case distribute_grains share granularity (sort slot_size_list) (2 ^ 63) pg_grains of
        (num_slots, remaining) \<Rightarrow>
          if remaining \<noteq> 0 then Some (Inl AssertionError)
          else if \<not> (0 < num_slots) then Some (Inl AssertionError)
          else case grow_search pg_grains slot_size_list granularity num_slots 1 of
            None \<Rightarrow> None
          | Some (lo, hi) \<Rightarrow>
              let n = bisect pg_grains slot_size_list granularity lo hi;
                  used = grains_for_slots n slot_size_list granularity
              in Some (assertR (used \<le> pg_grains) (
                   assertR (pg_grains < grains_for_slots (n + 1) slot_size_list granularity)
                     (Inr (n, used)))))"

section \<open>Splitting a quota by ratios\<close>

text \<open>
  One round: distribute the remaining grains among the active pool groups in increasing order
  of their ratios. An active pool group is its index, its position in the list of active ones and its ratio.
  The result lists slots and grains by position, and the grains left.
\<close>

fun distribute_quota :: "(int \<Rightarrow> int \<Rightarrow> int \<Rightarrow> int) \<Rightarrow> (int \<Rightarrow> real \<Rightarrow> real list \<Rightarrow> int) \<Rightarrow> int list list \<Rightarrow> int
    \<Rightarrow> (nat \<times> nat \<times> real) list \<Rightarrow> int \<Rightarrow> int list \<Rightarrow> (int list \<times> int) res option" where
  "distribute_quota share rshare sizes g [] budget slots = Some (Inr (slots, budget))"
| "distribute_quota share rshare sizes g ((idx, pg, r) # rest) budget slots =
     (case grains_to_slots share (rshare budget r (r # map (\<lambda>(_, _, r). r) rest)) (sizes ! pg) g of
        None \<Rightarrow> None
      | Some (Inl e) \<Rightarrow> Some (Inl e)
      | Some (Inr (n, used)) \<Rightarrow>
          distribute_quota share rshare sizes g rest (budget - used) (slots[idx := n]))"

text \<open>Pin the constrained pool groups to the slots that the grains of their minimum afford.\<close>

fun pin_constrained :: "(int \<Rightarrow> int \<Rightarrow> int \<Rightarrow> int) \<Rightarrow> int list list \<Rightarrow> int \<Rightarrow> int list \<Rightarrow> nat list \<Rightarrow> int list \<Rightarrow> int
    \<Rightarrow> (int list \<times> int) res option" where
  "pin_constrained share sizes g min_slots [] cnts remaining = Some (Inr (cnts, remaining))"
| "pin_constrained share sizes g min_slots (pg # pgs) cnts remaining =
     (case grains_to_slots share (grains_for_slots (min_slots ! pg) (sizes ! pg) g) (sizes ! pg) g of
        None \<Rightarrow> None
      | Some (Inl e) \<Rightarrow> Some (Inl e)
      | Some (Inr (n, used)) \<Rightarrow> pin_constrained share sizes g min_slots pgs (cnts[pg := n]) (remaining - used))"

fun accept_slots :: "(nat \<times> int) list \<Rightarrow> int list \<Rightarrow> int list" where
  "accept_slots [] cnts = cnts"
| "accept_slots ((pg, n) # ps) cnts = accept_slots ps (cnts[pg := n])"

function split_loop :: "(int \<Rightarrow> int \<Rightarrow> int \<Rightarrow> int) \<Rightarrow> (int \<Rightarrow> real \<Rightarrow> real list \<Rightarrow> int) \<Rightarrow> int list list \<Rightarrow> int
    \<Rightarrow> real list \<Rightarrow> int list \<Rightarrow> nat list \<Rightarrow> int list \<Rightarrow> int \<Rightarrow> int list res option" where
  "split_loop share rshare sizes g ratios min_slots active cnts remaining =
     (if active = [] then Some (Inr cnts)
      else case distribute_quota share rshare sizes g
          (sort_key (\<lambda>(_, _, r). r) (map (\<lambda>(idx, pg). (idx, pg, ratios ! pg)) (enumerate 0 active)))
          remaining (replicate (length active) 0) of
        None \<Rightarrow> None
      | Some (Inl e) \<Rightarrow> Some (Inl e)
      | Some (Inr (slots, budget)) \<Rightarrow>
          if \<not> (0 \<le> budget) then Some (Inl AssertionError)
          else let constrained = filter (\<lambda>(pg, n). n \<le> min_slots ! pg) (zip active slots);
                   unconstrained = filter (\<lambda>(pg, n). \<not> n \<le> min_slots ! pg) (zip active slots)
               in if constrained = [] then Some (Inr (accept_slots (zip active slots) cnts))
                  else case pin_constrained share sizes g min_slots (map fst constrained) cnts remaining of
                    None \<Rightarrow> None
                  | Some (Inl e) \<Rightarrow> Some (Inl e)
                  | Some (Inr (cnts', remaining')) \<Rightarrow>
                      if unconstrained = [] then Some (Inr cnts')
                      else if remaining' \<le> 0 then Some (Inl ValueError)
                      else split_loop share rshare sizes g ratios min_slots (map fst unconstrained) cnts' remaining')"
  by pat_completeness auto
termination
proof (relation "measure (\<lambda>(share, rshare, sizes, g, ratios, min_slots, active, cnts, remaining). length active)", goal_cases)
  case 1
  then show ?case by simp
next
  case (2 share rshare sizes g ratios min_slots active cnts remaining p a slots budget con unc)
  then have "length con + length unc = length (zip active slots)" and "con \<noteq> []"
    using sum_length_filter_compl [of "\<lambda>(pg, n). n \<le> min_slots ! pg" "zip active slots"]
    by (auto simp: case_prod_unfold)
  then have "length unc < length active" by (cases con) auto
  then show ?case by simp
qed

text \<open>The final loop; like the search it does not end when the cost of a slot is zero.\<close>

partial_function (option) bump_slots :: "int list \<Rightarrow> int \<Rightarrow> int \<Rightarrow> int \<Rightarrow> int option" where
  "bump_slots sizes g grains_now n =
     (if grains_for_slots (n + 1) sizes g \<le> grains_now then bump_slots sizes g grains_now (n + 1) else Some n)"

fun bump_all :: "int list list \<Rightarrow> int \<Rightarrow> int list \<Rightarrow> int list option" where
  "bump_all (s # ss) g (n # ns) =
     (case bump_slots s g (grains_for_slots n s g) n of None \<Rightarrow> None
      | Some n' \<Rightarrow> (case bump_all ss g ns of None \<Rightarrow> None | Some ns' \<Rightarrow> Some (n' # ns')))"
| "bump_all _ g ns = Some ns"

definition ratio_to_slot_count_list :: "(int \<Rightarrow> int \<Rightarrow> int \<Rightarrow> int) \<Rightarrow> (int \<Rightarrow> real \<Rightarrow> real list \<Rightarrow> int)
    \<Rightarrow> int \<Rightarrow> int list list \<Rightarrow> real list \<Rightarrow> int \<Rightarrow> int list \<Rightarrow> int list res option" where
  "ratio_to_slot_count_list share rshare total_quota sizes ratios g min_slots =
     (if \<not> list_all (\<lambda>x. 0 < x) ratios then Some (Inl AssertionError)
      else if length ratios \<noteq> length sizes then Some (Inl AssertionError)
      else if total_quota mod g \<noteq> 0 then Some (Inl AssertionError)
      else if total_quota div g < int (sum_list (map length sizes)) then Some (Inl AssertionError)
      else case split_loop share rshare sizes g ratios min_slots [0..<length ratios]
                  (replicate (length ratios) 0) (total_quota div g) of
        None \<Rightarrow> None
      | Some (Inl e) \<Rightarrow> Some (Inl e)
      | Some (Inr cnts) \<Rightarrow> (case bump_all sizes g cnts of None \<Rightarrow> None | Some r \<Rightarrow> Some (Inr r)))"

section \<open>The cost of slots\<close>

text \<open>What the floating-point shares guarantee.\<close>

definition share_laws :: "(int \<Rightarrow> int \<Rightarrow> int \<Rightarrow> int) \<Rightarrow> bool" where
  "share_laws share \<longleftrightarrow> (\<forall>b s. 0 \<le> b \<and> 0 < s \<longrightarrow> share b s s = b)"

definition rshare_laws :: "(int \<Rightarrow> real \<Rightarrow> real list \<Rightarrow> int) \<Rightarrow> bool" where
  "rshare_laws rshare \<longleftrightarrow> (\<forall>b r rs. 0 \<le> b \<and> r \<in> set rs \<and> (\<forall>x \<in> set rs. 0 < x) \<longrightarrow>
     0 \<le> rshare b r rs \<and> rshare b r rs \<le> b)"

abbreviation sizes_ok :: "int list \<Rightarrow> bool" where
  "sizes_ok sizes \<equiv> sizes \<noteq> [] \<and> list_all (\<lambda>s. 0 < s) sizes"

lemma grains_mono:
  assumes "0 < g" and "list_all (\<lambda>s. 0 < s) sizes" and "m \<le> n"
  shows "grains_for_slots m sizes g \<le> grains_for_slots n sizes g"
  unfolding grains_for_slots_def
  using assms by (intro sum_list_mono div_up_mono mult_right_mono) (auto simp: list_all_iff)

lemma grains_zero [simp]: "0 < g \<Longrightarrow> grains_for_slots 0 sizes g = 0"
  by (induction sizes) (auto simp: grains_for_slots_def)

lemma grains_one: "grains_for_slots 1 sizes g = sum_list (map (\<lambda>s. div_up s g) sizes)"
  by (simp add: grains_for_slots_def)

lemma grains_nonneg:
  assumes "0 < g" and "list_all (\<lambda>s. 0 < s) sizes" and "0 \<le> n"
  shows "0 \<le> grains_for_slots n sizes g"
  using grains_mono [OF assms] assms(1) by simp

lemma grains_lower:
  assumes g: "0 < g" and ok: "sizes_ok sizes" and n: "0 \<le> n"
  shows "n \<le> grains_for_slots n sizes g * g"
proof -
  obtain s ss where sizes: "sizes = s # ss" "0 < s" "list_all (\<lambda>s. 0 < s) ss" using ok by (cases sizes) auto
  have "n * 1 \<le> n * s" using sizes(2) n by (intro mult_left_mono) auto
  also have "\<dots> \<le> div_up (n * s) g * g" by (rule div_up_ge [OF g])
  also have "\<dots> \<le> grains_for_slots n sizes g * g"
    using grains_nonneg [OF g sizes(3) n] g by (intro mult_right_mono) (auto simp: sizes grains_for_slots_def)
  finally show ?thesis by simp
qed

lemma grow_search_spec:
  assumes g: "0 < g" and ok: "sizes_ok sizes" and lo: "0 \<le> lo" "0 < step" and fit: "grains_for_slots lo sizes g \<le> G"
  shows "\<exists>lo' hi'. grow_search G sizes g lo step = Some (lo', hi') \<and> lo \<le> lo' \<and> lo' < hi'
    \<and> grains_for_slots lo' sizes g \<le> G \<and> G < grains_for_slots hi' sizes g"
  using lo fit
proof (induction "nat (G * g - lo)" arbitrary: lo step rule: less_induct)
  case less
  show ?case
  proof (cases "grains_for_slots (lo + step) sizes g \<le> G")
    case True
    have "lo + step \<le> grains_for_slots (lo + step) sizes g * g" using less.prems by (intro grains_lower [OF g ok]) auto
    also have "\<dots> \<le> G * g" using True g by (intro mult_right_mono) auto
    finally have "nat (G * g - (lo + step)) < nat (G * g - lo)" using less.prems by linarith
    from less.hyps [OF this _ _ True, of "step * 2"] less.prems True show ?thesis
      by (subst grow_search.simps) auto
  next
    case False
    then show ?thesis using less.prems by (subst grow_search.simps) auto
  qed
qed

lemma bisect_spec:
  "lo < hi \<Longrightarrow> grains_for_slots lo sizes g \<le> G \<Longrightarrow> G < grains_for_slots hi sizes g \<Longrightarrow>
    lo \<le> bisect G sizes g lo hi \<and> grains_for_slots (bisect G sizes g lo hi) sizes g \<le> G
    \<and> G < grains_for_slots (bisect G sizes g lo hi + 1) sizes g"
proof (induction G sizes g lo hi rule: bisect.induct)
  case (1 G sizes g lo hi)
  show ?case
  proof (cases "lo + 1 < hi")
    case True
    let ?mid = "(lo + hi) div 2"
    have mid: "lo < ?mid" "?mid < hi" using True by auto
    show ?thesis
    proof (cases "grains_for_slots ?mid sizes g \<le> G")
      case le: True
      have "bisect G sizes g lo hi = bisect G sizes g ?mid hi"
        using True le by (subst bisect.simps) (simp add: Let_def)
      then show ?thesis using 1(1) [OF True refl le] mid le 1(5) by simp
    next
      case gt: False
      have "bisect G sizes g lo hi = bisect G sizes g lo ?mid"
        using True gt by (subst bisect.simps) (simp add: Let_def)
      then show ?thesis using 1(2) [OF True refl gt] mid gt 1(4) by simp
    qed
  next
    case False
    then have "hi = lo + 1" "bisect G sizes g lo hi = lo" using 1(3) by (auto simp: bisect.simps [of G sizes g lo hi])
    then show ?thesis using 1(4,5) by simp
  qed
qed

declare bisect.simps [simp del]

lemma distribute_grains_spec:
  assumes g: "0 < g"
  shows "list_all (\<lambda>s. 0 < s) pools \<Longrightarrow> distribute_grains share g pools N rem = (n, rem') \<Longrightarrow>
    n \<le> N \<and> (0 < N \<longrightarrow> 0 < n) \<and> grains_for_slots n pools g \<le> rem - rem'"
proof (induction pools arbitrary: N rem)
  case Nil
  then show ?case by (simp add: grains_for_slots_def)
next
  case (Cons s pools)
  let ?pg = "max (div_up s g) (share rem s (sum_list (s # pools)))"
  have s: "0 < s" using Cons.prems by simp
  have IH: "n \<le> min N (?pg * g div s)" "0 < min N (?pg * g div s) \<longrightarrow> 0 < n"
    "grains_for_slots n pools g \<le> rem - ?pg - rem'"
    using Cons.IH [of "min N (?pg * g div s)" "rem - ?pg"] Cons.prems by (auto simp: Let_def)
  have "n * s \<le> ?pg * g" using IH(1) le_div_iff [OF s, of n "?pg * g"] by simp
  then have "div_up (n * s) g \<le> ?pg" by (simp add: div_up_le_iff [OF g])
  moreover have "1 \<le> ?pg * g div s"
  proof -
    have "s \<le> div_up s g * g" by (rule div_up_ge [OF g])
    also have "\<dots> \<le> ?pg * g" using g by (intro mult_right_mono) auto
    finally show ?thesis using le_div_iff [OF s, of 1 "?pg * g"] by simp
  qed
  ultimately show ?case using IH by (auto simp: grains_for_slots_def)
qed

lemma grains_sort: "grains_for_slots n (sort sizes) g = grains_for_slots n sizes g"
proof -
  have "sum_list (map f (sort xs)) = sum_list (map f (xs :: int list))" for f :: "int \<Rightarrow> int" and xs
    by (metis mset_map mset_sort sum_mset_sum_list)
  then show ?thesis by (simp add: grains_for_slots_def)
qed

lemma grains_to_slots_spec:
  assumes g: "0 < g" and ok: "sizes_ok sizes" and G: "0 \<le> G"
  shows "(\<exists>n. grains_to_slots share G sizes g = Some (Inr (n, grains_for_slots n sizes g)) \<and> 0 \<le> n
      \<and> grains_for_slots n sizes g \<le> G \<and> G < grains_for_slots (n + 1) sizes g)
    \<or> (grains_to_slots share G sizes g = Some (Inl AssertionError) \<and> grains_for_slots 1 sizes g \<le> G
       \<and> snd (distribute_grains share g (sort sizes) (2 ^ 63) G) \<noteq> 0)"
proof (cases "G < grains_for_slots 1 sizes g")
  case True
  then show ?thesis using G g by (intro disjI1 exI [of _ 0]) (simp add: grains_to_slots_def grains_one)
next
  case False
  obtain N rem where d: "distribute_grains share g (sort sizes) (2 ^ 63) G = (N, rem)" by force
  show ?thesis
  proof (cases "rem = 0")
    case True
    have pos: "list_all (\<lambda>s. 0 < s) (sort sizes)" using ok by (simp add: list_all_iff)
    have N: "0 < N" "grains_for_slots N sizes g \<le> G"
      using distribute_grains_spec [OF g pos d] True by (auto simp: grains_sort)
    obtain lo hi where gs: "grow_search G sizes g N 1 = Some (lo, hi)" "N \<le> lo" "lo < hi"
      "grains_for_slots lo sizes g \<le> G" "G < grains_for_slots hi sizes g"
      using grow_search_spec [OF g ok, of N 1 G] N by auto
    let ?n = "bisect G sizes g lo hi"
    have n: "lo \<le> ?n" "grains_for_slots ?n sizes g \<le> G" "G < grains_for_slots (?n + 1) sizes g"
      using bisect_spec [OF gs(3-5)] by auto
    then have "grains_to_slots share G sizes g = Some (Inr (?n, grains_for_slots ?n sizes g))"
      using False d True N(1) gs(1) by (simp add: grains_to_slots_def grains_one Let_def)
    then show ?thesis using n N(1) gs(2) by (intro disjI1 exI [of _ ?n]) auto
  next
    case rem: False
    then have "grains_to_slots share G sizes g = Some (Inl AssertionError)"
      using False d by (simp add: grains_to_slots_def grains_one)
    then show ?thesis using rem d False by simp
  qed
qed

lemma distribute_single:
  assumes "share_laws share" and "0 < g" and "0 < s" and "div_up s g \<le> G"
  shows "snd (distribute_grains share g [s] N G) = 0"
proof -
  have "0 \<le> G" using div_up_nonneg [of g s] assms by simp
  then have "share G s s = G" using assms by (simp add: share_laws_def)
  then show ?thesis using assms(4) by (simp add: Let_def)
qed

section \<open>The rounds of the split\<close>

text \<open>The cost of \<open>n\<close> slots in a pool group, and that no further slot is free of charge.\<close>

abbreviation cost :: "int list list \<Rightarrow> int \<Rightarrow> nat \<Rightarrow> int \<Rightarrow> int" where
  "cost sizes g pg n \<equiv> grains_for_slots n (sizes ! pg) g"

definition tight :: "int list list \<Rightarrow> int \<Rightarrow> nat \<Rightarrow> int \<Rightarrow> bool" where
  "tight sizes g pg n \<longleftrightarrow> 0 \<le> n \<and> cost sizes g pg n < cost sizes g pg (n + 1)"

lemma distribute_quota_spec:
  assumes L: "rshare_laws rshare" and g: "0 < g"
  shows "distinct (map fst es) \<Longrightarrow> \<forall>(idx, pg, r) \<in> set es. idx < length slots \<and> sizes_ok (sizes ! pg) \<and> 0 < r \<Longrightarrow> 0 \<le> b \<Longrightarrow>
    distribute_quota share rshare sizes g es b slots = Some (Inl AssertionError)
    \<or> (\<exists>slots' b'. distribute_quota share rshare sizes g es b slots = Some (Inr (slots', b')) \<and> 0 \<le> b' \<and> length slots' = length slots \<and> (\<forall>i. i \<notin> fst ` set es \<longrightarrow> slots' ! i = slots ! i)
         \<and> (\<forall>(idx, pg, r) \<in> set es. tight sizes g pg (slots' ! idx))
         \<and> sum_list (map (\<lambda>(idx, pg, r). cost sizes g pg (slots' ! idx)) es) = b - b')"
proof (induction es arbitrary: b slots)
  case Nil
  then show ?case by simp
next
  case (Cons x es)
  obtain idx pg r where x: "x = (idx, pg, r)" by (cases x)
  let ?rs = "r # map (\<lambda>(_, _, r). r) es" and ?b = "rshare b r (r # map (\<lambda>(_, _, r). r) es)"
  have pos: "\<forall>y \<in> set ?rs. 0 < y" using Cons.prems(2) x by auto
  then have b: "0 \<le> ?b" "?b \<le> b" using L Cons.prems(3) unfolding rshare_laws_def by (metis list.set_intros(1))+
  have ok: "idx < length slots" "sizes_ok (sizes ! pg)" using Cons.prems(2) x by auto
  show ?case
  proof (cases "grains_to_slots share ?b (sizes ! pg) g = Some (Inl AssertionError)")
    case True
    then show ?thesis by (simp add: x)
  next
    case False
    then obtain n where n: "grains_to_slots share ?b (sizes ! pg) g = Some (Inr (n, cost sizes g pg n))" "0 \<le> n"
      "cost sizes g pg n \<le> ?b" "?b < cost sizes g pg (n + 1)"
      using grains_to_slots_spec [OF g ok(2) b(1), of share] by auto
    let ?slots = "slots[idx := n]" and ?rest = "b - cost sizes g pg n"
    have d: "distinct (map fst es)" "\<forall>(i, pg, r) \<in> set es. i < length ?slots \<and> sizes_ok (sizes ! pg) \<and> 0 < r"
      "0 \<le> ?rest" and idx: "idx \<notin> fst ` set es"
      using Cons.prems n(3) b(2) x by auto
    have step: "distribute_quota share rshare sizes g (x # es) b slots = distribute_quota share rshare sizes g es ?rest ?slots"
      using n(1) by (simp add: x)
    have t: "tight sizes g pg n" using n by (simp add: tight_def)
    from Cons.IH [OF d] show ?thesis
    proof (elim disjE exE conjE)
      assume "distribute_quota share rshare sizes g es ?rest ?slots = Some (Inl AssertionError)"
      then show ?thesis unfolding step by (rule disjI1)
    next
      fix slots' b'
      assume r: "distribute_quota share rshare sizes g es ?rest ?slots = Some (Inr (slots', b'))" "0 \<le> b'"
        "length slots' = length ?slots" "\<forall>i. i \<notin> fst ` set es \<longrightarrow> slots' ! i = ?slots ! i"
        "\<forall>(idx, pg, r) \<in> set es. tight sizes g pg (slots' ! idx)"
        "sum_list (map (\<lambda>(idx, pg, r). cost sizes g pg (slots' ! idx)) es) = ?rest - b'"
      have "slots' ! idx = n" using r(4) idx ok(1) by simp
      then show ?thesis
        unfolding step using r t by (intro disjI2 exI [of _ slots'] exI [of _ b']) (auto simp: x)
    qed
  qed
qed

lemma pin_constrained_spec:
  assumes g: "0 < g"
  shows "distinct pgs \<Longrightarrow> \<forall>pg \<in> set pgs. pg < length cnts \<and> sizes_ok (sizes ! pg) \<and> 0 \<le> mins ! pg \<Longrightarrow>
    pin_constrained share sizes g mins pgs cnts b = Some (Inl AssertionError)
    \<or> (\<exists>cnts' b'. pin_constrained share sizes g mins pgs cnts b = Some (Inr (cnts', b')) \<and> length cnts' = length cnts \<and> (\<forall>i. i \<notin> set pgs \<longrightarrow> cnts' ! i = cnts ! i)
         \<and> (\<forall>pg \<in> set pgs. tight sizes g pg (cnts' ! pg) \<and> mins ! pg \<le> cnts' ! pg)
         \<and> sum_list (map (\<lambda>pg. cost sizes g pg (cnts' ! pg)) pgs) = b - b'
         \<and> b - b' \<le> sum_list (map (\<lambda>pg. cost sizes g pg (mins ! pg)) pgs))"
proof (induction pgs arbitrary: b cnts)
  case Nil
  then show ?case by simp
next
  case (Cons pg pgs)
  let ?G = "cost sizes g pg (mins ! pg)"
  have ok: "pg < length cnts" "sizes_ok (sizes ! pg)" "0 \<le> mins ! pg" using Cons.prems by auto
  have G: "0 \<le> ?G" using ok by (intro grains_nonneg [OF g]) auto
  show ?case
  proof (cases "grains_to_slots share ?G (sizes ! pg) g = Some (Inl AssertionError)")
    case True
    then show ?thesis by simp
  next
    case False
    then obtain n where n: "grains_to_slots share ?G (sizes ! pg) g = Some (Inr (n, cost sizes g pg n))" "0 \<le> n"
      "cost sizes g pg n \<le> ?G" "?G < cost sizes g pg (n + 1)"
      using grains_to_slots_spec [OF g ok(2) G, of share] by auto
    have min: "mins ! pg \<le> n"
      using n(4) grains_mono [OF g, of "sizes ! pg" "n + 1" "mins ! pg"] ok(2) by (metis not_le zless_imp_add1_zle)
    have t: "tight sizes g pg n" using n by (simp add: tight_def)
    have d: "distinct pgs" "\<forall>p \<in> set pgs. p < length (cnts[pg := n]) \<and> sizes_ok (sizes ! p) \<and> 0 \<le> mins ! p" and npg: "pg \<notin> set pgs"
      using Cons.prems by auto
    have step: "pin_constrained share sizes g mins (pg # pgs) cnts b
        = pin_constrained share sizes g mins pgs (cnts[pg := n]) (b - cost sizes g pg n)"
      using n(1) by simp
    from Cons.IH [OF d, of "b - cost sizes g pg n"] show ?thesis
    proof (elim disjE exE conjE)
      assume "pin_constrained share sizes g mins pgs (cnts[pg := n]) (b - cost sizes g pg n) = Some (Inl AssertionError)"
      then show ?thesis unfolding step by (rule disjI1)
    next
      fix cnts' b'
      assume r: "pin_constrained share sizes g mins pgs (cnts[pg := n]) (b - cost sizes g pg n) = Some (Inr (cnts', b'))"
        "length cnts' = length (cnts[pg := n])" "\<forall>i. i \<notin> set pgs \<longrightarrow> cnts' ! i = cnts[pg := n] ! i"
        "\<forall>pg \<in> set pgs. tight sizes g pg (cnts' ! pg) \<and> mins ! pg \<le> cnts' ! pg"
        "sum_list (map (\<lambda>pg. cost sizes g pg (cnts' ! pg)) pgs) = b - cost sizes g pg n - b'"
        "b - cost sizes g pg n - b' \<le> sum_list (map (\<lambda>pg. cost sizes g pg (mins ! pg)) pgs)"
      have "cnts' ! pg = n" using r(3) npg ok(1) by simp
      then show ?thesis
        unfolding step using r t min n(3) by (intro disjI2 exI [of _ cnts'] exI [of _ b']) auto
    qed
  qed
qed

lemma accept_slots_spec:
  "distinct (map fst ps) \<Longrightarrow> \<forall>pg \<in> set (map fst ps). pg < length cnts \<Longrightarrow>
    length (accept_slots ps cnts) = length cnts \<and> (\<forall>i. i \<notin> set (map fst ps) \<longrightarrow> accept_slots ps cnts ! i = cnts ! i)
    \<and> (\<forall>(pg, n) \<in> set ps. accept_slots ps cnts ! pg = n)"
  by (induction ps cnts rule: accept_slots.induct) auto

lemma sum_list_filter_split:
  "sum_list (map f (filter P xs)) + sum_list (map f (filter (\<lambda>x. \<not> P x) xs)) = sum_list (map (f :: 'a \<Rightarrow> int) xs)"
  by (induction xs) auto

text \<open>One round of the split, before the constrained pool groups are looked at.\<close>

lemma round_spec:
  assumes L: "rshare_laws rshare" and g: "0 < g"
    and act: "\<forall>pg \<in> set active. sizes_ok (sizes ! pg) \<and> 0 < ratios ! pg" and b: "0 \<le> b"
    and Q: "Q = distribute_quota share rshare sizes g
      (sort_key (\<lambda>(_, _, r). r) (map (\<lambda>(idx, pg). (idx, pg, ratios ! pg)) (enumerate 0 active))) b (replicate (length active) 0)"
  obtains "Q = Some (Inl AssertionError)"
  | slots b' where "Q = Some (Inr (slots, b'))" and "0 \<le> b'" and "length slots = length active"
    and "\<forall>(pg, n) \<in> set (zip active slots). tight sizes g pg n"
    and "sum_list (map (\<lambda>(pg, n). cost sizes g pg n) (zip active slots)) = b - b'"
proof -
  let ?es = "map (\<lambda>(idx, pg). (idx, pg, ratios ! pg)) (enumerate 0 active)"
  let ?ss = "sort_key (\<lambda>(_, _, r). r) ?es"
  have e1: "map fst ?es = [0..<length active]" by (simp add: comp_def case_prod_unfold)
  have "mset (map fst ?ss) = mset (map fst ?es)" unfolding mset_map mset_sort ..
  then have e2: "mset (map fst ?ss) = mset [0..<length active]" unfolding e1 .
  have d: "distinct (map fst ?ss)" by (rule iffD2 [OF mset_eq_imp_distinct_iff [OF e2] distinct_upt])
  have mem: "\<forall>(idx, pg, r) \<in> set ?ss. idx < length (replicate (length active) (0 :: int)) \<and> sizes_ok (sizes ! pg) \<and> 0 < r"
    using act by (auto simp: in_set_enumerate_eq)
  have sums: "sum_list (map (\<lambda>(idx, pg, r). cost sizes g pg (slots ! idx)) ?ss)
      = sum_list (map (\<lambda>(pg, n). cost sizes g pg n) (zip active slots))" if "length slots = length active" for slots
  proof -
    have perm: "sum_list (map f ?ss) = sum_list (map f ?es)" for f :: "nat \<times> nat \<times> real \<Rightarrow> int"
      unfolding sum_mset_sum_list [symmetric] mset_map mset_sort ..
    have "map (\<lambda>(idx, pg, r). cost sizes g pg (slots ! idx)) ?es = map (\<lambda>(pg, n). cost sizes g pg n) (zip active slots)"
      using that by (intro nth_equalityI) (auto simp: nth_enumerate_eq)
    then show ?thesis unfolding perm by simp
  qed
  have tights: "\<forall>(pg, n) \<in> set (zip active slots). tight sizes g pg n"
    if "\<forall>(idx, pg, r) \<in> set ?ss. tight sizes g pg (slots ! idx)" "length slots = length active" for slots
  proof (intro ballI, clarify)
    fix pg n assume "(pg, n) \<in> set (zip active slots)"
    then obtain i where "i < length active" "pg = active ! i" "n = slots ! i" by (auto simp: set_zip)
    then have "(i, pg, ratios ! pg) \<in> set ?ss" "n = slots ! i"
      by (auto simp: in_set_enumerate_eq image_iff intro!: bexI [of _ "(i, active ! i)"])
    then show "tight sizes g pg n" using that(1) by fastforce
  qed
  from distribute_quota_spec [OF L g d mem b, of share] show ?thesis
  proof (elim disjE exE conjE)
    assume "distribute_quota share rshare sizes g ?ss b (replicate (length active) 0) = Some (Inl AssertionError)"
    then show ?thesis using that(1) Q by simp
  next
    fix slots b'
    assume r: "distribute_quota share rshare sizes g ?ss b (replicate (length active) 0) = Some (Inr (slots, b'))" "0 \<le> b'"
      "length slots = length (replicate (length active) (0 :: int))" "\<forall>(idx, pg, r) \<in> set ?ss. tight sizes g pg (slots ! idx)"
      "sum_list (map (\<lambda>(idx, pg, r). cost sizes g pg (slots ! idx)) ?ss) = b - b'"
    have len: "length slots = length active" using r(3) by simp
    show ?thesis
      by (rule that(2) [of slots b']) (use r Q len sums [OF len] tights [OF r(4) len] in simp_all)
  qed
qed

declare split_loop.simps [simp del]

text \<open>What a result of the split guarantees for the active pool groups.\<close>

definition split_ok :: "int list list \<Rightarrow> int \<Rightarrow> int list \<Rightarrow> nat list \<Rightarrow> int list \<Rightarrow> int \<Rightarrow> int list \<Rightarrow> bool" where
  "split_ok sizes g mins active cnts b cnts' \<longleftrightarrow> length cnts' = length cnts
     \<and> (\<forall>pg. pg \<notin> set active \<longrightarrow> cnts' ! pg = cnts ! pg)
     \<and> (\<forall>pg \<in> set active. tight sizes g pg (cnts' ! pg) \<and> mins ! pg \<le> cnts' ! pg)
     \<and> sum_list (map (\<lambda>pg. cost sizes g pg (cnts' ! pg)) active)
         \<le> max b (sum_list (map (\<lambda>pg. cost sizes g pg (mins ! pg)) active))"

lemma accept_ok:
  assumes d: "distinct active" and lt: "\<forall>pg \<in> set active. pg < length cnts" and len: "length slots = length active"
    and t: "\<forall>(pg, n) \<in> set (zip active slots). tight sizes g pg n"
    and sum: "sum_list (map (\<lambda>(pg, n). cost sizes g pg n) (zip active slots)) \<le> b"
    and un: "filter (\<lambda>(pg, n). n \<le> mins ! pg) (zip active slots) = []"
  shows "split_ok sizes g mins active cnts b (accept_slots (zip active slots) cnts)"
proof -
  let ?c = "accept_slots (zip active slots) cnts"
  have fst: "map fst (zip active slots) = active" using len by simp
  have c: "length ?c = length cnts" "\<forall>i. i \<notin> set active \<longrightarrow> ?c ! i = cnts ! i" "\<forall>(pg, n) \<in> set (zip active slots). ?c ! pg = n"
    using accept_slots_spec [of "zip active slots" cnts] d lt unfolding fst by auto
  have ex: "\<exists>n. (pg, n) \<in> set (zip active slots)" if "pg \<in> set active" for pg
    using that len by (metis in_set_impl_in_set_zip1)
  have "map (\<lambda>(pg, n). cost sizes g pg n) (zip active slots) = map (\<lambda>(pg, n). cost sizes g pg (?c ! pg)) (zip active slots)"
    using c(3) by (intro map_cong) auto
  also have "\<dots> = map (\<lambda>pg. cost sizes g pg (?c ! pg)) (map fst (zip active slots))" by (simp add: comp_def case_prod_unfold)
  finally have "sum_list (map (\<lambda>pg. cost sizes g pg (?c ! pg)) active) \<le> b" using sum unfolding fst by simp
  moreover have "tight sizes g pg (?c ! pg) \<and> mins ! pg \<le> ?c ! pg" if "pg \<in> set active" for pg
    using ex [OF that] c(3) t un by (fastforce simp: filter_empty_conv)
  ultimately show ?thesis using c(1,2) by (auto simp: split_ok_def)
qed

lemma pin_ok:
  assumes d: "distinct active" and parts: "mset con + mset unc = mset active"
    and pin: "length cnts1 = length cnts" "\<forall>i. i \<notin> set con \<longrightarrow> cnts1 ! i = cnts ! i"
      "\<forall>pg \<in> set con. tight sizes g pg (cnts1 ! pg) \<and> mins ! pg \<le> cnts1 ! pg"
      "sum_list (map (\<lambda>pg. cost sizes g pg (cnts1 ! pg)) con) = b - b1"
      "b - b1 \<le> sum_list (map (\<lambda>pg. cost sizes g pg (mins ! pg)) con)"
    and rest: "split_ok sizes g mins unc cnts1 b1 cnts'"
  shows "split_ok sizes g mins active cnts b cnts'"
proof -
  have set: "set active = set con \<union> set unc" using arg_cong [OF parts, of set_mset] by simp
  have "distinct (con @ unc)" using parts d mset_eq_imp_distinct_iff [of "con @ unc" active] by simp
  then have disj: "set con \<inter> set unc = {}" by simp
  have split: "sum_list (map f active) = sum_list (map f con) + sum_list (map f unc)" for f :: "nat \<Rightarrow> int"
    unfolding sum_mset_sum_list [symmetric] mset_map parts [symmetric] by simp
  have same: "\<forall>pg \<in> set con. cnts' ! pg = cnts1 ! pg" using rest disj by (auto simp: split_ok_def)
  then have "map (\<lambda>pg. cost sizes g pg (cnts' ! pg)) con = map (\<lambda>pg. cost sizes g pg (cnts1 ! pg)) con" by simp
  then have "sum_list (map (\<lambda>pg. cost sizes g pg (cnts' ! pg)) con) = b - b1" using pin(4) by (simp only:)
  moreover have "sum_list (map (\<lambda>pg. cost sizes g pg (cnts' ! pg)) unc)
      \<le> max b1 (sum_list (map (\<lambda>pg. cost sizes g pg (mins ! pg)) unc))" using rest by (simp add: split_ok_def)
  ultimately have "sum_list (map (\<lambda>pg. cost sizes g pg (cnts' ! pg)) active)
      \<le> max b (sum_list (map (\<lambda>pg. cost sizes g pg (mins ! pg)) active))"
    using pin(5) unfolding split by linarith
  then show ?thesis using pin rest same set by (auto simp: split_ok_def)
qed

lemma split_loop_spec:
  assumes L: "rshare_laws rshare" and g: "0 < g"
  shows "distinct active \<Longrightarrow>
    \<forall>pg \<in> set active. pg < length cnts \<and> sizes_ok (sizes ! pg) \<and> 0 < ratios ! pg \<and> 0 \<le> mins ! pg \<Longrightarrow> 0 \<le> b \<Longrightarrow>
    split_loop share rshare sizes g ratios mins active cnts b \<in> {Some (Inl AssertionError), Some (Inl ValueError)}
    \<or> (\<exists>cnts'. split_loop share rshare sizes g ratios mins active cnts b = Some (Inr cnts')
        \<and> split_ok sizes g mins active cnts b cnts')"
proof (induction "length active" arbitrary: active cnts b rule: less_induct)
  case less
  show ?case
  proof (cases "active = []")
    case True
    then show ?thesis using less.prems(3) by (simp add: split_loop.simps [of _ _ _ _ _ _ "[]"] split_ok_def)
  next
    case ne: False
    have act: "\<forall>pg \<in> set active. sizes_ok (sizes ! pg) \<and> 0 < ratios ! pg" using less.prems(2) by auto
    let ?Q = "distribute_quota share rshare sizes g
      (sort_key (\<lambda>(_, _, r). r) (map (\<lambda>(idx, pg). (idx, pg, ratios ! pg)) (enumerate 0 active))) b (replicate (length active) 0)"
    note unfold = split_loop.simps [of share rshare sizes g ratios mins active cnts b]
    show ?thesis
    proof (rule round_spec [OF L g act less.prems(3) refl [of ?Q]])
      assume "?Q = Some (Inl AssertionError)"
      then show ?thesis using ne unfolding unfold by simp
    next
      fix slots b'
      assume r: "?Q = Some (Inr (slots, b'))" "0 \<le> b'" "length slots = length active"
        "\<forall>(pg, n) \<in> set (zip active slots). tight sizes g pg n"
        "sum_list (map (\<lambda>(pg, n). cost sizes g pg n) (zip active slots)) = b - b'"
      define con where "con = filter (\<lambda>(pg, n). n \<le> mins ! pg) (zip active slots)"
      define unc where "unc = filter (\<lambda>(pg, n). \<not> n \<le> mins ! pg) (zip active slots)"
      have lt: "\<forall>pg \<in> set active. pg < length cnts" using less.prems(2) by auto
      have zfst: "map fst (zip active slots) = active" using r(3) by simp
      have "mset con + mset unc = mset (zip active slots)"
        unfolding con_def unc_def case_prod_unfold mset_filter by (rule multiset_partition [symmetric])
      then have parts: "mset (map fst con) + mset (map fst unc) = mset active"
        unfolding mset_map by (metis image_mset_union mset_map zfst)
      have step: "split_loop share rshare sizes g ratios mins active cnts b =
        (if con = [] then Some (Inr (accept_slots (zip active slots) cnts))
         else case pin_constrained share sizes g mins (map fst con) cnts b of
           None \<Rightarrow> None | Some (Inl e) \<Rightarrow> Some (Inl e)
         | Some (Inr (cnts', b1)) \<Rightarrow> if unc = [] then Some (Inr cnts') else if b1 \<le> 0 then Some (Inl ValueError)
             else split_loop share rshare sizes g ratios mins (map fst unc) cnts' b1)"
        unfolding unfold con_def unc_def using ne r(1,2) by (simp add: Let_def)
      show ?thesis
      proof (cases "con = []")
        case True
        have "sum_list (map (\<lambda>(pg, n). cost sizes g pg n) (zip active slots)) \<le> b" using r(2,5) by simp
        from accept_ok [OF less.prems(1) lt r(3,4) this True [unfolded con_def]] True show ?thesis unfolding step by simp
      next
        case False
        have sub: "set (map fst con) \<subseteq> set active" "set (map fst unc) \<subseteq> set active"
          using arg_cong [OF parts, of set_mset] by auto
        have "distinct (map fst con @ map fst unc)"
          using parts less.prems(1) mset_eq_imp_distinct_iff [of "map fst con @ map fst unc" active] by simp
        then have dist: "distinct (map fst con)" "distinct (map fst unc)" by auto
        have "\<forall>pg \<in> set (map fst con). pg < length cnts \<and> sizes_ok (sizes ! pg) \<and> 0 \<le> mins ! pg"
          using sub(1) less.prems(2) by blast
        from pin_constrained_spec [OF g dist(1) this, of share b] show ?thesis
        proof (elim disjE exE conjE)
          assume "pin_constrained share sizes g mins (map fst con) cnts b = Some (Inl AssertionError)"
          then show ?thesis unfolding step using False by simp
        next
          fix cnts1 b1
          assume p: "pin_constrained share sizes g mins (map fst con) cnts b = Some (Inr (cnts1, b1))"
            "length cnts1 = length cnts" "\<forall>i. i \<notin> set (map fst con) \<longrightarrow> cnts1 ! i = cnts ! i"
            "\<forall>pg \<in> set (map fst con). tight sizes g pg (cnts1 ! pg) \<and> mins ! pg \<le> cnts1 ! pg"
            "sum_list (map (\<lambda>pg. cost sizes g pg (cnts1 ! pg)) (map fst con)) = b - b1"
            "b - b1 \<le> sum_list (map (\<lambda>pg. cost sizes g pg (mins ! pg)) (map fst con))"
          note pin = pin_ok [OF less.prems(1) parts p(2-6)]
          show ?thesis
          proof (cases "unc = [] \<or> b1 \<le> 0")
            case True
            moreover have "split_ok sizes g mins (map fst unc) cnts1 b1 cnts1" if "unc = []"
              using that p(5,6) by (auto simp: split_ok_def)
            ultimately show ?thesis unfolding step using False p(1) pin by auto
          next
            case rec: False
            have "length (map fst unc) < length active"
              using arg_cong [OF parts, of size] False by (cases con) auto
            moreover have "\<forall>pg \<in> set (map fst unc). pg < length cnts1 \<and> sizes_ok (sizes ! pg) \<and> 0 < ratios ! pg \<and> 0 \<le> mins ! pg"
              using sub(2) less.prems(2) p(2) by auto
            ultimately show ?thesis
              unfolding step using less.hyps [of "map fst unc" cnts1 b1] dist(2) rec False p(1) pin by auto
          qed
        qed
      qed
    qed
  qed
qed

lemma bump_all_tight:
  "list_all2 (\<lambda>s n. grains_for_slots n s g < grains_for_slots (n + 1) s g) sizes cnts \<Longrightarrow> bump_all sizes g cnts = Some cnts"
proof (induction sizes g cnts rule: bump_all.induct)
  case (1 s ss g n ns)
  then have "bump_slots s g (grains_for_slots n s g) n = Some n" by (subst bump_slots.simps) simp
  with 1 show ?case by simp
qed auto

text \<open>Rounding to the nearest integer, ties to even, and rounding down, as instances of the two shares.\<close>

definition nearest_share :: "int \<Rightarrow> int \<Rightarrow> int \<Rightarrow> int" where
  "nearest_share b s t =
     (let d = b * s div t; r = 2 * (b * s mod t)
      in if r < t then d else if t < r then d + 1 else if even d then d else d + 1)"

definition floor_rshare :: "int \<Rightarrow> real \<Rightarrow> real list \<Rightarrow> int" where
  "floor_rshare b r rs = \<lfloor>of_int b * (r / sum_list rs)\<rfloor>"

lemma nearest_share_laws: "share_laws nearest_share"
  by (simp add: share_laws_def nearest_share_def Let_def)

lemma member_le_sum_list_real: "\<forall>x \<in> set xs. 0 < x \<Longrightarrow> r \<in> set xs \<Longrightarrow> r \<le> sum_list (xs :: real list)"
proof (induction xs)
  case (Cons x xs)
  have "0 \<le> sum_list xs" using Cons.prems(1) by (intro sum_list_nonneg) force
  with Cons show ?case by auto
qed simp

lemma floor_rshare_laws: "rshare_laws floor_rshare"
proof -
  have "0 \<le> floor_rshare b r rs \<and> floor_rshare b r rs \<le> b"
    if "0 \<le> b" "r \<in> set rs" "\<forall>x \<in> set rs. 0 < x" for b r rs
  proof -
    have "r \<le> sum_list rs" using that by (intro member_le_sum_list_real) auto
    moreover have "0 < r" using that by blast
    ultimately have q: "0 \<le> r / sum_list rs" "r / sum_list rs \<le> 1" by simp_all
    have "of_int b * (r / sum_list rs) \<le> of_int b * 1" using q that(1) by (intro mult_left_mono) auto
    then have "floor_rshare b r rs \<le> b" unfolding floor_rshare_def by linarith
    moreover have "0 \<le> of_int b * (r / sum_list rs)" using q that(1) by (intro mult_nonneg_nonneg) auto
    then have "0 \<le> floor_rshare b r rs" unfolding floor_rshare_def by (simp only: zero_le_floor)
    ultimately show ?thesis by simp
  qed
  then show ?thesis by (simp add: rshare_laws_def)
qed

section \<open>Properties\<close>

text \<open>
  C19 \<open>_grains_to_slots\<close> always ends. When it returns \<open>n\<close>, the reported grains are the
  cost of \<open>n\<close> slots, they fit the budget, and \<open>n + 1\<close> slots do not. It can only fail with an
  \<open>AssertionError\<close>, only for a pool group with several pools, and only when at least one slot would fit; with a
  single pool it always returns.
\<close>

theorem grains_to_slots_maximal:
  assumes "share_laws share" and "0 < g" and "sizes \<noteq> []" and "list_all (\<lambda>s. 0 < s) sizes" and "0 \<le> G"
  shows "case grains_to_slots share G sizes g of
      None \<Rightarrow> False
    | Some (Inl e) \<Rightarrow> e = AssertionError \<and> 1 < length sizes \<and> grains_for_slots 1 sizes g \<le> G
    | Some (Inr (n, used)) \<Rightarrow> 0 \<le> n \<and> used = grains_for_slots n sizes g \<and> used \<le> G
        \<and> G < grains_for_slots (n + 1) sizes g"
proof -
  have ok: "sizes_ok sizes" using assms by simp
  from grains_to_slots_spec [OF assms(2) ok assms(5), of share] show ?thesis
  proof (elim disjE exE conjE)
    assume r: "grains_to_slots share G sizes g = Some (Inl AssertionError)" "grains_for_slots 1 sizes g \<le> G"
      "snd (distribute_grains share g (sort sizes) (2 ^ 63) G) \<noteq> 0"
    have "length sizes \<noteq> 1"
    proof
      assume "length sizes = 1"
      then obtain s where "sizes = [s]" by (auto simp: length_Suc_conv)
      then show False using distribute_single [OF assms(1,2), of s G "2 ^ 63"] r(2,3) assms(4)
        by (simp add: grains_one)
    qed
    then show ?thesis using r assms(3) by (cases sizes) auto
  qed simp
qed

theorem grains_to_slots_maximal_witness:
  "case grains_to_slots nearest_share 7 [300] 100 of Some (Inr (n, used)) \<Rightarrow>
     used = grains_for_slots n [300] 100 \<and> used \<le> 7 \<and> 7 < grains_for_slots (n + 1) [300] 100 | _ \<Rightarrow> False"
  using grains_to_slots_maximal [OF nearest_share_laws, of 100 "[300]" 7]
  by (cases "grains_to_slots nearest_share 7 [300] 100") (auto split: sum.splits)

text \<open>
  The assertion that all grains are handed out can fail. With granularity 100, pools of slot sizes 100,
  101 and 101 and a budget of five grains, one slot costs exactly the five grains, but the shares rounded to nearest (2, 2, and at
  least 2 for the last pool) exceed the budget and \<open>_grains_to_slots\<close> raises \<open>AssertionError\<close>.
\<close>

lemma grains_to_slots_overshoot:
  "grains_for_slots 1 [100, 101, 101] 100 = 5
    \<and> grains_to_slots nearest_share 5 [100, 101, 101] 100 = Some (Inl AssertionError)"
  by code_simp

text \<open>
  C18 The split of a quota always ends, with an error or with slot counts such that every pool group has at least its minimum, no
  pool group could have one more slot for the same grains, and the grains of all pool groups together exceed neither the
  quota nor, if that is larger, the grains of all minimums together.
\<close>

theorem ratio_split_sound:
  assumes L: "rshare_laws rshare" and g: "0 < g" and q: "0 \<le> total_quota"
    and sizes: "list_all (\<lambda>s. s \<noteq> [] \<and> list_all (\<lambda>x. 0 < x) s) sizes"
    and mins: "length mins = length sizes" "list_all (\<lambda>m. 0 \<le> m) mins"
  shows "case ratio_to_slot_count_list share rshare total_quota sizes ratios g mins of
      None \<Rightarrow> False
    | Some (Inl e) \<Rightarrow> e = AssertionError \<or> e = ValueError
    | Some (Inr cnts) \<Rightarrow> length cnts = length sizes
        \<and> (\<forall>pg < length sizes. mins ! pg \<le> cnts ! pg
             \<and> grains_for_slots (cnts ! pg) (sizes ! pg) g < grains_for_slots (cnts ! pg + 1) (sizes ! pg) g)
        \<and> (\<Sum>pg < length sizes. grains_for_slots (cnts ! pg) (sizes ! pg) g)
            \<le> max (total_quota div g) (\<Sum>pg < length sizes. grains_for_slots (mins ! pg) (sizes ! pg) g)"
proof (cases "list_all (\<lambda>x. 0 < x) ratios \<and> length ratios = length sizes \<and> total_quota mod g = 0
    \<and> int (sum_list (map length sizes)) \<le> total_quota div g")
  case False
  then show ?thesis by (auto simp: ratio_to_slot_count_list_def)
next
  case True
  let ?n = "length sizes" and ?b = "total_quota div g"
  let ?S = "split_loop share rshare sizes g ratios mins [0..<?n] (replicate ?n 0) ?b"
  have R: "ratio_to_slot_count_list share rshare total_quota sizes ratios g mins =
    (case ?S of None \<Rightarrow> None | Some (Inl e) \<Rightarrow> Some (Inl e)
     | Some (Inr cnts) \<Rightarrow> (case bump_all sizes g cnts of None \<Rightarrow> None | Some r \<Rightarrow> Some (Inr r)))"
    using True by (simp add: ratio_to_slot_count_list_def)
  have "\<forall>pg \<in> set [0..<?n]. pg < length (replicate ?n (0 :: int)) \<and> sizes_ok (sizes ! pg) \<and> 0 < ratios ! pg \<and> 0 \<le> mins ! pg"
    using True sizes mins by (auto simp: list_all_length)
  moreover have "0 \<le> ?b" using q g by (simp add: pos_imp_zdiv_nonneg_iff)
  ultimately consider "?S \<in> {Some (Inl AssertionError), Some (Inl ValueError)}"
    | cnts where "?S = Some (Inr cnts)" "split_ok sizes g mins [0..<?n] (replicate ?n 0) ?b cnts"
    using split_loop_spec [OF L g distinct_upt] by blast
  then show ?thesis
  proof cases
    case 1
    then show ?thesis unfolding R by auto
  next
    case (2 cnts)
    have c: "length cnts = ?n" "\<forall>pg < ?n. tight sizes g pg (cnts ! pg) \<and> mins ! pg \<le> cnts ! pg"
      "sum_list (map (\<lambda>pg. cost sizes g pg (cnts ! pg)) [0..<?n])
         \<le> max ?b (sum_list (map (\<lambda>pg. cost sizes g pg (mins ! pg)) [0..<?n]))"
      using 2(2) unfolding split_ok_def by auto
    have "bump_all sizes g cnts = Some cnts"
      using c(1,2) by (intro bump_all_tight) (auto simp: list_all2_conv_all_nth tight_def)
    then show ?thesis
      unfolding R 2(1) using c by (simp add: tight_def interv_sum_list_conv_sum_set_nat atLeast0LessThan)
  qed
qed

theorem ratio_split_sound_witness:
  "case ratio_to_slot_count_list nearest_share floor_rshare 1000 [[100], [200]] [1, 1] 100 [1, 1] of
     None \<Rightarrow> False | Some (Inl e) \<Rightarrow> e = AssertionError \<or> e = ValueError
   | Some (Inr cnts) \<Rightarrow> length cnts = 2 \<and> 1 \<le> cnts ! 0 \<and> 1 \<le> cnts ! 1"
  using ratio_split_sound [OF floor_rshare_laws, of 100 1000 "[[100], [200]]" "[1, 1]" nearest_share "[1, 1]"]
  by (cases "ratio_to_slot_count_list nearest_share floor_rshare 1000 [[100], [200]] [1, 1] 100 [1, 1]")
    (auto split: sum.splits)

lemma grains_single [simp]: "grains_for_slots n [s] g = div_up (n * s) g"
  by (simp add: grains_for_slots_def)

lemma grains_to_slots_single:
  assumes "share_laws share" and "0 < g" and "0 < s" and "0 \<le> G"
  shows "grains_to_slots share G [s] g = Some (Inr (G * g div s, div_up (G * g div s * s) g))"
    and "div_up (G * g div s * s) g \<le> G" and "G < div_up ((G * g div s + 1) * s) g"
proof -
  have "grains_for_slots 1 [s] g \<le> G \<Longrightarrow> snd (distribute_grains share g (sort [s]) (2 ^ 63) G) = 0"
    using distribute_single [OF assms(1-3), of G "2 ^ 63"] by simp
  then obtain n where n: "grains_to_slots share G [s] g = Some (Inr (n, div_up (n * s) g))" "div_up (n * s) g \<le> G" "G < div_up ((n + 1) * s) g"
    using grains_to_slots_spec [OF assms(2) _ assms(4), of "[s]" share] assms(3) by auto
  have "n * s \<le> G * g" "G * g < (n + 1) * s" using n(2,3) assms(2) by (simp_all add: div_up_le_iff less_div_up_iff)
  then have "G * g div s = n" using assms(3) by (intro int_div_pos_eq [of _ _ _ "G * g - n * s"]) (auto simp: algebra_simps)
  then show "grains_to_slots share G [s] g = Some (Inr (G * g div s, div_up (G * g div s * s) g))"
    "div_up (G * g div s * s) g \<le> G" "G < div_up ((G * g div s + 1) * s) g" using n by simp_all
qed

text \<open>
  C38 The split for one pool group with one pool, in closed form: for a quota of \<open>T\<close> grains and a minimum of
  \<open>m\<close> slots of size \<open>s\<close>, the result is the number of slots that the quota or, if that is more, the grains of the
  minimum afford. No error is raised, and the slots returned cost more than the quota exactly when the minimum does:
  the check against the quota is only made while other pool groups remain. The share of a sole pool group is the
  whole budget.
\<close>

theorem single_pool_slot_count:
  assumes "share_laws share" and "rshare T r [r] = T" and "0 < g" and "0 < s" and "0 < r" and "1 \<le> T" and "0 \<le> m"
  shows "ratio_to_slot_count_list share rshare (T * g) [[s]] [r] g [m] = Some (Inr [max T (div_up (m * s) g) * g div s])
    \<and> (T < grains_for_slots (max T (div_up (m * s) g) * g div s) [s] g \<longleftrightarrow> T < div_up (m * s) g)"
proof -
  define G where "G = div_up (m * s) g"
  have G: "0 \<le> G" using assms by (simp add: G_def div_up_nonneg)
  note single = grains_to_slots_single [OF assms(1,3,4)]
  have le: "m \<le> G * g div s" using div_up_ge [OF assms(3), of "m * s"] zdiv_mono1 [of "m * s" "G * g" s] assms(4) by (simp add: G_def)
  have ge: "T * g div s = G * g div s" if "G \<le> T" "T * g div s \<le> m"
    using zdiv_mono1 [of "G * g" "T * g" s] that le assms(3,4) by (simp add: mult_right_mono)
  have lt: "G \<le> T" if "m < T * g div s"
  proof -
    have "m * s \<le> T * g div s * s" using that assms(4) by (intro mult_right_mono) auto
    also have "\<dots> \<le> T * g" using assms(4) by (simp add: minus_mod_eq_div_mult [symmetric])
    finally show ?thesis using assms(3) by (simp add: G_def div_up_le_iff)
  qed
  have loop: "split_loop share rshare [[s]] g [r] [m] [0] [0] T = Some (Inr [max T G * g div s])"
  proof (cases "T * g div s \<le> m")
    case True
    then have "max T G * g div s = G * g div s" using ge by (auto simp: max_def)
    then show ?thesis using True single [of T] single [of G] assms(2,6) G by (simp add: split_loop.simps [of _ _ _ _ _ _ "[0]"] Let_def flip: G_def)
  next
    case False
    then have "max T G = T" using lt by simp
    then show ?thesis using False single [of T] assms(2,6) by (simp add: split_loop.simps [of _ _ _ _ _ _ "[0]"] Let_def)
  qed
  have M: "div_up (max T G * g div s * s) g \<le> max T G" "max T G < div_up ((max T G * g div s + 1) * s) g" using single(2,3) [of "max T G"] G by simp_all
  then have "bump_all [[s]] g [max T G * g div s] = Some [max T G * g div s]" by (intro bump_all_tight) (simp del: max_less_iff_conj)
  then have "ratio_to_slot_count_list share rshare (T * g) [[s]] [r] g [m] = Some (Inr [max T G * g div s])"
    using loop assms(3,5,6) by (simp add: ratio_to_slot_count_list_def)
  moreover have "T < div_up (max T G * g div s * s) g \<longleftrightarrow> T < G"
  proof
    assume "T < G"
    then have "m * s \<le> max T G * g div s * s" using le assms(4) by (intro mult_right_mono) auto
    then have "G \<le> div_up (max T G * g div s * s) g" unfolding G_def by (rule div_up_mono [OF assms(3)])
    then show "T < div_up (max T G * g div s * s) g" using \<open>T < G\<close> by simp
  qed (use M(1) in linarith)
  ultimately show ?thesis by (simp add: G_def)
qed

theorem single_pool_slot_count_witness:
  "ratio_to_slot_count_list nearest_share floor_rshare (5 * 100) [[100]] [1] 100 [8] = Some (Inr [8])
   \<and> 5 < grains_for_slots 8 [100] 100"
  using single_pool_slot_count [OF nearest_share_laws, of floor_rshare 5 1 100 100 8] by (simp add: floor_rshare_def div_up_def)

end
