(* ===== verification/KV_Cache_Key.thy ===== *)
theory KV_Cache_Key
  imports KV_Utils
begin

text \<open>
  Reuse keys (\<^verbatim>\<open>_cache_key.py\<close>). A sequence of tokens is cut into blocks; the key of a block is the
  hash of the key before it followed by the bytes of its tokens, and the chain starts with the hash of the reuse
  scope. Bytes are 8-bit words. The hash \<open>H\<close> (SHA-256 of \<^verbatim>\<open>hashlib\<close>) is an argument; where keys
  are compared, the facts assume that \<open>H\<close> has no collision among the inputs at hand and that its results are
  32 bytes long.
\<close>

unbundle bit_operations_syntax

type_synonym byte = "8 word"

section \<open>Bytes of integers\<close>

text \<open>\<^verbatim>\<open>int.to_bytes(n, "little")\<close>.\<close>

fun le_bytes :: "nat \<Rightarrow> int \<Rightarrow> byte list" where
  "le_bytes 0 v = []"
| "le_bytes (Suc n) v = word_of_int v # le_bytes n (v div 256)"

definition to_bytes :: "nat \<Rightarrow> int \<Rightarrow> byte list res" where
  "to_bytes n v = guardR (0 \<le> v \<and> v < 256 ^ n) OverflowError (Inr (le_bytes n v))"

lemma length_le_bytes [simp]: "length (le_bytes n v) = n"
  by (induction n v rule: le_bytes.induct) auto

lemma le_bytes_inj:
  "le_bytes n u = le_bytes n v \<Longrightarrow> 0 \<le> u \<Longrightarrow> u < 256 ^ n \<Longrightarrow> 0 \<le> v \<Longrightarrow> v < 256 ^ n \<Longrightarrow> u = v"
proof (induction n arbitrary: u v)
  case 0
  then show ?case by simp
next
  case (Suc n)
  have "(word_of_int u :: byte) = word_of_int v" using Suc.prems(1) by simp
  then have low: "u mod 256 = v mod 256" by (simp add: word_of_int_eq_iff take_bit_eq_mod)
  have "u div 256 < 256 ^ n" "v div 256 < 256 ^ n" using Suc.prems by (auto simp: div_less_iff)
  moreover have "0 \<le> u div 256" "0 \<le> v div 256" using Suc.prems by auto
  ultimately have "u div 256 = v div 256" using Suc.IH Suc.prems(1) by simp
  then show ?case using low by (metis div_mult_mod_eq)
qed

section \<open>Tokens and the hasher\<close>

datatype token_id_ext = Tok int | Dig "byte list"

fun gen_tokens_loop :: "int \<Rightarrow> byte list \<Rightarrow> int \<Rightarrow> nat \<Rightarrow> int \<Rightarrow> token_id_ext list" where
  "gen_tokens_loop id_offset digest token_offset 0 i = []"
| "gen_tokens_loop id_offset digest token_offset (Suc n) i =
     (if token_offset + i = 0 then Dig digest else Tok (id_offset + token_offset + i))
       # gen_tokens_loop id_offset digest token_offset n (i + 1)"

definition gen_multimodal_cache_key_tokens :: "int \<Rightarrow> byte list \<Rightarrow> int \<Rightarrow> int \<Rightarrow> token_id_ext list res" where
  "gen_multimodal_cache_key_tokens id_offset digest num_tokens token_offset =
     assertR (0 < num_tokens) (assertR (0 \<le> token_offset)
       (Inr (gen_tokens_loop id_offset digest token_offset (nat num_tokens) 0)))"

text \<open>
  A hasher is the bytes it has been fed. A block of tokens goes in at once when all
  are integers below \<open>2 ^ 64\<close> (\<^verbatim>\<open>array("Q", data)\<close>); otherwise one by one, where an integer out of
  range raises.
\<close>

type_synonym hasher = "byte list"

definition hasher_update_int :: "bool \<Rightarrow> hasher \<Rightarrow> int \<Rightarrow> hasher res" where
  "hasher_update_int ndebug h v =
     assertR (ndebug \<or> (0 \<le> v \<and> v < 2 ^ 64)) (bindR (to_bytes 8 v) (\<lambda>b. Inr (h @ b)))"

definition hasher_update_bytes :: "hasher \<Rightarrow> byte list \<Rightarrow> hasher" where
  "hasher_update_bytes h b = h @ b"

fun is_uint64 :: "token_id_ext \<Rightarrow> bool" where
  "is_uint64 (Tok v) \<longleftrightarrow> 0 \<le> v \<and> v < 2 ^ 64"
| "is_uint64 (Dig b) \<longleftrightarrow> False"

fun array_bytes :: "token_id_ext list \<Rightarrow> byte list" where
  "array_bytes [] = []"
| "array_bytes (Tok v # ts) = le_bytes 8 v @ array_bytes ts"
| "array_bytes (Dig b # ts) = array_bytes ts"

fun hasher_update_items :: "bool \<Rightarrow> hasher \<Rightarrow> token_id_ext list \<Rightarrow> hasher res" where
  "hasher_update_items ndebug h [] = Inr h"
| "hasher_update_items ndebug h (Tok v # ts) =
     assertR (ndebug \<or> (0 \<le> v \<and> v < 2 ^ 64)) (
     bindR (to_bytes 8 v) (\<lambda>b. hasher_update_items ndebug (h @ b) ts))"
| "hasher_update_items ndebug h (Dig b # ts) = hasher_update_items ndebug (h @ b) ts"

definition hasher_update_tokens :: "bool \<Rightarrow> hasher \<Rightarrow> token_id_ext list \<Rightarrow> hasher res" where
  "hasher_update_tokens ndebug h ts =
     (if list_all is_uint64 ts then Inr (h @ array_bytes ts) else hasher_update_items ndebug h ts)"

definition hasher_digest :: "(byte list \<Rightarrow> byte list) \<Rightarrow> hasher \<Rightarrow> byte list" where
  "hasher_digest H h = H h"

section \<open>Reuse scopes and block keys\<close>

fun scope_mask :: "nat \<Rightarrow> int option list \<Rightarrow> int" where
  "scope_mask i [] = 0"
| "scope_mask i (v # vs) = (if v = None then 0 else push_bit i 1) + scope_mask (i + 1) vs"

fun scope_values :: "int option list \<Rightarrow> byte list res" where
  "scope_values [] = Inr []"
| "scope_values (None # vs) = scope_values vs"
| "scope_values (Some v # vs) = bindR (to_bytes 8 v) (\<lambda>b. bindR (scope_values vs) (\<lambda>bs. Inr (b @ bs)))"

definition reuse_scope_to_bytes :: "int option list \<Rightarrow> byte list res" where
  "reuse_scope_to_bytes values =
     bindR (to_bytes ((length values + 7) div 8) (scope_mask 0 values)) (\<lambda>m.
     bindR (scope_values values) (\<lambda>bs. Inr (m @ bs)))"

definition root_key :: "(byte list \<Rightarrow> byte list) \<Rightarrow> int option list \<Rightarrow> byte list res" where
  "root_key H scope = bindR (reuse_scope_to_bytes scope) (\<lambda>b. Inr (hasher_digest H (hasher_update_bytes [] b)))"

definition block_key :: "bool \<Rightarrow> (byte list \<Rightarrow> byte list) \<Rightarrow> byte list \<Rightarrow> token_id_ext list \<Rightarrow> byte list res" where
  "block_key ndebug H prev_key tokens =
     bindR (hasher_update_tokens ndebug (hasher_update_bytes [] prev_key) tokens) (\<lambda>h. Inr (hasher_digest H h))"

text \<open>\<^verbatim>\<open>islice\<close> with zero tokens per block gives the empty block at once, which ends the loop.\<close>

fun chain_keys :: "bool \<Rightarrow> (byte list \<Rightarrow> byte list) \<Rightarrow> nat \<Rightarrow> byte list \<Rightarrow> token_id_ext list
    \<Rightarrow> (token_id_ext list \<times> byte list) list res" where
  "chain_keys ndebug H tpb digest tokens =
     (if take tpb tokens = [] then Inr []
      else bindR (block_key ndebug H digest (take tpb tokens)) (\<lambda>key.
           bindR (chain_keys ndebug H tpb key (drop tpb tokens)) (\<lambda>rest.
             Inr ((take tpb tokens, key) # rest))))"

declare chain_keys.simps [simp del]

definition sequence_to_blockchain_keys :: "bool \<Rightarrow> (byte list \<Rightarrow> byte list) \<Rightarrow> nat \<Rightarrow> int option list
    \<Rightarrow> token_id_ext list \<Rightarrow> (token_id_ext list \<times> byte list) list res" where
  "sequence_to_blockchain_keys ndebug H tokens_per_block reuse_scope tokens =
     bindR (root_key H reuse_scope) (\<lambda>digest.
     bindR (chain_keys ndebug H tokens_per_block digest tokens) (\<lambda>rest. Inr (([], digest) # rest)))"

section \<open>Encodings are injective\<close>

lemma array_bytes_inj:
  "list_all is_uint64 ts \<Longrightarrow> list_all is_uint64 us \<Longrightarrow> array_bytes ts = array_bytes us \<Longrightarrow> ts = us"
proof (induction ts arbitrary: us rule: array_bytes.induct)
  case 1
  then show ?case by (cases us rule: array_bytes.cases) (auto dest: arg_cong [of _ _ length])
next
  case (2 v ts)
  note IH = 2(1) and prems = 2(2-4)
  show ?case
  proof (cases us rule: array_bytes.cases)
    case 1
    then show ?thesis using prems(3) by (auto dest: arg_cong [of _ _ length])
  next
    case us: (2 w us')
    have eq: "le_bytes 8 v = le_bytes 8 w" "array_bytes ts = array_bytes us'" using prems(3) us by simp_all
    have "0 \<le> v" "v < 256 ^ 8" "0 \<le> w" "w < 256 ^ 8" using prems(1,2) us by simp_all
    then have "v = w" by (rule le_bytes_inj [OF eq(1)])
    moreover have "ts = us'" using IH [OF _ _ eq(2)] prems(1,2) us by simp
    ultimately show ?thesis using us by simp
  next
    case (3 b us')
    then show ?thesis using prems(2) by simp
  qed
qed simp

lemma array_bytes_nonempty: "list_all is_uint64 ts \<Longrightarrow> ts \<noteq> [] \<Longrightarrow> 8 \<le> length (array_bytes ts)"
  by (cases ts rule: array_bytes.cases) auto

lemma scope_mask_Suc: "scope_mask (Suc i) vs = 2 * scope_mask i vs"
  by (induction vs arbitrary: i) (auto simp: push_bit_eq_mult)

lemma scope_mask_Cons: "scope_mask 0 (v # vs) = of_bool (v \<noteq> None) + 2 * scope_mask 0 vs"
  by (simp add: scope_mask_Suc)

lemma scope_bytes_inj:
  "length us = length vs \<Longrightarrow> scope_mask 0 us = scope_mask 0 vs \<Longrightarrow> scope_values us = Inr bs \<Longrightarrow> scope_values vs = Inr bs \<Longrightarrow> us = vs"
proof (induction us vs arbitrary: bs rule: list_induct2)
  case Nil
  then show ?case by simp
next
  case (Cons u us v vs)
  have m: "of_bool (u \<noteq> None) + 2 * scope_mask 0 us = of_bool (v \<noteq> None) + 2 * scope_mask 0 vs"
    using Cons.prems(1) unfolding scope_mask_Cons .
  then have n: "(u = None) = (v = None)" by (cases u; cases v) (auto, presburger+)
  then have masks: "scope_mask 0 us = scope_mask 0 vs" using m by simp
  show ?case
  proof (cases u)
    case None
    then show ?thesis using n Cons.IH [OF masks] Cons.prems(2,3) by auto
  next
    case (Some a)
    then obtain b where v: "v = Some b" using n by auto
    obtain ba bsa where a: "to_bytes 8 a = Inr ba" "scope_values us = Inr bsa" "bs = ba @ bsa"
      using Cons.prems(2) Some by (auto simp: res_iffs)
    obtain bb bsb where b: "to_bytes 8 b = Inr bb" "scope_values vs = Inr bsb" "bs = bb @ bsb"
      using Cons.prems(3) v by (auto simp: res_iffs)
    have len: "length ba = 8" "length bb = 8" using a(1) b(1) by (auto simp: to_bytes_def res_iffs simp del: le_bytes.simps)
    then have eq: "ba = bb" "bsa = bsb" using a(3) b(3) by auto
    then have "a = b" using a(1) b(1) le_bytes_inj [of 8 a b] by (auto simp: to_bytes_def res_iffs simp del: le_bytes.simps)
    then show ?thesis using Some v Cons.IH [OF masks a(2)] b(2) eq by simp
  qed
qed

lemma reuse_scope_inj:
  assumes "length us = length vs" and "reuse_scope_to_bytes us = Inr b" and "reuse_scope_to_bytes vs = Inr b"
  shows "us = vs"
proof -
  let ?n = "(length vs + 7) div 8"
  obtain m bs where m: "to_bytes ?n (scope_mask 0 us) = Inr m" "scope_values us = Inr bs" "b = m @ bs"
    using assms(1,2) by (auto simp: reuse_scope_to_bytes_def res_iffs)
  obtain m' bs' where m': "to_bytes ?n (scope_mask 0 vs) = Inr m'" "scope_values vs = Inr bs'" "b = m' @ bs'"
    using assms(3) by (auto simp: reuse_scope_to_bytes_def res_iffs)
  have "length m = ?n" "length m' = ?n" using m(1) m'(1) by (auto simp: to_bytes_def res_iffs)
  then have "m = m'" "bs = bs'" using m(3) m'(3) by auto
  moreover have "scope_mask 0 us = scope_mask 0 vs"
    using m(1) m'(1) \<open>m = m'\<close> le_bytes_inj [of ?n "scope_mask 0 us" "scope_mask 0 vs"] by (auto simp: to_bytes_def res_iffs)
  ultimately show ?thesis using scope_bytes_inj [OF assms(1)] m(2) m'(2) by blast
qed

lemma scope_mask_bounds: "0 \<le> scope_mask 0 vs \<and> scope_mask 0 vs < 2 ^ length vs"
proof (induction vs)
  case (Cons v vs)
  then show ?case unfolding scope_mask_Cons by (cases v) auto
qed simp

lemma scope_values_defined:
  "\<forall>v\<in>set vs. \<forall>x. v = Some x \<longrightarrow> 0 \<le> x \<and> x < 2 ^ 64 \<Longrightarrow> \<exists>bs. scope_values vs = Inr bs"
  by (induction vs rule: scope_values.induct) (auto simp: to_bytes_def)

lemma reuse_scope_defined:
  assumes "\<forall>v\<in>set vs. \<forall>x. v = Some x \<longrightarrow> 0 \<le> x \<and> x < 2 ^ 64"
  shows "\<exists>b. reuse_scope_to_bytes vs = Inr b"
proof -
  have "(2::int) ^ length vs \<le> 2 ^ (8 * ((length vs + 7) div 8))" by (rule power_increasing) auto
  then have "scope_mask 0 vs < 256 ^ ((length vs + 7) div 8)"
    using scope_mask_bounds [of vs] by (simp add: power_mult)
  then show ?thesis
    using scope_mask_bounds [of vs] scope_values_defined [OF assms] by (auto simp: reuse_scope_to_bytes_def to_bytes_def)
qed

lemma scope_values_length: "scope_values vs = Inr bs \<Longrightarrow> length bs \<le> 8 * length vs"
proof (induction vs arbitrary: bs rule: scope_values.induct)
  case 1
  then show ?case by simp
next
  case (2 vs)
  then have "length bs \<le> 8 * length vs" by simp
  then show ?case by simp
next
  case (3 v vs)
  then obtain bs' where "scope_values vs = Inr bs'" "bs = le_bytes 8 v @ bs'"
    by (auto simp: to_bytes_def res_iffs)
  moreover have "length bs' \<le> 8 * length vs" using 3(1) [OF calculation(1)] .
  ultimately show ?case by simp
qed

lemma scope_bytes_length:
  "reuse_scope_to_bytes vs = Inr b \<Longrightarrow> length b \<le> (length vs + 7) div 8 + 8 * length vs"
  using scope_values_length [of vs] by (auto simp: reuse_scope_to_bytes_def res_iffs to_bytes_def)

section \<open>The chain of keys\<close>

lemma block_key_uint64:
  "list_all is_uint64 ts \<Longrightarrow> block_key ndebug H prev ts = Inr (H (prev @ array_bytes ts))"
  by (simp add: block_key_def hasher_update_tokens_def hasher_update_bytes_def hasher_digest_def)

text \<open>The bytes a block of tokens adds to the hash: eight per integer, and a digest as it is.\<close>

fun token_bytes :: "token_id_ext list \<Rightarrow> byte list" where
  "token_bytes [] = []"
| "token_bytes (Tok v # ts) = le_bytes 8 v @ token_bytes ts"
| "token_bytes (Dig b # ts) = b @ token_bytes ts"

lemma token_bytes_uint64: "list_all is_uint64 ts \<Longrightarrow> token_bytes ts = array_bytes ts"
  by (induction ts rule: token_bytes.induct) auto

lemma hasher_update_items_bytes: "hasher_update_items ndebug h ts = Inr h' \<Longrightarrow> h' = h @ token_bytes ts"
  by (induction ndebug h ts rule: hasher_update_items.induct) (auto simp: res_iffs to_bytes_def simp del: le_bytes.simps)

lemma block_key_bytes: "block_key ndebug H prev ts = Inr key \<Longrightarrow> key = H (prev @ token_bytes ts)"
  by (auto simp: block_key_def hasher_update_tokens_def hasher_update_bytes_def hasher_digest_def res_iffs token_bytes_uint64
      dest: hasher_update_items_bytes split: if_splits)

text \<open>\<open>links H prev ks\<close>: every key is the hash of the key before it and of its own tokens.\<close>

fun links :: "(byte list \<Rightarrow> byte list) \<Rightarrow> byte list \<Rightarrow> (token_id_ext list \<times> byte list) list \<Rightarrow> bool" where
  "links H prev [] = True"
| "links H prev ((ts, key) # ks) \<longleftrightarrow> key = H (prev @ token_bytes ts) \<and> links H key ks"

lemma chain_keys_links:
  "0 < tpb \<Longrightarrow> chain_keys ndebug H tpb d tokens = Inr ks \<Longrightarrow> links H d ks \<and> map fst ks = chunked tokens tpb"
proof (induction ndebug H tpb d tokens arbitrary: ks rule: chain_keys.induct)
  case (1 ndebug H tpb d tokens)
  show ?case
  proof (cases "take tpb tokens = []")
    case True
    then have "tokens = []" using 1(2) by simp
    then show ?thesis using 1(3) by (simp add: chain_keys.simps)
  next
    case False
    then obtain key rest where key: "block_key ndebug H d (take tpb tokens) = Inr key"
      and rest: "chain_keys ndebug H tpb key (drop tpb tokens) = Inr rest" and ks: "ks = (take tpb tokens, key) # rest"
      using 1(3) by (auto simp: chain_keys.simps [of ndebug H tpb d tokens] res_iffs)
    have "chunked tokens tpb = take tpb tokens # chunked (drop tpb tokens) tpb"
      using False 1(2) by (intro chunked_step) auto
    then show ?thesis using 1(1) [OF False 1(2) rest] block_key_bytes [OF key] ks by simp
  qed
qed

lemma chain_keys_defined:
  "0 < tpb \<Longrightarrow> list_all is_uint64 tokens \<Longrightarrow> \<exists>ks. chain_keys ndebug H tpb d tokens = Inr ks"
proof (induction ndebug H tpb d tokens rule: chain_keys.induct)
  case (1 ndebug H tpb d tokens)
  show ?case
  proof (cases "take tpb tokens = []")
    case True
    then show ?thesis by (simp add: chain_keys.simps)
  next
    case False
    have u: "list_all is_uint64 (take tpb tokens)" "list_all is_uint64 (drop tpb tokens)"
      using 1(3) by (auto simp: list_all_iff dest: in_set_takeD in_set_dropD)
    obtain ks where "chain_keys ndebug H tpb (H (d @ array_bytes (take tpb tokens))) (drop tpb tokens) = Inr ks"
      using 1(1) [OF False 1(2) u(2)] by blast
    then show ?thesis using False block_key_uint64 [OF u(1)] by (subst chain_keys.simps) simp
  qed
qed

section \<open>Keys as a fold over the blocks\<close>

definition fold_key :: "(byte list \<Rightarrow> byte list) \<Rightarrow> byte list \<Rightarrow> token_id_ext list list \<Rightarrow> byte list" where
  "fold_key H = foldl (\<lambda>d c. H (d @ token_bytes c))"

lemma fold_key_simps [simp]:
  "fold_key H d [] = d"
  "fold_key H d (c # cs) = fold_key H (H (d @ token_bytes c)) cs"
  "fold_key H d (cs @ [c]) = H (fold_key H d cs @ token_bytes c)"
  by (simp_all add: fold_key_def)

text \<open>The byte strings that are hashed for a chain of blocks, and for a whole sequence.\<close>

fun key_inputs :: "(byte list \<Rightarrow> byte list) \<Rightarrow> byte list \<Rightarrow> token_id_ext list list \<Rightarrow> byte list list" where
  "key_inputs H d [] = []"
| "key_inputs H d (c # cs) = (d @ token_bytes c) # key_inputs H (H (d @ token_bytes c)) cs"

definition hashed_inputs :: "(byte list \<Rightarrow> byte list) \<Rightarrow> nat \<Rightarrow> int option list \<Rightarrow> token_id_ext list \<Rightarrow> byte list list" where
  "hashed_inputs H tpb scope tokens =
     (case reuse_scope_to_bytes scope of Inl e \<Rightarrow> [] | Inr b \<Rightarrow> b # key_inputs H (H b) (chunked tokens tpb))"

lemma key_inputs_snoc: "key_inputs H d (cs @ [c]) = key_inputs H d cs @ [fold_key H d cs @ token_bytes c]"
  by (induction cs arbitrary: d) auto

lemma key_inputs_take: "set (key_inputs H d (take i cs)) \<subseteq> set (key_inputs H d cs)"
proof (induction cs arbitrary: i d)
  case (Cons c cs)
  then show ?case by (cases i) fastforce+
qed simp

lemma fold_key_bytes_cong: "map token_bytes cs = map token_bytes cs' \<Longrightarrow> fold_key H d cs = fold_key H d cs'"
proof (induction cs arbitrary: cs' d)
  case (Cons c cs)
  then obtain c' ds where "cs' = c' # ds" "token_bytes c' = token_bytes c" "map token_bytes cs = map token_bytes ds" by auto
  then show ?case using Cons.IH [of ds "H (d @ token_bytes c)"] by simp
qed simp

lemma links_fold: "links H d ks \<Longrightarrow> i < length ks \<Longrightarrow> snd (ks ! i) = fold_key H d (take (Suc i) (map fst ks))"
proof (induction H d ks arbitrary: i rule: links.induct)
  case (2 H d ts key ks)
  then show ?case by (cases i) auto
qed simp

lemma sequence_keys_spec:
  assumes "0 < tpb" and "sequence_to_blockchain_keys ndebug H tpb scope tokens = Inr ks"
  shows "\<exists>b. reuse_scope_to_bytes scope = Inr b \<and> map fst ks = [] # chunked tokens tpb
    \<and> (\<forall>i < length ks. snd (ks ! i) = fold_key H (H b) (take i (chunked tokens tpb)))"
proof -
  obtain b rest where b: "reuse_scope_to_bytes scope = Inr b" and rest: "chain_keys ndebug H tpb (H b) tokens = Inr rest"
    and ks: "ks = ([], H b) # rest"
    using assms(2) by (auto simp: sequence_to_blockchain_keys_def root_key_def hasher_digest_def hasher_update_bytes_def res_iffs)
  note L = chain_keys_links [OF assms(1) rest]
  have "snd (ks ! i) = fold_key H (H b) (take i (chunked tokens tpb))" if "i < length ks" for i
    using that links_fold [OF conjunct1 [OF L]] L ks by (cases i) auto
  then show ?thesis using b L ks by auto
qed

lemma sequence_keys_defined:
  assumes "0 < tpb" and "list_all is_uint64 tokens" and "reuse_scope_to_bytes scope = Inr b"
  shows "\<exists>ks. sequence_to_blockchain_keys ndebug H tpb scope tokens = Inr ks"
  using chain_keys_defined [OF assms(1,2), of ndebug H "H b"] assms(3)
  by (auto simp: sequence_to_blockchain_keys_def root_key_def hasher_digest_def hasher_update_bytes_def)

text \<open>
  Equal keys come from blocks with equal bytes. A root is hashed from fewer bytes than any block, so a chain cannot be
  confused with a suffix of another.
\<close>

lemma fold_key_inj:
  assumes "inj_on H S" and "\<forall>x. length (H x) = 32"
    and "b \<in> S" "length b < 32" and "b' \<in> S" "length b' < 32"
  shows "\<lbrakk>fold_key H (H b) cs = fold_key H (H b') cs'; set (key_inputs H (H b) cs) \<subseteq> S; set (key_inputs H (H b') cs') \<subseteq> S\<rbrakk>
      \<Longrightarrow> b = b' \<and> map token_bytes cs = map token_bytes cs'"
proof (induction cs arbitrary: cs' rule: rev_induct)
  case Nil
  show ?case
  proof (cases cs' rule: rev_cases)
    case Nil
    then show ?thesis using Nil.prems(1) assms(1,3,5) by (auto dest: inj_onD)
  next
    case (snoc ds c)
    then have "fold_key H (H b') ds @ token_bytes c = b"
      using Nil.prems(1,3) assms(1,3) by (auto simp: key_inputs_snoc dest: inj_onD)
    moreover have "length (fold_key H (H b') ds) = 32" using assms(2) by (cases ds rule: rev_cases) auto
    ultimately show ?thesis using assms(4) by auto
  qed
next
  case (snoc c ds)
  have len: "length (fold_key H (H e) xs) = 32" for e xs using assms(2) by (cases xs rule: rev_cases) auto
  show ?case
  proof (cases cs' rule: rev_cases)
    case Nil
    then have "fold_key H (H b) ds @ token_bytes c = b'"
      using snoc.prems(1,2) assms(1,5) by (auto simp: key_inputs_snoc dest: inj_onD)
    then show ?thesis using len [of b ds] assms(6) by auto
  next
    case cs': (snoc ds' c')
    have "fold_key H (H b) ds @ token_bytes c = fold_key H (H b') ds' @ token_bytes c'"
      using snoc.prems(1-3) assms(1) cs' by (auto simp: key_inputs_snoc dest: inj_onD)
    then have eq: "fold_key H (H b) ds = fold_key H (H b') ds'" "token_bytes c = token_bytes c'"
      using len by auto
    have "b = b' \<and> map token_bytes ds = map token_bytes ds'"
      using snoc.IH [OF eq(1)] snoc.prems(2,3) cs' by (simp add: key_inputs_snoc)
    then show ?thesis using cs' eq(2) by simp
  qed
qed

lemma take_chunked: "0 < n \<Longrightarrow> take i (chunked xs n) = chunked (take (i * n) xs) n"
proof (induction xs n arbitrary: i rule: chunked.induct)
  case (1 xs n)
  show ?case
  proof (cases "xs = [] \<or> i = 0")
    case True
    then show ?thesis by auto
  next
    case False
    then obtain j where j: "i = Suc j" by (cases i) auto
    have "take n xs \<noteq> []" using False 1(2) by simp
    then have "take j (chunked (drop n xs) n) = chunked (take (j * n) (drop n xs)) n" using 1 by blast
    then show ?thesis using False 1(2) j by (simp add: chunked_step drop_take)
  qed
qed

lemma chunked_eq_iff: "0 < n \<Longrightarrow> chunked xs n = chunked ys n \<longleftrightarrow> xs = ys"
  using concat_chunked by metis

lemma chunked_uint64: "0 < n \<Longrightarrow> list_all is_uint64 ts \<Longrightarrow> \<forall>c\<in>set (chunked ts n). list_all is_uint64 c"
proof (intro ballI)
  fix c assume "0 < n" "list_all is_uint64 ts" "c \<in> set (chunked ts n)"
  moreover then have "set c \<subseteq> set (concat (chunked ts n))" by auto
  then have "set c \<subseteq> set ts" using concat_chunked \<open>0 < n\<close> by metis
  ultimately show "list_all is_uint64 c" by (auto simp: list_all_iff)
qed

section \<open>Properties\<close>

text \<open>
  C29: for tokens below \<open>2 ^ 64\<close> and a reuse scope whose fields fit 64 bits, the chain of keys is computed without
  an error; it has a first entry for the scope and one entry per block, and the blocks are the tokens cut into runs of
  \<open>tpb\<close>, so their number is the number of tokens divided by \<open>tpb\<close>, rounded up.
\<close>

theorem blockchain_keys_cover:
  assumes "0 < tpb" and "list_all is_uint64 tokens" and "\<forall>v\<in>set scope. \<forall>x. v = Some x \<longrightarrow> 0 \<le> x \<and> x < 2 ^ 64"
  shows "\<exists>ks. sequence_to_blockchain_keys ndebug H tpb scope tokens = Inr ks \<and> fst (ks ! 0) = []
    \<and> concat (map fst ks) = tokens \<and> int (length ks) = 1 + div_up (int (length tokens)) (int tpb)
    \<and> (\<forall>c\<in>set (map fst (butlast (tl ks))). length c = tpb)"
proof -
  obtain b where b: "reuse_scope_to_bytes scope = Inr b"
    using reuse_scope_defined [OF assms(3)] by (rule exE)
  obtain ks where ks: "sequence_to_blockchain_keys ndebug H tpb scope tokens = Inr ks" "map fst ks = [] # chunked tokens tpb"
    using sequence_keys_defined [OF assms(1,2) b, of ndebug H] sequence_keys_spec [OF assms(1)] by metis
  obtain k ks' where k: "ks = k # ks'" "fst k = []" "map fst ks' = chunked tokens tpb"
    using ks(2) unfolding map_eq_Cons_conv by blast
  have "concat (map fst ks) = tokens" using concat_chunked [OF assms(1)] ks(2) by simp
  moreover have "int (length ks) = 1 + div_up (int (length tokens)) (int tpb)"
    using length_chunked [OF assms(1), of tokens] arg_cong [OF k(3), of length] k(1) by simp
  moreover have "map fst (butlast (tl ks)) = butlast (chunked tokens tpb)" using k by (simp add: map_butlast)
  then have "\<forall>c\<in>set (map fst (butlast (tl ks))). length c = tpb"
    using chunked_lengths [OF assms(1), of _ tokens] by (simp only:) blast
  moreover have "fst (ks ! 0) = []" using k by simp
  ultimately show ?thesis using ks(1) by blast
qed

definition pad_hash :: "byte list \<Rightarrow> byte list" where
  "pad_hash x = take 32 (rev x @ replicate 32 0)"

theorem blockchain_keys_cover_witness:
  "\<exists>ks. sequence_to_blockchain_keys False pad_hash 2 [Some 7, None] [Tok 1, Tok 2, Tok 3] = Inr ks \<and> fst (ks ! 0) = []
    \<and> concat (map fst ks) = [Tok 1, Tok 2, Tok 3] \<and> int (length ks) = 1 + div_up 3 2
    \<and> (\<forall>c\<in>set (map fst (butlast (tl ks))). length c = 2)"
  using blockchain_keys_cover [of 2 "[Tok 1, Tok 2, Tok 3]" "[Some 7, None]" False pad_hash] by simp

lemma chunks_token_bytes_eq:
  assumes "0 < n" "list_all is_uint64 xs" "list_all is_uint64 ys"
  shows "map token_bytes (take i (chunked xs n)) = map token_bytes (take i (chunked ys n)) \<longleftrightarrow> take (i * n) xs = take (i * n) ys"
proof -
  have u: "\<forall>c\<in>set (take i (chunked xs n)). list_all is_uint64 c" "\<forall>c\<in>set (take i (chunked ys n)). list_all is_uint64 c"
    using chunked_uint64 [OF assms(1,2)] chunked_uint64 [OF assms(1,3)] by (auto dest: in_set_takeD)
  have "map token_bytes (take i (chunked xs n)) = map token_bytes (take i (chunked ys n)) \<longleftrightarrow> take i (chunked xs n) = take i (chunked ys n)"
    using u by (intro inj_on_map_eq_map inj_onI) (auto simp: token_bytes_uint64 intro: array_bytes_inj)
  then show ?thesis by (simp add: take_chunked [OF assms(1)] chunked_eq_iff [OF assms(1)])
qed

text \<open>
  C12: reuse keys identify what they stand for. When the hash gives 32 bytes and has no collision among the byte
  strings hashed for two sequences, the key of entry \<open>i\<close> of one equals the key of entry \<open>j\<close> of the other exactly
  when \<open>i = j\<close>, the reuse scopes (adapter id and salt) agree, and each of the first \<open>i\<close> blocks has the same bytes in
  both. For sequences of integers below \<open>2 ^ 64\<close> that means the same tokens. For sequences with digests of multimodal
  items it does not: a digest is hashed as it is, with no mark, so it cannot be told from integers with the same bytes.
\<close>

theorem blockchain_keys_identify:
  assumes "0 < tpb" and "length scope = 2" and "length scope' = 2"
    and "sequence_to_blockchain_keys ndebug H tpb scope tokens = Inr ks"
    and "sequence_to_blockchain_keys ndebug H tpb scope' tokens' = Inr ks'"
    and "\<forall>x. length (H x) = 32"
    and "inj_on H (set (hashed_inputs H tpb scope tokens @ hashed_inputs H tpb scope' tokens'))"
    and "i < length ks" and "j < length ks'"
  shows "(snd (ks ! i) = snd (ks' ! j) \<longleftrightarrow> i = j \<and> scope = scope'
       \<and> map token_bytes (take i (chunked tokens tpb)) = map token_bytes (take i (chunked tokens' tpb)))
    \<and> (list_all is_uint64 tokens \<and> list_all is_uint64 tokens' \<longrightarrow>
       (snd (ks ! i) = snd (ks' ! j) \<longleftrightarrow> i = j \<and> scope = scope' \<and> take (i * tpb) tokens = take (i * tpb) tokens'))"
proof -
  let ?cs = "chunked tokens tpb" and ?cs' = "chunked tokens' tpb"
  obtain b where b: "reuse_scope_to_bytes scope = Inr b" "length ks = Suc (length ?cs)" "snd (ks ! i) = fold_key H (H b) (take i ?cs)"
    using sequence_keys_spec [OF assms(1,4)] assms(8) by (auto dest!: arg_cong [of _ _ length])
  obtain b' where b': "reuse_scope_to_bytes scope' = Inr b'" "length ks' = Suc (length ?cs')" "snd (ks' ! j) = fold_key H (H b') (take j ?cs')"
    using sequence_keys_spec [OF assms(1,5)] assms(9) by (auto dest!: arg_cong [of _ _ length])
  have "snd (ks ! i) = snd (ks' ! j) \<longleftrightarrow> i = j \<and> scope = scope' \<and> map token_bytes (take i ?cs) = map token_bytes (take i ?cs')" (is "?keys \<longleftrightarrow> ?same")
  proof
    assume keys: ?keys
    let ?S = "set (hashed_inputs H tpb scope tokens @ hashed_inputs H tpb scope' tokens')"
    have sub: "set (key_inputs H (H b) (take i ?cs)) \<subseteq> ?S" "set (key_inputs H (H b') (take j ?cs')) \<subseteq> ?S" "b \<in> ?S" "b' \<in> ?S"
      using key_inputs_take [of H "H b" i ?cs] key_inputs_take [of H "H b'" j ?cs'] b(1) b'(1) by (auto simp: hashed_inputs_def)
    have len: "length b < 32" "length b' < 32"
      using scope_bytes_length [OF b(1)] scope_bytes_length [OF b'(1)] assms(2,3) by auto
    have "fold_key H (H b) (take i ?cs) = fold_key H (H b') (take j ?cs')" using keys b(3) b'(3) by simp
    from fold_key_inj [OF assms(7,6) sub(3) len(1) sub(4) len(2) this sub(1,2)]
    have eq: "b = b'" "map token_bytes (take i ?cs) = map token_bytes (take j ?cs')" by auto
    have "i = j" using arg_cong [OF eq(2), of length] b(2) b'(2) assms(8,9) by simp
    moreover have "scope = scope'" using reuse_scope_inj [of scope scope' b] assms(2,3) b(1) b'(1) eq(1) by simp
    ultimately show ?same using eq(2) by simp
  next
    assume same: ?same
    have "fold_key H (H b) (take i ?cs) = fold_key H (H b') (take j ?cs')"
      using fold_key_bytes_cong [of "take i ?cs" "take i ?cs'" H "H b"] same b(1) b'(1) by auto
    then show ?keys using b(3) b'(3) by simp
  qed
  then show ?thesis using chunks_token_bytes_eq [OF assms(1)] by blast
qed

lemma inj_on_if_distinct: "distinct (map f (remdups xs)) \<Longrightarrow> inj_on f (set xs)"
  by (simp add: distinct_map)

lemma pad_hash_inj:
  "inj_on pad_hash (set (hashed_inputs pad_hash 2 [Some 7, None] [Tok 1, Tok 2, Tok 3]
    @ hashed_inputs pad_hash 2 [Some 7, None] [Tok 1, Tok 2, Tok 4]))"
  by (rule inj_on_if_distinct) code_simp

lemma length_pad_hash: "length (pad_hash x) = 32"
  by (simp add: pad_hash_def)

lemma pad_hash_inj_digest:
  "inj_on pad_hash (set (hashed_inputs pad_hash 2 [None, None] [Tok 5]
    @ hashed_inputs pad_hash 2 [None, None] [Dig (le_bytes 8 5)]))"
  by (rule inj_on_if_distinct) code_simp

theorem blockchain_keys_identify_witness:
  "\<exists>ks ks' ls ls'. sequence_to_blockchain_keys False pad_hash 2 [Some 7, None] [Tok 1, Tok 2, Tok 3] = Inr ks
    \<and> sequence_to_blockchain_keys False pad_hash 2 [Some 7, None] [Tok 1, Tok 2, Tok 4] = Inr ks'
    \<and> snd (ks ! 1) = snd (ks' ! 1) \<and> snd (ks ! 2) \<noteq> snd (ks' ! 2)
    \<and> sequence_to_blockchain_keys False pad_hash 2 [None, None] [Tok 5] = Inr ls
    \<and> sequence_to_blockchain_keys False pad_hash 2 [None, None] [Dig (le_bytes 8 5)] = Inr ls' \<and> snd (ls ! 1) = snd (ls' ! 1)"
proof -
  have defined: "case sequence_to_blockchain_keys False pad_hash 2 [Some 7, None] [Tok 1, Tok 2, Tok t] of
      Inl e \<Rightarrow> False | Inr ks \<Rightarrow> length ks = 3" if "t = 3 \<or> t = 4" for t
    using that by (elim disjE) (simp only:, code_simp)+
  obtain ks where ks: "sequence_to_blockchain_keys False pad_hash 2 [Some 7, None] [Tok 1, Tok 2, Tok 3] = Inr ks" "length ks = 3"
    using defined [of 3] by (auto split: sum.splits)
  obtain ks' where ks': "sequence_to_blockchain_keys False pad_hash 2 [Some 7, None] [Tok 1, Tok 2, Tok 4] = Inr ks'" "length ks' = 3"
    using defined [of 4] by (auto split: sum.splits)
  have "case sequence_to_blockchain_keys False pad_hash 2 [None, None] [Tok 5] of Inl e \<Rightarrow> False | Inr ls \<Rightarrow> length ls = 2" by code_simp
  then obtain ls where ls: "sequence_to_blockchain_keys False pad_hash 2 [None, None] [Tok 5] = Inr ls" "length ls = 2"
    by (auto split: sum.splits)
  have "case sequence_to_blockchain_keys False pad_hash 2 [None, None] [Dig (le_bytes 8 5)] of Inl e \<Rightarrow> False | Inr ls \<Rightarrow> length ls = 2" by code_simp
  then obtain ls' where ls': "sequence_to_blockchain_keys False pad_hash 2 [None, None] [Dig (le_bytes 8 5)] = Inr ls'" "length ls' = 2"
    by (auto split: sum.splits)
  note same = blockchain_keys_identify [OF _ _ _ ks(1) ks'(1) _ pad_hash_inj, THEN conjunct2, rule_format]
  have "snd (ks ! 1) = snd (ks' ! 1)" by (subst same) (simp_all add: ks(2) ks'(2) length_pad_hash)
  moreover have "snd (ks ! 2) \<noteq> snd (ks' ! 2)" by (subst same) (simp_all add: ks(2) ks'(2) length_pad_hash)
  moreover have "snd (ls ! 1) = snd (ls' ! 1)"
    using blockchain_keys_identify [OF _ _ _ ls(1) ls'(1) _ pad_hash_inj_digest, THEN conjunct1, of 1 1]
    by (simp add: ls(2) ls'(2) length_pad_hash chunked_step del: le_bytes.simps)
  ultimately show ?thesis using ks(1) ks'(1) ls(1) ls'(1) by blast
qed

end
