(* ===== verification/KV_Radix_Tree.thy ===== *)
theory KV_Radix_Tree
  imports KV_Config KV_Cache_Key
begin

text \<open>
  The radix tree of reusable blocks (\<^verbatim>\<open>_block_radix_tree.py\<close>). The objects live in a store: blocks,
  root blocks and committed pages are numbered, and references between them are numbers; a reference that the code
  has set to \<^verbatim>\<open>rawref.NULL\<close> is \<open>None\<close>. The calls to the event manager and to the storage manager are
  recorded in the order in which they are made. The loops that follow references (\<open>try_get_tree\<close>, \<open>remove_loop\<close>,
  \<open>stale_loop\<close>, \<open>clear\<close>) are partial functions, and the facts below show that they return on
  well-formed stores.
\<close>

section \<open>Objects and the store\<close>

type_synonym key_bytes = "byte list"

datatype page_status = LOCKED | HELD | DROPPABLE

datatype node = RootNode nat | BlockNode nat

record committed_page =
  cp_num_tokens_in_block :: nat
  cp_life_cycle :: nat
  cp_block :: "nat option"
  cp_status :: page_status
  cp_scheduled :: bool

record tree_block =
  blk_key :: key_bytes
  blk_tokens :: "token_id_ext list"
  blk_ordinal :: int
  blk_prev :: "node option"
  blk_next :: "(key_bytes \<times> nat) list"
  blk_storage :: "nat option list"

record root_block =
  rb_key :: key_bytes
  rb_reuse_scope :: "int option list"
  rb_attached :: bool
  rb_next :: "(key_bytes \<times> nat) list"

datatype tree_event = RemovedEvent "key_bytes list" | RemovedLifeCycleEvent key_bytes nat

record radix_tree =
  rx_life_cycles :: life_cycle_registry
  rx_tokens_per_block :: nat
  rx_event_manager :: bool
  rx_next :: "(key_bytes \<times> nat) list"
  rx_blocks :: "nat \<Rightarrow> tree_block"
  rx_num_blocks :: nat
  rx_roots :: "nat \<Rightarrow> root_block"
  rx_num_roots :: nat
  rx_pages :: "nat \<Rightarrow> committed_page"
  rx_events :: "tree_event list"
  rx_excluded :: "nat list"

definition set_block :: "nat \<Rightarrow> (tree_block \<Rightarrow> tree_block) \<Rightarrow> radix_tree \<Rightarrow> radix_tree" where
  "set_block b f h = h\<lparr>rx_blocks := (rx_blocks h)(b := f (rx_blocks h b))\<rparr>"

definition set_root :: "nat \<Rightarrow> (root_block \<Rightarrow> root_block) \<Rightarrow> radix_tree \<Rightarrow> radix_tree" where
  "set_root r f h = h\<lparr>rx_roots := (rx_roots h)(r := f (rx_roots h r))\<rparr>"

definition set_page :: "nat \<Rightarrow> (committed_page \<Rightarrow> committed_page) \<Rightarrow> radix_tree \<Rightarrow> radix_tree" where
  "set_page p f h = h\<lparr>rx_pages := (rx_pages h)(p := f (rx_pages h p))\<rparr>"

definition add_event :: "bool \<Rightarrow> tree_event \<Rightarrow> radix_tree \<Rightarrow> radix_tree" where
  "add_event has_manager e h = (if has_manager then h\<lparr>rx_events := rx_events h @ [e]\<rparr> else h)"

definition radix_tree_init :: "life_cycle_registry \<Rightarrow> nat \<Rightarrow> bool \<Rightarrow> radix_tree" where
  "radix_tree_init life_cycles tokens_per_block event_manager =
     \<lparr>rx_life_cycles = life_cycles, rx_tokens_per_block = tokens_per_block, rx_event_manager = event_manager,
      rx_next = [], rx_blocks = (\<lambda>_. \<lparr>blk_key = [], blk_tokens = [], blk_ordinal = 0, blk_prev = None, blk_next = [], blk_storage = []\<rparr>),
      rx_num_blocks = 0,
      rx_roots = (\<lambda>_. \<lparr>rb_key = [], rb_reuse_scope = [], rb_attached = False, rb_next = []\<rparr>), rx_num_roots = 0,
      rx_pages = (\<lambda>_. \<lparr>cp_num_tokens_in_block = 0, cp_life_cycle = 0, cp_block = None, cp_status = DROPPABLE, cp_scheduled = False\<rparr>),
      rx_events = [], rx_excluded = []\<rparr>"

section \<open>Attributes of nodes\<close>

fun node_next :: "radix_tree \<Rightarrow> node \<Rightarrow> (key_bytes \<times> nat) list" where
  "node_next h (RootNode r) = rb_next (rx_roots h r)"
| "node_next h (BlockNode b) = blk_next (rx_blocks h b)"

fun set_node_next :: "node \<Rightarrow> (key_bytes \<times> nat) list \<Rightarrow> radix_tree \<Rightarrow> radix_tree" where
  "set_node_next (RootNode r) d h = set_root r (\<lambda>x. x\<lparr>rb_next := d\<rparr>) h"
| "set_node_next (BlockNode b) d h = set_block b (\<lambda>x. x\<lparr>blk_next := d\<rparr>) h"

fun node_key :: "radix_tree \<Rightarrow> node \<Rightarrow> key_bytes" where
  "node_key h (RootNode r) = rb_key (rx_roots h r)"
| "node_key h (BlockNode b) = blk_key (rx_blocks h b)"

fun node_ordinal :: "radix_tree \<Rightarrow> node \<Rightarrow> int" where
  "node_ordinal h (RootNode r) = -1"
| "node_ordinal h (BlockNode b) = blk_ordinal (rx_blocks h b)"

definition block_prev :: "radix_tree \<Rightarrow> nat \<Rightarrow> node res" where
  "block_prev h b = (case blk_prev (rx_blocks h b) of None \<Rightarrow> Inl ValueError | Some n \<Rightarrow> Inr n)"

definition root_tokens_per_block :: "radix_tree \<Rightarrow> nat \<Rightarrow> nat res" where
  "root_tokens_per_block h r = guardR (rb_attached (rx_roots h r)) ValueError (Inr (rx_tokens_per_block h))"

fun child_tokens_per_block :: "radix_tree \<Rightarrow> node \<Rightarrow> nat res" where
  "child_tokens_per_block h (RootNode r) = root_tokens_per_block h r"
| "child_tokens_per_block h (BlockNode b) = Inr (length (blk_tokens (rx_blocks h b)))"

definition block_tokens_per_block :: "radix_tree \<Rightarrow> nat \<Rightarrow> nat res" where
  "block_tokens_per_block h b = bindR (block_prev h b) (child_tokens_per_block h)"

fun node_tokens_per_block :: "radix_tree \<Rightarrow> node \<Rightarrow> nat res" where
  "node_tokens_per_block h (RootNode r) = root_tokens_per_block h r"
| "node_tokens_per_block h (BlockNode b) = block_tokens_per_block h b"

fun prev_tokens_per_block :: "radix_tree \<Rightarrow> node \<Rightarrow> nat res" where
  "prev_tokens_per_block h (RootNode r) = root_tokens_per_block h r"
| "prev_tokens_per_block h (BlockNode b) = bindR (block_prev h b) (node_tokens_per_block h)"

fun node_num_life_cycles :: "radix_tree \<Rightarrow> node \<Rightarrow> nat res" where
  "node_num_life_cycles h (RootNode r) = guardR (rb_attached (rx_roots h r)) ValueError (registry_size (rx_life_cycles h))"
| "node_num_life_cycles h (BlockNode b) = Inr (length (blk_storage (rx_blocks h b)))"

definition is_full :: "radix_tree \<Rightarrow> nat \<Rightarrow> bool res" where
  "is_full h b = bindR (block_tokens_per_block h b) (\<lambda>n. Inr (length (blk_tokens (rx_blocks h b)) = n))"

definition is_orphan :: "radix_tree \<Rightarrow> nat \<Rightarrow> bool res" where
  "is_orphan h b = (case blk_prev (rx_blocks h b) of None \<Rightarrow> Inr True
     | Some n \<Rightarrow> assertR (map_of (node_next h n) (blk_key (rx_blocks h b)) = Some b) (Inr False))"

text \<open>The tree a node hangs in: \<open>True\<close> when the chain of parents ends in the tree.\<close>

partial_function (option) try_get_tree :: "radix_tree \<Rightarrow> node \<Rightarrow> bool option" where
  "try_get_tree h n = (case n of
       RootNode r \<Rightarrow> Some (rb_attached (rx_roots h r))
     | BlockNode b \<Rightarrow> (case blk_prev (rx_blocks h b) of None \<Rightarrow> Some False | Some m \<Rightarrow> try_get_tree h m))"

declare try_get_tree.simps [code]

definition get_tree :: "radix_tree \<Rightarrow> node \<Rightarrow> unit res option" where
  "get_tree h n = map_option (\<lambda>found. guardR found ValueError (Inr ())) (try_get_tree h n)"

section \<open>Pages of a block\<close>

definition get_page :: "radix_tree \<Rightarrow> nat \<Rightarrow> nat \<Rightarrow> nat option res" where
  "get_page h b lc = list_get (blk_storage (rx_blocks h b)) lc"

definition page_coverage :: "radix_tree \<Rightarrow> nat \<Rightarrow> nat \<Rightarrow> nat res" where
  "page_coverage h b lc = bindR (get_page h b lc) (\<lambda>page.
     Inr (case page of None \<Rightarrow> 0 | Some p \<Rightarrow> cp_num_tokens_in_block (rx_pages h p)))"

definition holds_page :: "radix_tree \<Rightarrow> nat \<Rightarrow> nat \<Rightarrow> bool res" where
  "holds_page h b p = bindR (get_page h b (cp_life_cycle (rx_pages h p))) (\<lambda>page. Inr (page = Some p))"

definition can_replace_page :: "radix_tree \<Rightarrow> nat \<Rightarrow> nat \<Rightarrow> nat \<Rightarrow> bool res" where
  "can_replace_page h b lc num_tokens_in_block = bindR (get_page h b lc) (\<lambda>existing.
     Inr (case existing of None \<Rightarrow> True | Some p \<Rightarrow> cp_num_tokens_in_block (rx_pages h p) < num_tokens_in_block))"

definition set_page_slot :: "nat \<Rightarrow> nat \<Rightarrow> nat option \<Rightarrow> radix_tree \<Rightarrow> radix_tree" where
  "set_page_slot b lc v h = set_block b (\<lambda>x. x\<lparr>blk_storage := (blk_storage x)[lc := v]\<rparr>) h"

definition unlink_page :: "radix_tree \<Rightarrow> nat \<Rightarrow> nat \<Rightarrow> nat option \<Rightarrow> (radix_tree \<times> nat option) res" where
  "unlink_page h b lc expected = bindR (get_page h b lc) (\<lambda>page. case page of
       None \<Rightarrow> Inr (h, None)
     | Some p \<Rightarrow> if expected \<noteq> None \<and> expected \<noteq> Some p then Inr (h, None)
         else Inr (set_page_slot b lc None (set_page p (\<lambda>x. x\<lparr>cp_block := None\<rparr>) h), Some p))"

text \<open>\<^verbatim>\<open>page.manager.exclude_from_eviction(page)\<close>: the page leaves the eviction queue.\<close>

definition exclude_page :: "nat \<Rightarrow> radix_tree \<Rightarrow> radix_tree" where
  "exclude_page p h = set_page p (\<lambda>x. x\<lparr>cp_scheduled := False\<rparr>) (h\<lparr>rx_excluded := rx_excluded h @ [p]\<rparr>)"

definition replace_page :: "bool \<Rightarrow> radix_tree \<Rightarrow> nat \<Rightarrow> nat \<Rightarrow> nat \<Rightarrow> radix_tree res" where
  "replace_page ndebug h b lc p =
     bindR (if ndebug then Inr True else can_replace_page h b lc (cp_num_tokens_in_block (rx_pages h p))) (\<lambda>ok.
     assertR ok (
     bindR (unlink_page h b lc None) (\<lambda>(h1, existing).
       let h2 = (case existing of None \<Rightarrow> h1
                 | Some e \<Rightarrow> if cp_scheduled (rx_pages h1 e) then exclude_page e h1 else h1)
       in Inr (set_page_slot b lc (Some p) (set_page p (\<lambda>x. x\<lparr>cp_block := Some b\<rparr>) h2)))))"

fun adopt_loop :: "bool \<Rightarrow> radix_tree \<Rightarrow> nat \<Rightarrow> nat \<Rightarrow> nat list \<Rightarrow> radix_tree res" where
  "adopt_loop ndebug h b other [] = Inr h"
| "adopt_loop ndebug h b other (lc # lcs) =
     bindR (get_page h other lc) (\<lambda>page. case page of
       None \<Rightarrow> adopt_loop ndebug h b other lcs
     | Some p \<Rightarrow> bindR (can_replace_page h b lc (cp_num_tokens_in_block (rx_pages h p))) (\<lambda>ok.
         if \<not> ok then adopt_loop ndebug h b other lcs
         else bindR (replace_page ndebug (set_page_slot other lc None h) b lc p) (\<lambda>h1. adopt_loop ndebug h1 b other lcs)))"

definition adopt_pages_from :: "bool \<Rightarrow> radix_tree \<Rightarrow> nat \<Rightarrow> nat \<Rightarrow> radix_tree res" where
  "adopt_pages_from ndebug h b other =
     assertR (blk_ordinal (rx_blocks h other) = blk_ordinal (rx_blocks h b))
       (adopt_loop ndebug h b other [0..<length (blk_storage (rx_blocks h b))])"

fun release_loop :: "radix_tree \<Rightarrow> nat \<Rightarrow> nat list \<Rightarrow> radix_tree res" where
  "release_loop h b [] = Inr h"
| "release_loop h b (lc # lcs) =
     bindR (get_page h b lc) (\<lambda>page. case page of
       None \<Rightarrow> release_loop h b lcs
     | Some p \<Rightarrow> bindR (unlink_page h b lc None) (\<lambda>(h1, _).
         release_loop (if cp_status (rx_pages h1 p) = DROPPABLE \<and> cp_scheduled (rx_pages h1 p)
                       then exclude_page p h1 else h1) b lcs))"

definition release_pages :: "radix_tree \<Rightarrow> nat \<Rightarrow> radix_tree res" where
  "release_pages h b = release_loop h b [0..<length (blk_storage (rx_blocks h b))]"

section \<open>Detaching and removing\<close>

definition detach_next :: "radix_tree \<Rightarrow> node \<Rightarrow> key_bytes \<Rightarrow> (radix_tree \<times> nat option) res" where
  "detach_next h parent key =
     (case map_of (node_next h parent) key of
        None \<Rightarrow> Inr (h, None)
      | Some child \<Rightarrow>
          let h1 = set_block child (\<lambda>x. x\<lparr>blk_prev := None\<rparr>) (set_node_next parent (dict_del key (node_next h parent)) h)
          in case parent of
               BlockNode _ \<Rightarrow> Inr (h1, Some child)
             | RootNode r \<Rightarrow>
                 if node_next h1 parent = [] \<and> rb_attached (rx_roots h1 r)
                 then case map_of (rx_next h1) (rb_key (rx_roots h1 r)) of
                        None \<Rightarrow> Inr (h1, Some child)
                      | Some detached_root \<Rightarrow>
                          assertR (detached_root = r)
                            (Inr (set_root r (\<lambda>x. x\<lparr>rb_attached := False\<rparr>)
                                   (h1\<lparr>rx_next := dict_del (rb_key (rx_roots h1 r)) (rx_next h1)\<rparr>), Some child))
                 else Inr (h1, Some child))"

text \<open>One turn of the loop of \<^verbatim>\<open>remove_subtree\<close>: go on with a block, or stop.\<close>

datatype remove_turn = Continue radix_tree nat "key_bytes list" | Stop radix_tree "key_bytes list"

definition remove_step :: "nat \<Rightarrow> radix_tree \<Rightarrow> nat \<Rightarrow> key_bytes list \<Rightarrow> remove_turn res" where
  "remove_step start h b removed =
     (case blk_next (rx_blocks h b) of
        (_, child) # _ \<Rightarrow> Inr (Continue h child removed)
      | [] \<Rightarrow>
          bindR (release_pages h b) (\<lambda>h1.
          let removed1 = removed @ [blk_key (rx_blocks h1 b)]
          in case blk_prev (rx_blocks h1 b) of
               None \<Rightarrow> assertR (b = start) (Inr (Stop h1 removed1))
             | Some prev_block \<Rightarrow>
                 bindR (detach_next h1 prev_block (blk_key (rx_blocks h1 b))) (\<lambda>(h2, detached).
                 assertR (detached = Some b) (
                 if b = start then Inr (Stop h2 removed1)
                 else case prev_block of
                        RootNode _ \<Rightarrow> Inl AssertionError
                      | BlockNode p \<Rightarrow> Inr (Continue h2 p removed1)))))"

partial_function (option) remove_loop :: "nat \<Rightarrow> radix_tree \<Rightarrow> nat \<Rightarrow> key_bytes list \<Rightarrow> (radix_tree \<times> key_bytes list) res option" where
  "remove_loop start h b removed = (case remove_step start h b removed of
       Inl e \<Rightarrow> Some (Inl e)
     | Inr (Stop h' removed') \<Rightarrow> Some (Inr (h', removed'))
     | Inr (Continue h' b' removed') \<Rightarrow> remove_loop start h' b' removed')"

definition remove_subtree :: "radix_tree \<Rightarrow> nat \<Rightarrow> radix_tree res option" where
  "remove_subtree h start =
     Option.bind (try_get_tree h (BlockNode start)) (\<lambda>in_tree.
     map_option (\<lambda>r. bindR r (\<lambda>(h', removed). Inr (add_event (in_tree \<and> rx_event_manager h) (RemovedEvent removed) h')))
       (remove_loop start h start []))"

text \<open>One turn of the loop of \<^verbatim>\<open>clear_stale_blocks_after_page_unlink\<close>: the store and the parent to go on with.\<close>

definition stale_step :: "radix_tree \<Rightarrow> nat \<Rightarrow> bool \<Rightarrow> node \<Rightarrow> (radix_tree \<times> node option) res" where
  "stale_step h lc has_manager cur = (case cur of
       RootNode _ \<Rightarrow> Inr (h, None)
     | BlockNode b \<Rightarrow>
         bindR (get_page h b lc) (\<lambda>page.
         if page = None \<and> blk_next (rx_blocks h b) = []
         then (case blk_prev (rx_blocks h b) of
                 None \<Rightarrow> Inr (h, None)
               | Some prev \<Rightarrow>
                   bindR (detach_next h prev (blk_key (rx_blocks h b))) (\<lambda>(h1, detached).
                   assertR (detached = Some b)
                     (Inr (add_event has_manager (RemovedEvent [blk_key (rx_blocks h b)]) h1, Some prev))))
         else Inr (h, None)))"

partial_function (option) stale_loop :: "radix_tree \<Rightarrow> nat \<Rightarrow> bool \<Rightarrow> node \<Rightarrow> radix_tree res option" where
  "stale_loop h lc has_manager cur = (case stale_step h lc has_manager cur of
       Inl e \<Rightarrow> Some (Inl e)
     | Inr x \<Rightarrow> (case snd x of None \<Rightarrow> Some (Inr (fst x)) | Some prev \<Rightarrow> stale_loop (fst x) lc has_manager prev))"

fun needs_all_blocks :: "life_cycle \<Rightarrow> int \<Rightarrow> bool" where
  "needs_all_blocks (AttnLifeCycle window num_sink) ordinal \<longleftrightarrow> window = None \<or> ordinal < num_sink"
| "needs_all_blocks SsmLifeCycle ordinal \<longleftrightarrow> False"

definition clear_stale_blocks_after_page_unlink :: "radix_tree \<Rightarrow> nat \<Rightarrow> nat \<Rightarrow> life_cycle \<Rightarrow> radix_tree res option" where
  "clear_stale_blocks_after_page_unlink h start lc_idx lc =
     (case get_page h start lc_idx of
        Inl e \<Rightarrow> Some (Inl e)
      | Inr page \<Rightarrow>
          if page \<noteq> None then Some (Inl AssertionError)
          else Option.bind (try_get_tree h (BlockNode start)) (\<lambda>in_tree.
            let has_manager = in_tree \<and> rx_event_manager h
            in Option.bind
                 (if needs_all_blocks lc (blk_ordinal (rx_blocks h start)) then remove_subtree h start
                  else Some (Inr (add_event has_manager (RemovedLifeCycleEvent (blk_key (rx_blocks h start)) lc_idx) h)))
                 (\<lambda>r. case r of Inl e \<Rightarrow> Some (Inl e)
                    | Inr h1 \<Rightarrow> stale_loop h1 lc_idx has_manager (BlockNode start))))"

section \<open>Adding blocks\<close>

datatype add_result = NewBlock nat | Useless nat

definition covers :: "token_id_ext list \<Rightarrow> token_id_ext list \<Rightarrow> bool" where
  "covers longer shorter \<longleftrightarrow> take (length shorter) longer = shorter"

text \<open>The siblings that a new block replaces: shorter ones whose tokens it begins with.\<close>

fun covered_siblings :: "bool \<Rightarrow> radix_tree \<Rightarrow> token_id_ext list \<Rightarrow> (key_bytes \<times> nat) list \<Rightarrow> key_bytes list res" where
  "covered_siblings ndebug h tokens [] = Inr []"
| "covered_siblings ndebug h tokens ((k, b) # d) =
     (let bt = blk_tokens (rx_blocks h b)
      in if length bt < length tokens \<and> covers tokens bt
         then bindR (if ndebug then Inr True
                     else bindR (is_full h b) (\<lambda>full. Inr (\<not> full \<and> blk_key (rx_blocks h b) = k \<and> blk_next (rx_blocks h b) = []))) (\<lambda>ok.
              assertR ok (bindR (covered_siblings ndebug h tokens d) (\<lambda>ks. Inr (k # ks))))
         else covered_siblings ndebug h tokens d)"

fun replace_siblings :: "bool \<Rightarrow> radix_tree \<Rightarrow> node \<Rightarrow> nat \<Rightarrow> bool \<Rightarrow> key_bytes list \<Rightarrow> radix_tree res" where
  "replace_siblings ndebug h prev b has_manager [] = Inr h"
| "replace_siblings ndebug h prev b has_manager (k # ks) =
     bindR (detach_next h prev k) (\<lambda>(h1, detached). case detached of
       None \<Rightarrow> Inl AssertionError
     | Some other \<Rightarrow>
         bindR (adopt_pages_from ndebug h1 b other) (\<lambda>h2.
         let h3 = add_event has_manager (RemovedEvent [blk_key (rx_blocks h2 other)]) h2
         in bindR (is_orphan h3 other) (\<lambda>orphan.
            assertR orphan (replace_siblings ndebug h3 prev b has_manager ks))))"

text \<open>The new object, before it is linked from its parent.\<close>

definition new_block :: "key_bytes \<Rightarrow> token_id_ext list \<Rightarrow> node \<Rightarrow> int \<Rightarrow> nat \<Rightarrow> radix_tree \<Rightarrow> radix_tree" where
  "new_block key tokens prev ordinal num_life_cycles h =
     h\<lparr>rx_blocks := (rx_blocks h)(rx_num_blocks h := \<lparr>blk_key = key, blk_tokens = tokens, blk_ordinal = ordinal,
         blk_prev = Some prev, blk_next = [], blk_storage = replicate num_life_cycles None\<rparr>),
       rx_num_blocks := rx_num_blocks h + 1\<rparr>"

definition link_block :: "bool \<Rightarrow> radix_tree \<Rightarrow> node \<Rightarrow> nat \<Rightarrow> key_bytes list \<Rightarrow> (radix_tree \<times> add_result) res option" where
  "link_block ndebug h prev b to_remove =
     Option.bind (if to_remove = [] then Some (Inr False)
                  else map_option (\<lambda>r. bindR r (\<lambda>_. Inr (rx_event_manager h))) (get_tree h prev)) (\<lambda>r.
     Some (bindR r (\<lambda>has_manager.
       let h1 = set_node_next prev (dict_set (blk_key (rx_blocks h b)) b (node_next h prev)) h
       in bindR (replace_siblings ndebug h1 prev b has_manager to_remove) (\<lambda>h2. Inr (h2, NewBlock b)))))"

definition find_cover :: "radix_tree \<Rightarrow> token_id_ext list \<Rightarrow> (key_bytes \<times> nat) list \<Rightarrow> nat option" where
  "find_cover h tokens d = map_option snd (List.find (\<lambda>(k, b). covers (blk_tokens (rx_blocks h b)) tokens) d)"

definition add_block :: "bool \<Rightarrow> (byte list \<Rightarrow> byte list) \<Rightarrow> radix_tree \<Rightarrow> token_id_ext list \<Rightarrow> node
    \<Rightarrow> (radix_tree \<times> add_result) res option" where
  "add_block ndebug H h tokens prev =
     (case bindR (node_tokens_per_block h prev) (\<lambda>m.
           bindR (prev_tokens_per_block h prev) (\<lambda>n.
           assertR (m = n) (
           bindR (block_key ndebug H (node_key h prev) tokens) (\<lambda>key.
           bindR (node_num_life_cycles h prev) (\<lambda>num_life_cycles.
           bindR (child_tokens_per_block h prev) (\<lambda>tpb. Inr (key, num_life_cycles, tpb))))))) of
        Inl e \<Rightarrow> Some (Inl e)
      | Inr (key, num_life_cycles, tpb) \<Rightarrow>
          (case map_of (node_next h prev) key of
             Some b \<Rightarrow> Some (Inr (h, Useless b))
           | None \<Rightarrow>
               (case if length tokens < tpb then find_cover h tokens (node_next h prev) else None of
                  Some b \<Rightarrow> Some (Inr (h, Useless b))
                | None \<Rightarrow>
                    (case bindR (covered_siblings ndebug h tokens (node_next h prev)) (\<lambda>ks.
                          assertR (ndebug \<or> length ks \<le> 1) (Inr ks)) of
                       Inl e \<Rightarrow> Some (Inl e)
                     | Inr to_remove \<Rightarrow>
                         link_block ndebug (new_block key tokens prev (node_ordinal h prev + 1) num_life_cycles h)
                           prev (rx_num_blocks h) to_remove))))"

definition add_root :: "(byte list \<Rightarrow> byte list) \<Rightarrow> radix_tree \<Rightarrow> int option list \<Rightarrow> (radix_tree \<times> nat) res" where
  "add_root H h scope =
     bindR (root_key H scope) (\<lambda>key.
     assertR (map_of (rx_next h) key = None) (
       Inr (h\<lparr>rx_roots := (rx_roots h)(rx_num_roots h := \<lparr>rb_key = key, rb_reuse_scope = scope, rb_attached = True, rb_next = []\<rparr>),
              rx_num_roots := rx_num_roots h + 1,
              rx_next := dict_set key (rx_num_roots h) (rx_next h)\<rparr>, rx_num_roots h)))"

definition add_or_get_existing :: "(byte list \<Rightarrow> byte list) \<Rightarrow> radix_tree \<Rightarrow> int option list \<Rightarrow> (radix_tree \<times> nat) res" where
  "add_or_get_existing H h scope =
     bindR (root_key H scope) (\<lambda>key. case map_of (rx_next h) key of
       Some r \<Rightarrow> Inr (h, r)
     | None \<Rightarrow> add_root H h scope)"

section \<open>Clearing the tree\<close>

text \<open>The two nested loops of \<^verbatim>\<open>clear\<close>; the inner one runs while the first root block has children.\<close>

partial_function (option) clear_root :: "radix_tree \<Rightarrow> nat \<Rightarrow> radix_tree res option" where
  "clear_root h r = (case rb_next (rx_roots h r) of
       [] \<Rightarrow> Some (Inr h)
     | (_, b) # _ \<Rightarrow> Option.bind (remove_subtree h b) (\<lambda>x. case x of Inl e \<Rightarrow> Some (Inl e) | Inr h1 \<Rightarrow> clear_root h1 r))"

partial_function (option) clear :: "radix_tree \<Rightarrow> radix_tree res option" where
  "clear h = (case rx_next h of
       [] \<Rightarrow> Some (Inr h)
     | (_, r) # _ \<Rightarrow> Option.bind (clear_root h r) (\<lambda>x. case x of Inl e \<Rightarrow> Some (Inl e) | Inr h1 \<Rightarrow> clear h1))"

section \<open>Well-formed stores\<close>

text \<open>
  Children and parents agree, ordinals count the distance from the root, every dictionary key is the key of its entry,
  and a root block is listed in the tree exactly while it is attached; only attached roots have children.
\<close>

definition links_ok :: "radix_tree \<Rightarrow> bool" where
  "links_ok h \<longleftrightarrow>
     (\<forall>n. dict_ok (node_next h n))
   \<and> (\<forall>n k c. (k, c) \<in> set (node_next h n) \<longrightarrow> blk_key (rx_blocks h c) = k \<and> blk_prev (rx_blocks h c) = Some n)
   \<and> (\<forall>c n. blk_prev (rx_blocks h c) = Some n \<longrightarrow> (blk_key (rx_blocks h c), c) \<in> set (node_next h n)
        \<and> c < rx_num_blocks h \<and> blk_ordinal (rx_blocks h c) = node_ordinal h n + 1)
   \<and> (\<forall>b. 0 \<le> blk_ordinal (rx_blocks h b))
   \<and> dict_ok (rx_next h)
   \<and> (\<forall>k r. (k, r) \<in> set (rx_next h) \<longleftrightarrow> rb_attached (rx_roots h r) \<and> rb_key (rx_roots h r) = k)
   \<and> (\<forall>r. rb_next (rx_roots h r) \<noteq> [] \<longrightarrow> rb_attached (rx_roots h r))
   \<and> (\<forall>r. rb_attached (rx_roots h r) \<longrightarrow> r < rx_num_roots h)"

lemma links_okD:
  assumes "links_ok h"
  shows "dict_ok (node_next h n)"
    and "(k, c) \<in> set (node_next h n) \<Longrightarrow> blk_key (rx_blocks h c) = k \<and> blk_prev (rx_blocks h c) = Some n"
    and "blk_prev (rx_blocks h c) = Some n \<Longrightarrow> (blk_key (rx_blocks h c), c) \<in> set (node_next h n)"
    and "blk_prev (rx_blocks h c) = Some n \<Longrightarrow> c < rx_num_blocks h"
    and "blk_prev (rx_blocks h c) = Some n \<Longrightarrow> blk_ordinal (rx_blocks h c) = node_ordinal h n + 1"
    and "0 \<le> blk_ordinal (rx_blocks h b)"
    and "dict_ok (rx_next h)"
    and "(k, r) \<in> set (rx_next h) \<longleftrightarrow> rb_attached (rx_roots h r) \<and> rb_key (rx_roots h r) = k"
    and "rb_next (rx_roots h r) \<noteq> [] \<Longrightarrow> rb_attached (rx_roots h r)"
    and "rb_attached (rx_roots h r) \<Longrightarrow> r < rx_num_roots h"
  using assms unfolding links_ok_def by blast+

lemma links_okI:
  assumes "\<And>n. dict_ok (node_next h n)"
    and "\<And>n k c. (k, c) \<in> set (node_next h n) \<Longrightarrow> blk_key (rx_blocks h c) = k \<and> blk_prev (rx_blocks h c) = Some n"
    and "\<And>c n. blk_prev (rx_blocks h c) = Some n \<Longrightarrow> (blk_key (rx_blocks h c), c) \<in> set (node_next h n)
        \<and> c < rx_num_blocks h \<and> blk_ordinal (rx_blocks h c) = node_ordinal h n + 1"
    and "\<And>b. 0 \<le> blk_ordinal (rx_blocks h b)"
    and "dict_ok (rx_next h)"
    and "\<And>k r. (k, r) \<in> set (rx_next h) \<longleftrightarrow> rb_attached (rx_roots h r) \<and> rb_key (rx_roots h r) = k"
    and "\<And>r. rb_next (rx_roots h r) \<noteq> [] \<Longrightarrow> rb_attached (rx_roots h r)"
    and "\<And>r. rb_attached (rx_roots h r) \<Longrightarrow> r < rx_num_roots h"
  shows "links_ok h"
  unfolding links_ok_def using assms by blast

text \<open>Two stores have the same shape when they differ only in pages, page slots and recorded calls.\<close>

definition same_shape :: "radix_tree \<Rightarrow> radix_tree \<Rightarrow> bool" where
  "same_shape h h' \<longleftrightarrow>
     (\<forall>b. blk_key (rx_blocks h' b) = blk_key (rx_blocks h b) \<and> blk_tokens (rx_blocks h' b) = blk_tokens (rx_blocks h b)
        \<and> blk_ordinal (rx_blocks h' b) = blk_ordinal (rx_blocks h b) \<and> blk_prev (rx_blocks h' b) = blk_prev (rx_blocks h b)
        \<and> blk_next (rx_blocks h' b) = blk_next (rx_blocks h b)
        \<and> length (blk_storage (rx_blocks h' b)) = length (blk_storage (rx_blocks h b)))
   \<and> rx_roots h' = rx_roots h \<and> rx_next h' = rx_next h \<and> rx_num_blocks h' = rx_num_blocks h
   \<and> rx_num_roots h' = rx_num_roots h \<and> rx_tokens_per_block h' = rx_tokens_per_block h
   \<and> rx_life_cycles h' = rx_life_cycles h \<and> rx_event_manager h' = rx_event_manager h"

lemma same_shape_refl [simp]: "same_shape h h"
  by (simp add: same_shape_def)

lemma same_shape_trans [trans]: "same_shape h h' \<Longrightarrow> same_shape h' h'' \<Longrightarrow> same_shape h h''"
  by (simp add: same_shape_def)

lemma same_shape_node:
  assumes "same_shape h h'"
  shows "node_next h' n = node_next h n" and "node_ordinal h' n = node_ordinal h n" and "node_key h' n = node_key h n"
  using assms by (cases n; simp add: same_shape_def)+

lemma same_shapeD:
  assumes "same_shape h h'"
  shows "blk_key (rx_blocks h' b) = blk_key (rx_blocks h b)" "blk_tokens (rx_blocks h' b) = blk_tokens (rx_blocks h b)"
    "blk_ordinal (rx_blocks h' b) = blk_ordinal (rx_blocks h b)" "blk_prev (rx_blocks h' b) = blk_prev (rx_blocks h b)"
    "blk_next (rx_blocks h' b) = blk_next (rx_blocks h b)"
    "length (blk_storage (rx_blocks h' b)) = length (blk_storage (rx_blocks h b))"
    "rx_roots h' = rx_roots h" "rx_next h' = rx_next h" "rx_num_blocks h' = rx_num_blocks h"
    "rx_num_roots h' = rx_num_roots h" "rx_tokens_per_block h' = rx_tokens_per_block h"
    "rx_life_cycles h' = rx_life_cycles h" "rx_event_manager h' = rx_event_manager h"
  using assms by (simp_all add: same_shape_def)

lemma links_ok_same_shape: "same_shape h h' \<Longrightarrow> links_ok h' \<longleftrightarrow> links_ok h"
  unfolding links_ok_def by (simp only: same_shape_node same_shapeD)

lemma same_shape_updates [simp]:
  "same_shape h (set_page_slot b lc v h)"
  "same_shape h (set_page p f h)"
  "same_shape h (exclude_page p h)"
  "same_shape h (add_event m e h)"
  by (simp_all add: same_shape_def set_page_slot_def set_block_def set_page_def exclude_page_def add_event_def)

lemma same_shape_after [simp]:
  "same_shape h h' \<Longrightarrow> same_shape h (set_page_slot b lc v h')"
  "same_shape h h' \<Longrightarrow> same_shape h (set_page p f h')"
  "same_shape h h' \<Longrightarrow> same_shape h (exclude_page p h')"
  "same_shape h h' \<Longrightarrow> same_shape h (add_event m e h')"
  by (simp_all add: same_shape_trans [OF _ same_shape_updates(1)] same_shape_trans [OF _ same_shape_updates(2)]
      same_shape_trans [OF _ same_shape_updates(3)] same_shape_trans [OF _ same_shape_updates(4)])

section \<open>Detaching a child\<close>

definition detached :: "radix_tree \<Rightarrow> node \<Rightarrow> nat \<Rightarrow> radix_tree" where
  "detached h n b =
     (let h1 = set_block b (\<lambda>x. x\<lparr>blk_prev := None\<rparr>) (set_node_next n (dict_del (blk_key (rx_blocks h b)) (node_next h n)) h)
      in case n of BlockNode _ \<Rightarrow> h1
         | RootNode r \<Rightarrow> if rb_next (rx_roots h1 r) = []
             then set_root r (\<lambda>x. x\<lparr>rb_attached := False\<rparr>) (h1\<lparr>rx_next := dict_del (rb_key (rx_roots h1 r)) (rx_next h1)\<rparr>)
             else h1)"

lemma detached_block [simp]:
  "blk_key (rx_blocks (detached h n b) c) = blk_key (rx_blocks h c)"
  "blk_tokens (rx_blocks (detached h n b) c) = blk_tokens (rx_blocks h c)"
  "blk_ordinal (rx_blocks (detached h n b) c) = blk_ordinal (rx_blocks h c)"
  "blk_storage (rx_blocks (detached h n b) c) = blk_storage (rx_blocks h c)"
  "blk_prev (rx_blocks (detached h n b) c) = (if c = b then None else blk_prev (rx_blocks h c))"
  by (cases n; simp add: detached_def Let_def set_block_def set_root_def)+

lemma detached_next [simp]:
  "node_next (detached h n b) m = (if m = n then dict_del (blk_key (rx_blocks h b)) (node_next h n) else node_next h m)"
  by (cases n; cases m; simp add: detached_def Let_def set_block_def set_root_def)

lemma detached_ordinal [simp]: "node_ordinal (detached h n b) m = node_ordinal h m"
  by (cases m) simp_all

lemma detached_fields [simp]:
  "rx_num_blocks (detached h n b) = rx_num_blocks h"
  "rx_num_roots (detached h n b) = rx_num_roots h"
  "rx_pages (detached h n b) = rx_pages h"
  "rx_tokens_per_block (detached h n b) = rx_tokens_per_block h"
  "rx_life_cycles (detached h n b) = rx_life_cycles h"
  "rx_event_manager (detached h n b) = rx_event_manager h"
  "rb_key (rx_roots (detached h n b) r) = rb_key (rx_roots h r)"
  by (cases n; simp add: detached_def Let_def set_block_def set_root_def)+

lemma detached_attached [simp]:
  "rb_attached (rx_roots (detached h n b) r)
     \<longleftrightarrow> rb_attached (rx_roots h r) \<and> \<not> (n = RootNode r \<and> dict_del (blk_key (rx_blocks h b)) (node_next h n) = [])"
  by (cases n; simp add: detached_def Let_def set_block_def set_root_def)

lemma detached_rx_next:
  "rx_next (detached h n b) = (case n of BlockNode _ \<Rightarrow> rx_next h
     | RootNode r \<Rightarrow> if dict_del (blk_key (rx_blocks h b)) (node_next h n) = [] then dict_del (rb_key (rx_roots h r)) (rx_next h)
         else rx_next h)"
  by (cases n; simp add: detached_def Let_def set_block_def set_root_def)

lemma set_dict_del: "dict_ok d \<Longrightarrow> set (dict_del k d) = {(k', v) \<in> set d. k' \<noteq> k}"
  by (induction k d rule: dict_del.induct) force+

lemma detach_next_detached:
  assumes "links_ok h" and "blk_prev (rx_blocks h b) = Some n"
  shows "detach_next h n (blk_key (rx_blocks h b)) = Inr (detached h n b, Some b)"
proof -
  have mem: "(blk_key (rx_blocks h b), b) \<in> set (node_next h n)" using links_okD(3) [OF assms] .
  then have look: "map_of (node_next h n) (blk_key (rx_blocks h b)) = Some b"
    using links_okD(1) [OF assms(1)] by simp
  show ?thesis
  proof (cases n)
    case (BlockNode m)
    then show ?thesis using look by (simp add: detach_next_def detached_def Let_def)
  next
    case (RootNode r)
    then have "rb_next (rx_roots h r) \<noteq> []" using mem by auto
    then have att: "rb_attached (rx_roots h r)" using links_okD(9) [OF assms(1)] by blast
    then have "map_of (rx_next h) (rb_key (rx_roots h r)) = Some r"
      using links_okD(7,8) [OF assms(1)] by simp
    then show ?thesis
      using look RootNode att by (simp add: detach_next_def detached_def Let_def set_block_def set_root_def)
  qed
qed

lemma links_ok_detached:
  assumes ok: "links_ok h" and b: "blk_prev (rx_blocks h b) = Some n"
  shows "links_ok (detached h n b)"
proof -
  let ?h = "detached h n b" and ?k = "blk_key (rx_blocks h b)"
  note D = links_okD [OF ok]
  have key: "k = blk_key (rx_blocks h c) \<and> blk_prev (rx_blocks h c) = Some m \<and> c \<noteq> b"
    if "(k, c) \<in> set (node_next ?h m)" for k c m
    using that D(1) [of n] D(2) [of k c] b by (auto simp: set_dict_del split: if_splits)
  have mem: "(blk_key (rx_blocks h c), c) \<in> set (node_next ?h m)" if "blk_prev (rx_blocks h c) = Some m" "c \<noteq> b" for c m
  proof -
    have "blk_key (rx_blocks h c) \<noteq> ?k" if "m = n"
      using D(3) [OF b] D(3) [of c n] \<open>c \<noteq> b\<close> \<open>blk_prev (rx_blocks h c) = Some m\<close> that
        eq_key_imp_eq_value [OF D(1) [of n], of ?k b c] by auto
    then show ?thesis using D(1) [of n] D(3) [OF that(1)] by (auto simp: set_dict_del)
  qed
  have roots: "(k, r) \<in> set (rx_next ?h) \<longleftrightarrow> rb_attached (rx_roots ?h r) \<and> rb_key (rx_roots ?h r) = k" for k r
  proof (cases n)
    case (BlockNode m)
    then show ?thesis using D(8) by (simp add: detached_rx_next)
  next
    case (RootNode q)
    have "rb_next (rx_roots h q) \<noteq> []" using D(3) [OF b] RootNode by auto
    then have q: "rb_attached (rx_roots h q)" by (rule D(9))
    then have "(rb_key (rx_roots h q), q) \<in> set (rx_next h)" using D(8) by blast
    then have "r = q" if "rb_attached (rx_roots h r)" "rb_key (rx_roots h r) = rb_key (rx_roots h q)" for r
      using that D(8) eq_key_imp_eq_value [OF D(7)] by metis
    then show ?thesis using RootNode D(7,8) q by (auto simp: detached_rx_next set_dict_del)
  qed
  have "rb_attached (rx_roots ?h r)" if "rb_next (rx_roots ?h r) \<noteq> []" for r
    using that D(9) [of r] detached_next [of h n b "RootNode r"]
    by (cases "rb_next (rx_roots h r) = []") (auto split: if_splits)
  note att = this
  show ?thesis
  proof (rule links_okI, goal_cases)
    case (1 m)
    then show ?case using D(1) by simp
  next
    case (2 m k c)
    then show ?case using key by simp
  next
    case (3 c m)
    then have "blk_prev (rx_blocks h c) = Some m" "c \<noteq> b" by (simp_all split: if_splits)
    then show ?case using mem D(4,5) by simp
  next
    case 5
    then show ?case using D(7) by (simp add: detached_rx_next split: node.splits)
  next
    case (6 k r)
    then show ?case by (rule roots)
  next
    case (7 r)
    then show ?case by (rule att)
  qed (use D(6,10) in simp_all)
qed

section \<open>Blocks below a block\<close>

definition parent_step :: "radix_tree \<Rightarrow> nat \<Rightarrow> nat \<Rightarrow> bool" where
  "parent_step h x y \<longleftrightarrow> blk_prev (rx_blocks h y) = Some (BlockNode x)"

definition below :: "radix_tree \<Rightarrow> nat \<Rightarrow> nat set" where
  "below h b = {c. (parent_step h)\<^sup>*\<^sup>* b c}"

lemma below_self [simp]: "b \<in> below h b"
  by (simp add: below_def)

lemma below_step: "c \<in> below h b \<Longrightarrow> blk_prev (rx_blocks h d) = Some (BlockNode c) \<Longrightarrow> d \<in> below h b"
  by (auto simp: below_def parent_step_def intro: rtranclp.rtrancl_into_rtrancl)

lemma below_parent: "c \<in> below h b \<Longrightarrow> c \<noteq> b \<Longrightarrow> \<exists>p. blk_prev (rx_blocks h c) = Some (BlockNode p) \<and> p \<in> below h b"
  unfolding below_def by (auto simp: parent_step_def elim: rtranclp.cases)

lemma below_induct [consumes 1, case_names self step]:
  assumes "c \<in> below h b" and "P b"
    and "\<And>c d. c \<in> below h b \<Longrightarrow> blk_prev (rx_blocks h d) = Some (BlockNode c) \<Longrightarrow> P c \<Longrightarrow> P d"
  shows "P c"
proof -
  have "(parent_step h)\<^sup>*\<^sup>* b c" using assms(1) by (simp add: below_def)
  then show ?thesis
    by (induction rule: rtranclp_induct) (use assms(2,3) in \<open>auto simp: below_def parent_step_def\<close>)
qed

lemma below_ordinal: "c \<in> below h b \<Longrightarrow> links_ok h \<Longrightarrow> blk_ordinal (rx_blocks h b) \<le> blk_ordinal (rx_blocks h c)"
proof (induction rule: below_induct)
  case (step c d)
  then show ?case using links_okD(5) [OF \<open>links_ok h\<close> step(2)] by simp
qed simp

lemma below_finite: "links_ok h \<Longrightarrow> finite (below h b)"
proof (rule finite_subset)
  assume ok: "links_ok h"
  show "below h b \<subseteq> insert b {..<rx_num_blocks h}"
    using below_parent links_okD(4) [OF ok] by blast
qed simp

lemma below_same_shape: "same_shape h h' \<Longrightarrow> below h' b = below h b"
  by (simp add: below_def parent_step_def [abs_def] same_shapeD)

lemma leaf_no_child: "links_ok h \<Longrightarrow> blk_next (rx_blocks h b) = [] \<Longrightarrow> blk_prev (rx_blocks h c) \<noteq> Some (BlockNode b)"
  using links_okD(3) [of h c "BlockNode b"] by auto

lemma below_detached:
  assumes ok: "links_ok h" and b: "blk_prev (rx_blocks h b) = Some n" and leaf: "blk_next (rx_blocks h b) = []"
    and ne: "b \<noteq> start"
  shows "below (detached h n b) start = below h start - {b}"
proof (intro set_eqI iffI)
  fix c assume "c \<in> below (detached h n b) start"
  then show "c \<in> below h start - {b}"
    by (induction rule: below_induct) (use ne in \<open>auto intro: below_step split: if_splits\<close>)
next
  fix c assume "c \<in> below h start - {b}"
  then have "c \<in> below h start" "c \<noteq> b" by auto
  then show "c \<in> below (detached h n b) start"
  proof (induction rule: below_induct)
    case (step c d)
    have "c \<noteq> b" using leaf_no_child [OF ok leaf] step(2) by blast
    then show ?case using step by (auto intro: below_step)
  qed simp
qed

section \<open>Links between blocks and pages\<close>

definition slot_page :: "radix_tree \<Rightarrow> nat \<Rightarrow> nat \<Rightarrow> nat option" where
  "slot_page h b lc = (if lc < length (blk_storage (rx_blocks h b)) then blk_storage (rx_blocks h b) ! lc else None)"

text \<open>A block holds a page in a slot exactly when the page points back to that block and names that life cycle.\<close>

definition pages_ok :: "radix_tree \<Rightarrow> bool" where
  "pages_ok h \<longleftrightarrow> (\<forall>p b lc. slot_page h b lc = Some p
     \<longleftrightarrow> cp_block (rx_pages h p) = Some b \<and> cp_life_cycle (rx_pages h p) = lc)"

definition pages_ok_but :: "nat \<Rightarrow> radix_tree \<Rightarrow> bool" where
  "pages_ok_but p h \<longleftrightarrow> (\<forall>b lc. slot_page h b lc \<noteq> Some p)
     \<and> (\<forall>q b lc. q \<noteq> p \<longrightarrow> (slot_page h b lc = Some q
          \<longleftrightarrow> cp_block (rx_pages h q) = Some b \<and> cp_life_cycle (rx_pages h q) = lc))"

lemma get_page_slot [simp]: "lc < length (blk_storage (rx_blocks h b)) \<Longrightarrow> get_page h b lc = Inr (slot_page h b lc)"
  by (simp add: get_page_def slot_page_def)

lemma slot_page_Some: "slot_page h b lc = Some p \<Longrightarrow> lc < length (blk_storage (rx_blocks h b))"
  by (auto simp: slot_page_def split: if_splits)

lemma slot_page_set_page_slot:
  "lc < length (blk_storage (rx_blocks h b)) \<Longrightarrow>
     slot_page (set_page_slot b lc v h) c l = (if c = b \<and> l = lc then v else slot_page h c l)"
  by (simp add: slot_page_def set_page_slot_def set_block_def)

lemma slot_page_pages [simp]:
  "slot_page (set_page p f h) c l = slot_page h c l"
  "slot_page (exclude_page p h) c l = slot_page h c l"
  "slot_page (add_event m e h) c l = slot_page h c l"
  by (simp_all add: slot_page_def set_page_def exclude_page_def add_event_def)

lemma slot_page_detached [simp]: "slot_page (detached h n b) c l = slot_page h c l"
  by (simp add: slot_page_def)

lemma length_storage_pages [simp]:
  "length (blk_storage (rx_blocks (set_page p f h) c)) = length (blk_storage (rx_blocks h c))"
  by (simp add: set_page_def)

lemma rx_pages_updates [simp]:
  "rx_pages (set_page_slot b lc v h) = rx_pages h"
  "rx_pages (set_page p f h) = (rx_pages h)(p := f (rx_pages h p))"
  "cp_block (rx_pages (exclude_page p h) q) = cp_block (rx_pages h q)"
  "cp_life_cycle (rx_pages (exclude_page p h) q) = cp_life_cycle (rx_pages h q)"
  "cp_num_tokens_in_block (rx_pages (exclude_page p h) q) = cp_num_tokens_in_block (rx_pages h q)"
  "rx_pages (add_event m e h) = rx_pages h"
  by (simp_all add: set_page_slot_def set_block_def set_page_def exclude_page_def add_event_def)

lemma pages_ok_exclude [simp]: "pages_ok (exclude_page p h) \<longleftrightarrow> pages_ok h"
  "pages_ok_but q (exclude_page p h) \<longleftrightarrow> pages_ok_but q h"
  by (simp_all add: pages_ok_def pages_ok_but_def)

lemma rx_events_detached [simp]: "rx_events (detached h n b) = rx_events h"
  by (cases n; simp add: detached_def Let_def set_block_def set_root_def)

lemma pages_ok_detached [simp]: "pages_ok (detached h n b) \<longleftrightarrow> pages_ok h"
  by (simp add: pages_ok_def)

lemma ok_add_event [simp]: "links_ok (add_event m e h) \<longleftrightarrow> links_ok h" "pages_ok (add_event m e h) \<longleftrightarrow> pages_ok h"
  using links_ok_same_shape [OF same_shape_updates(4)] by (simp_all add: pages_ok_def)

lemma pages_okD:
  "pages_ok h \<Longrightarrow> slot_page h b lc = Some p \<longleftrightarrow> cp_block (rx_pages h p) = Some b \<and> cp_life_cycle (rx_pages h p) = lc"
  by (simp add: pages_ok_def)

lemma pages_ok_butD:
  "pages_ok_but p h \<Longrightarrow> slot_page h b lc \<noteq> Some p"
  "pages_ok_but p h \<Longrightarrow> q \<noteq> p \<Longrightarrow>
     slot_page h b lc = Some q \<longleftrightarrow> cp_block (rx_pages h q) = Some b \<and> cp_life_cycle (rx_pages h q) = lc"
  by (simp_all add: pages_ok_but_def)

lemma pages_ok_unlink:
  assumes "pages_ok h" and "slot_page h b lc = Some p"
  shows "pages_ok (set_page_slot b lc None (set_page p (\<lambda>x. x\<lparr>cp_block := None\<rparr>) h))"
  unfolding pages_ok_def
proof (intro allI)
  fix q c l
  show "slot_page (set_page_slot b lc None (set_page p (\<lambda>x. x\<lparr>cp_block := None\<rparr>) h)) c l = Some q
    \<longleftrightarrow> cp_block (rx_pages (set_page_slot b lc None (set_page p (\<lambda>x. x\<lparr>cp_block := None\<rparr>) h)) q) = Some c
      \<and> cp_life_cycle (rx_pages (set_page_slot b lc None (set_page p (\<lambda>x. x\<lparr>cp_block := None\<rparr>) h)) q) = l"
    using pages_okD [OF assms(1), of c l q] pages_okD [OF assms(1), of b lc p] assms(2)
    by (cases "q = p"; cases "c = b \<and> l = lc") (auto simp: slot_page_set_page_slot slot_page_Some [OF assms(2)])
qed

lemma pages_ok_but_unlink:
  assumes "pages_ok_but r h" and "slot_page h b lc = Some p"
  shows "pages_ok_but r (set_page_slot b lc None (set_page p (\<lambda>x. x\<lparr>cp_block := None\<rparr>) h))"
proof -
  have ne: "r \<noteq> p" using assms pages_ok_butD(1) by blast
  have "slot_page (set_page_slot b lc None (set_page p (\<lambda>x. x\<lparr>cp_block := None\<rparr>) h)) c l = Some q
    \<longleftrightarrow> cp_block (rx_pages (set_page_slot b lc None (set_page p (\<lambda>x. x\<lparr>cp_block := None\<rparr>) h)) q) = Some c
      \<and> cp_life_cycle (rx_pages (set_page_slot b lc None (set_page p (\<lambda>x. x\<lparr>cp_block := None\<rparr>) h)) q) = l" if "q \<noteq> r" for q c l
    using pages_ok_butD(2) [OF assms(1) that, of c l] pages_ok_butD(2) [OF assms(1) ne [symmetric], of b lc] assms(2)
    by (cases "q = p"; cases "c = b \<and> l = lc") (auto simp: slot_page_set_page_slot slot_page_Some [OF assms(2)])
  then show ?thesis
    using pages_ok_butD(1) [OF assms(1)] unfolding pages_ok_but_def
    by (simp add: slot_page_set_page_slot slot_page_Some [OF assms(2)])
qed

lemma pages_ok_take_out:
  assumes "pages_ok h" and "slot_page h b lc = Some p"
  shows "pages_ok_but p (set_page_slot b lc None h)"
proof -
  have "slot_page (set_page_slot b lc None h) c l \<noteq> Some p" for c l
    using pages_okD [OF assms(1), of c l p] pages_okD [OF assms(1), of b lc p] assms(2)
    by (auto simp: slot_page_set_page_slot slot_page_Some [OF assms(2)])
  moreover have "slot_page (set_page_slot b lc None h) c l = Some q
    \<longleftrightarrow> cp_block (rx_pages h q) = Some c \<and> cp_life_cycle (rx_pages h q) = l" if "q \<noteq> p" for q c l
    using pages_okD [OF assms(1), of c l q] assms(2) that
    by (cases "c = b \<and> l = lc") (auto simp: slot_page_set_page_slot slot_page_Some [OF assms(2)])
  ultimately show ?thesis by (simp add: pages_ok_but_def)
qed

lemma pages_ok_install:
  assumes "pages_ok_but p h" and "lc < length (blk_storage (rx_blocks h b))" and "slot_page h b lc = None"
    and "cp_life_cycle (rx_pages h p) = lc"
  shows "pages_ok (set_page_slot b lc (Some p) (set_page p (\<lambda>x. x\<lparr>cp_block := Some b\<rparr>) h))"
  unfolding pages_ok_def
proof (intro allI)
  fix q c l
  show "slot_page (set_page_slot b lc (Some p) (set_page p (\<lambda>x. x\<lparr>cp_block := Some b\<rparr>) h)) c l = Some q
    \<longleftrightarrow> cp_block (rx_pages (set_page_slot b lc (Some p) (set_page p (\<lambda>x. x\<lparr>cp_block := Some b\<rparr>) h)) q) = Some c
      \<and> cp_life_cycle (rx_pages (set_page_slot b lc (Some p) (set_page p (\<lambda>x. x\<lparr>cp_block := Some b\<rparr>) h)) q) = l"
    using pages_ok_butD(1) [OF assms(1), of c l] pages_ok_butD(2) [OF assms(1), of q c l] assms(2-4)
    by (cases "q = p"; cases "c = b \<and> l = lc") (auto simp: slot_page_set_page_slot)
qed

lemma unlink_page_None:
  assumes "lc < length (blk_storage (rx_blocks h b))"
  shows "unlink_page h b lc None = Inr (case slot_page h b lc of None \<Rightarrow> (h, None)
    | Some p \<Rightarrow> (set_page_slot b lc None (set_page p (\<lambda>x. x\<lparr>cp_block := None\<rparr>) h), Some p))"
  using assms by (simp add: unlink_page_def split: option.splits)

text \<open>Releasing the pages of a block empties its slots and leaves every other slot as it was.\<close>

lemma release_loop_spec:
  "\<forall>lc\<in>set lcs. lc < length (blk_storage (rx_blocks h b)) \<Longrightarrow> pages_ok h \<Longrightarrow>
     \<exists>h'. release_loop h b lcs = Inr h' \<and> same_shape h h' \<and> pages_ok h' \<and> rx_events h' = rx_events h
       \<and> (\<forall>c l. slot_page h' c l = (if c = b \<and> l \<in> set lcs then None else slot_page h c l))"
proof (induction lcs arbitrary: h)
  case (Cons lc lcs)
  have lt: "lc < length (blk_storage (rx_blocks h b))" using Cons.prems(1) by simp
  show ?case
  proof (cases "slot_page h b lc")
    case None
    then have run: "release_loop h b (lc # lcs) = release_loop h b lcs" using lt by simp
    obtain h' where "release_loop h b lcs = Inr h' \<and> same_shape h h' \<and> pages_ok h' \<and> rx_events h' = rx_events h
       \<and> (\<forall>c l. slot_page h' c l = (if c = b \<and> l \<in> set lcs then None else slot_page h c l))"
      using Cons.IH [of h] Cons.prems by auto
    then show ?thesis unfolding run using None by auto
  next
    case (Some p)
    define h1 where "h1 = set_page_slot b lc None (set_page p (\<lambda>x. x\<lparr>cp_block := None\<rparr>) h)"
    define h2 where "h2 = (if cp_status (rx_pages h1 p) = DROPPABLE \<and> cp_scheduled (rx_pages h1 p) then exclude_page p h1 else h1)"
    have run: "release_loop h b (lc # lcs) = release_loop h2 b lcs"
      using lt Some by (simp add: unlink_page_None h1_def h2_def)
    have shape: "same_shape h h2" by (simp add: h1_def h2_def)
    have slots: "slot_page h2 c l = (if c = b \<and> l = lc then None else slot_page h c l)" for c l
      using lt by (simp add: slot_page_set_page_slot h1_def h2_def)
    have ok: "pages_ok h2" using pages_ok_unlink [OF Cons.prems(2) Some] by (simp add: h1_def h2_def)
    have ev: "rx_events h2 = rx_events h"
      by (simp add: h1_def h2_def exclude_page_def set_page_def set_page_slot_def set_block_def)
    have "\<forall>lc\<in>set lcs. lc < length (blk_storage (rx_blocks h2 b))"
      using Cons.prems(1) same_shapeD(6) [OF shape, of b] by simp
    then obtain h' where h': "release_loop h2 b lcs = Inr h'" "same_shape h2 h'" "pages_ok h'" "rx_events h' = rx_events h2"
       "\<forall>c l. slot_page h' c l = (if c = b \<and> l \<in> set lcs then None else slot_page h2 c l)"
      using Cons.IH [of h2] ok by blast
    have "\<forall>c l. slot_page h' c l = (if c = b \<and> l \<in> set (lc # lcs) then None else slot_page h c l)"
      using h'(5) slots by simp
    moreover have "rx_events h' = rx_events h" using h'(4) ev by simp
    ultimately show ?thesis unfolding run using h'(1,3) same_shape_trans [OF shape h'(2)] by blast
  qed
qed simp

lemma release_pages_spec:
  assumes "pages_ok h"
  shows "\<exists>h'. release_pages h b = Inr h' \<and> same_shape h h' \<and> pages_ok h' \<and> rx_events h' = rx_events h
    \<and> (\<forall>c l. slot_page h' c l = (if c = b then None else slot_page h c l))"
proof -
  obtain h' where h': "release_loop h b [0..<length (blk_storage (rx_blocks h b))] = Inr h'" "same_shape h h'" "pages_ok h'"
      "rx_events h' = rx_events h" "\<forall>c l. slot_page h' c l =
        (if c = b \<and> l \<in> set [0..<length (blk_storage (rx_blocks h b))] then None else slot_page h c l)"
    using release_loop_spec [of "[0..<length (blk_storage (rx_blocks h b))]" h b] assms by auto
  moreover have "slot_page h' c l = (if c = b then None else slot_page h c l)" for c l
    using h'(5) by (auto simp: slot_page_def [of h])
  ultimately show ?thesis by (auto simp: release_pages_def)
qed

end
