(* ===== verification/KV_Radix_Remove.thy ===== *)
theory KV_Radix_Remove
  imports KV_Radix_Tree
begin

text \<open>
  Removing blocks from the radix tree: \<open>remove_subtree\<close> returns, and takes away exactly the blocks below the given one;
  \<open>clear\<close> empties the tree; the clean-up after a page is gone returns and keeps the store well-formed.
\<close>

section \<open>What removing a subtree does\<close>

definition subtree_removed :: "radix_tree \<Rightarrow> nat \<Rightarrow> radix_tree \<Rightarrow> bool" where
  "subtree_removed h start h' \<longleftrightarrow>
     (\<forall>c. blk_key (rx_blocks h' c) = blk_key (rx_blocks h c) \<and> blk_tokens (rx_blocks h' c) = blk_tokens (rx_blocks h c)
        \<and> blk_ordinal (rx_blocks h' c) = blk_ordinal (rx_blocks h c))
   \<and> (\<forall>c. blk_prev (rx_blocks h' c) = (if c \<in> below h start then None else blk_prev (rx_blocks h c)))
   \<and> (\<forall>n. node_next h' n = (if n \<in> BlockNode ` below h start then []
        else if blk_prev (rx_blocks h start) = Some n then dict_del (blk_key (rx_blocks h start)) (node_next h n)
        else node_next h n))
   \<and> (\<forall>c l. slot_page h' c l = (if c \<in> below h start then None else slot_page h c l))
   \<and> (\<forall>r. rb_key (rx_roots h' r) = rb_key (rx_roots h r)
        \<and> (rb_attached (rx_roots h' r) \<longleftrightarrow> rb_attached (rx_roots h r)
             \<and> \<not> (blk_prev (rx_blocks h start) = Some (RootNode r) \<and> rb_next (rx_roots h' r) = [])))
   \<and> rx_num_blocks h' = rx_num_blocks h \<and> rx_num_roots h' = rx_num_roots h
   \<and> rx_tokens_per_block h' = rx_tokens_per_block h \<and> rx_life_cycles h' = rx_life_cycles h
   \<and> rx_event_manager h' = rx_event_manager h"

lemma subtree_removedD:
  assumes "subtree_removed h start h'"
  shows "blk_key (rx_blocks h' c) = blk_key (rx_blocks h c)" "blk_tokens (rx_blocks h' c) = blk_tokens (rx_blocks h c)"
    "blk_ordinal (rx_blocks h' c) = blk_ordinal (rx_blocks h c)"
    "blk_prev (rx_blocks h' c) = (if c \<in> below h start then None else blk_prev (rx_blocks h c))"
    "node_next h' n = (if n \<in> BlockNode ` below h start then []
        else if blk_prev (rx_blocks h start) = Some n then dict_del (blk_key (rx_blocks h start)) (node_next h n)
        else node_next h n)"
    "slot_page h' c l = (if c \<in> below h start then None else slot_page h c l)"
    "rb_key (rx_roots h' r) = rb_key (rx_roots h r)"
    "rb_attached (rx_roots h' r) \<longleftrightarrow> rb_attached (rx_roots h r)
        \<and> \<not> (blk_prev (rx_blocks h start) = Some (RootNode r) \<and> rb_next (rx_roots h' r) = [])"
    "rx_num_blocks h' = rx_num_blocks h" "rx_num_roots h' = rx_num_roots h"
    "rx_tokens_per_block h' = rx_tokens_per_block h" "rx_life_cycles h' = rx_life_cycles h"
    "rx_event_manager h' = rx_event_manager h"
  using assms unfolding subtree_removed_def by blast+

text \<open>The last turn: the start itself is a leaf.\<close>

lemma below_leaf: "links_ok h \<Longrightarrow> blk_next (rx_blocks h b) = [] \<Longrightarrow> below h b = {b}"
proof (intro set_eqI iffI)
  fix c assume ok: "links_ok h" and leaf: "blk_next (rx_blocks h b) = []" and "c \<in> below h b"
  show "c \<in> {b}" using \<open>c \<in> below h b\<close>
    by (induction rule: below_induct) (use leaf_no_child [OF ok leaf] in auto)
qed simp

lemma removed_orphan_leaf:
  assumes "links_ok h" and "blk_next (rx_blocks h b) = []" and "blk_prev (rx_blocks h b) = None"
    and "same_shape h h1" and "\<forall>c l. slot_page h1 c l = (if c = b then None else slot_page h c l)"
  shows "subtree_removed h b h1"
  using assms(2,3,5) same_shapeD [OF assms(4)] same_shape_node [OF assms(4)]
  unfolding subtree_removed_def below_leaf [OF assms(1,2)] by auto

lemma removed_linked_leaf:
  assumes "links_ok h" and "blk_next (rx_blocks h b) = []" and "blk_prev (rx_blocks h b) = Some n"
    and "same_shape h h1" and "\<forall>c l. slot_page h1 c l = (if c = b then None else slot_page h c l)"
  shows "subtree_removed h b (detached h1 n b)"
proof -
  have nb: "n \<noteq> BlockNode b" using links_okD(5) [OF assms(1,3)] by auto
  have root: "rb_next (rx_roots (detached h1 n b) r)
      = (if n = RootNode r then dict_del (blk_key (rx_blocks h b)) (rb_next (rx_roots h r)) else rb_next (rx_roots h r))" for r
    using detached_next [of h1 n b "RootNode r"] same_shapeD [OF assms(4)] by (auto split: if_splits)
  show ?thesis
    using assms(2,3,5) nb same_shapeD [OF assms(4)] same_shape_node [OF assms(4)] root
    unfolding subtree_removed_def below_leaf [OF assms(1,2)] by auto
qed

text \<open>An inner turn: a leaf other than the start is detached, and the rest of the subtree is removed afterwards.\<close>

lemma removed_step:
  assumes ok: "links_ok h" and b: "b \<in> below h start" "b \<noteq> start" and leaf: "blk_next (rx_blocks h b) = []"
    and shape: "same_shape h h1" and slots: "\<forall>c l. slot_page h1 c l = (if c = b then None else slot_page h c l)"
    and p: "blk_prev (rx_blocks h b) = Some (BlockNode p)"
    and rest: "subtree_removed (detached h1 (BlockNode p) b) start h'"
  shows "subtree_removed h start h'"
proof -
  let ?d = "detached h1 (BlockNode p) b"
  note S = same_shapeD [OF shape] same_shape_node [OF shape]
  have ok1: "links_ok h1" using ok links_ok_same_shape [OF shape] by simp
  have below: "below ?d start = below h start - {b}"
    using below_detached [OF ok1, of b "BlockNode p" start] p leaf b(2) S by (simp add: below_same_shape [OF shape])
  have p_in: "p \<in> below h start" using below_parent [OF b] p by auto
  have start_prev: "blk_prev (rx_blocks ?d start) = blk_prev (rx_blocks h start)" using b(2) S by simp
  have not_parent: "blk_prev (rx_blocks h start) \<noteq> Some (BlockNode b)" using leaf_no_child [OF ok leaf] .
  have next_d: "node_next ?d n = (if n = BlockNode p then dict_del (blk_key (rx_blocks h b)) (node_next h n) else node_next h n)" for n
    using S by simp
  have roots: "rb_attached (rx_roots ?d r) = rb_attached (rx_roots h r)" "rb_key (rx_roots ?d r) = rb_key (rx_roots h r)" for r
    using S by simp_all
  note R = subtree_removedD [OF rest]
  have nexts: "node_next h' n = (if n \<in> BlockNode ` below h start then []
        else if blk_prev (rx_blocks h start) = Some n then dict_del (blk_key (rx_blocks h start)) (node_next h n)
        else node_next h n)" for n
  proof (cases "n = BlockNode b")
    case True
    have "node_next ?d (BlockNode b) = []" unfolding next_d using leaf by (auto split: if_splits)
    then show ?thesis using True R(5) [of n] b(1) not_parent start_prev by (auto simp: below simp del: detached_next)
  next
    case False
    then have "n \<in> BlockNode ` (below h start - {b}) \<longleftrightarrow> n \<in> BlockNode ` below h start" by auto
    moreover have "n = BlockNode p \<Longrightarrow> n \<in> BlockNode ` below h start" using p_in by simp
    ultimately show ?thesis using R(5) [of n] next_d [of n] start_prev S(1) by (simp add: below)
  qed
  have slots': "slot_page h' c l = (if c \<in> below h start then None else slot_page h c l)" for c l
    using R(6) [of c l] slots b(1) by (auto simp: below)
  have prevs: "blk_prev (rx_blocks h' c) = (if c \<in> below h start then None else blk_prev (rx_blocks h c))" for c
    using R(4) [of c] S b(1) by (auto simp: below)
  have att: "rb_attached (rx_roots h' r) \<longleftrightarrow> rb_attached (rx_roots h r)
        \<and> \<not> (blk_prev (rx_blocks h start) = Some (RootNode r) \<and> rb_next (rx_roots h' r) = [])" for r
    using R(8) [of r] roots start_prev by simp
  show ?thesis
    unfolding subtree_removed_def using R(1-3,7,9-13) S roots nexts slots' prevs att by simp
qed

lemma remove_step_leaf:
  assumes ok: "links_ok h" "pages_ok h" and leaf: "blk_next (rx_blocks h b) = []"
  shows "\<exists>h1. same_shape h h1 \<and> pages_ok h1 \<and> rx_events h1 = rx_events h
    \<and> (\<forall>c l. slot_page h1 c l = (if c = b then None else slot_page h c l))
    \<and> (\<forall>start removed. remove_step start h b removed = (case blk_prev (rx_blocks h b) of
          None \<Rightarrow> assertR (b = start) (Inr (Stop h1 (removed @ [blk_key (rx_blocks h b)])))
        | Some n \<Rightarrow> if b = start then Inr (Stop (detached h1 n b) (removed @ [blk_key (rx_blocks h b)]))
            else (case n of RootNode _ \<Rightarrow> Inl AssertionError
              | BlockNode p \<Rightarrow> Inr (Continue (detached h1 n b) p (removed @ [blk_key (rx_blocks h b)])))))"
proof -
  obtain h1 where h1: "release_pages h b = Inr h1" "same_shape h h1" "pages_ok h1" "rx_events h1 = rx_events h"
    "\<forall>c l. slot_page h1 c l = (if c = b then None else slot_page h c l)"
    using release_pages_spec [OF ok(2), of b] by (elim exE conjE)
  note S = same_shapeD [OF h1(2)]
  have det: "detach_next h1 n (blk_key (rx_blocks h b)) = Inr (detached h1 n b, Some b)"
    if "blk_prev (rx_blocks h b) = Some n" for n
    using detach_next_detached [of h1 b n] ok(1) links_ok_same_shape [OF h1(2)] that S by simp
  show ?thesis
    using h1(2-5) det by (intro exI [of _ h1]) (simp add: remove_step_def leaf h1(1) S Let_def split: option.splits node.splits)
qed

lemma remove_step_inner:
  assumes "blk_next (rx_blocks h b) = (k, c) # d"
  shows "remove_step start h b removed = Inr (Continue h c removed)"
  using assms by (simp add: remove_step_def)

lemma remove_loop_spec:
  assumes "links_ok h" and "pages_ok h" and "b \<in> below h start" and "\<forall>c\<in>below h start. blk_ordinal (rx_blocks h c) \<le> M"
  shows "\<exists>h' ids. remove_loop start h b removed = Some (Inr (h', removed @ map (\<lambda>c. blk_key (rx_blocks h c)) ids))
    \<and> subtree_removed h start h' \<and> links_ok h' \<and> pages_ok h' \<and> rx_events h' = rx_events h
    \<and> distinct ids \<and> set ids = below h start"
  using assms
proof (induction "(card (below h start), nat (M - blk_ordinal (rx_blocks h b)))" arbitrary: h b removed
    rule: wf_induct_rule [OF wf_lex_prod [OF wf_less_than wf_less_than]])
  case (1 h b removed)
  note ok = 1(2,3) and b = 1(4) and M = 1(5)
  show ?case
  proof (cases "blk_next (rx_blocks h b)")
    case (Cons e d)
    then obtain k c where e: "blk_next (rx_blocks h b) = (k, c) # d" by (cases e) auto
    then have c: "blk_prev (rx_blocks h c) = Some (BlockNode b)" using links_okD(2) [OF ok(1), of k c "BlockNode b"] by simp
    then have below: "c \<in> below h start" using below_step [OF b] by simp
    have "nat (M - blk_ordinal (rx_blocks h c)) < nat (M - blk_ordinal (rx_blocks h b))"
      using links_okD(5) [OF ok(1) c] M below by fastforce
    then have "((card (below h start), nat (M - blk_ordinal (rx_blocks h c))), card (below h start), nat (M - blk_ordinal (rx_blocks h b)))
      \<in> less_than <*lex*> less_than" by simp
    from 1(1) [OF this ok below M, of removed] show ?thesis
      by (subst remove_loop.simps) (simp add: remove_step_inner [OF e])
  next
    case leaf: Nil
    obtain h1 where h1: "same_shape h h1" "pages_ok h1" "rx_events h1 = rx_events h"
      "\<forall>c l. slot_page h1 c l = (if c = b then None else slot_page h c l)"
      and step: "\<forall>start removed. remove_step start h b removed = (case blk_prev (rx_blocks h b) of
          None \<Rightarrow> assertR (b = start) (Inr (Stop h1 (removed @ [blk_key (rx_blocks h b)])))
        | Some n \<Rightarrow> if b = start then Inr (Stop (detached h1 n b) (removed @ [blk_key (rx_blocks h b)]))
            else (case n of RootNode _ \<Rightarrow> Inl AssertionError
              | BlockNode p \<Rightarrow> Inr (Continue (detached h1 n b) p (removed @ [blk_key (rx_blocks h b)]))))"
      using remove_step_leaf [OF ok leaf] by (elim exE conjE)
    have ok1: "links_ok h1" using ok(1) links_ok_same_shape [OF h1(1)] by simp
    note S = same_shapeD [OF h1(1)]
    show ?thesis
    proof (cases "b = start")
      case True
      have all: "below h start = {start}" using below_leaf [OF ok(1) leaf] True by simp
      show ?thesis
      proof (cases "blk_prev (rx_blocks h b)")
        case None
        have "subtree_removed h start h1" using removed_orphan_leaf [OF ok(1) leaf None h1(1,4)] True by simp
        then show ?thesis
          using step None ok1 h1(2,3) True all
          by (intro exI [of _ h1] exI [of _ "[start]"]) (simp add: remove_loop.simps)
      next
        case (Some n)
        have "subtree_removed h start (detached h1 n b)" using removed_linked_leaf [OF ok(1) leaf Some h1(1,4)] True by simp
        moreover have "links_ok (detached h1 n b)" using links_ok_detached [OF ok1] Some S by simp
        ultimately show ?thesis
          using step Some h1(2,3) True all
          by (intro exI [of _ "detached h1 n b"] exI [of _ "[start]"]) (simp add: remove_loop.simps)
      qed
    next
      case False
      obtain p where p: "blk_prev (rx_blocks h b) = Some (BlockNode p)" "p \<in> below h start" using below_parent [OF b False] by auto
      let ?d = "detached h1 (BlockNode p) b"
      have below: "below ?d start = below h start - {b}"
        using below_detached [OF ok1, of b "BlockNode p" start] p leaf False S by (simp add: below_same_shape [OF h1(1)])
      have ok_d: "links_ok ?d" "pages_ok ?d" using links_ok_detached [OF ok1] p S h1(2) by simp_all
      have "p \<noteq> b" using links_okD(5) [OF ok(1) p(1)] by auto
      then have p_d: "p \<in> below ?d start" using p(2) below by simp
      have "card (below ?d start) < card (below h start)"
        unfolding below using b below_finite [OF ok(1)] by (intro card_Diff1_less)
      then have "((card (below ?d start), nat (M - blk_ordinal (rx_blocks ?d p))), card (below h start), nat (M - blk_ordinal (rx_blocks h b)))
        \<in> less_than <*lex*> less_than" by simp
      moreover have "\<forall>c\<in>below ?d start. blk_ordinal (rx_blocks ?d c) \<le> M" using M S below by simp
      ultimately obtain h' ids where h': "remove_loop start ?d p (removed @ [blk_key (rx_blocks h b)])
          = Some (Inr (h', (removed @ [blk_key (rx_blocks h b)]) @ map (\<lambda>c. blk_key (rx_blocks ?d c)) ids))"
        "subtree_removed ?d start h'" "links_ok h'" "pages_ok h'" "rx_events h' = rx_events ?d" "distinct ids" "set ids = below ?d start"
        using 1(1) [OF _ ok_d p_d, of "removed @ [blk_key (rx_blocks h b)]"] by blast
      have "subtree_removed h start h'" by (rule removed_step [OF ok(1) b False leaf h1(1,4) p(1) h'(2)])
      moreover have "remove_loop start h b removed = Some (Inr (h', removed @ map (\<lambda>c. blk_key (rx_blocks h c)) (b # ids)))"
        using h'(1) step p(1) False S(1) by (subst remove_loop.simps) simp
      moreover have "distinct (b # ids)" "set (b # ids) = below h start" using h'(6,7) below b by auto
      ultimately show ?thesis using h'(3-5) h1(3) by (intro exI [of _ h'] exI [of _ "b # ids"]) simp
    qed
  qed
qed

section \<open>Whole operations\<close>

lemma try_get_tree_returns:
  assumes "links_ok h"
  shows "\<exists>v. try_get_tree h n = Some v"
proof (induction "nat (node_ordinal h n + 1)" arbitrary: n rule: less_induct)
  case less
  show ?case
  proof (cases n)
    case (RootNode r)
    then show ?thesis by (simp add: try_get_tree.simps)
  next
    case (BlockNode b)
    show ?thesis
    proof (cases "blk_prev (rx_blocks h b)")
      case None
      then show ?thesis using BlockNode by (intro exI [of _ False]) (simp add: try_get_tree.simps)
    next
      case (Some m)
      have "nat (node_ordinal h m + 1) < nat (node_ordinal h n + 1)"
        using links_okD(5) [OF assms Some] links_okD(6) [OF assms, of b] BlockNode by simp
      then obtain v where "try_get_tree h m = Some v" using less by blast
      then show ?thesis using BlockNode Some by (subst try_get_tree.simps) simp
    qed
  qed
qed

lemma subtree_removed_add_event [simp]: "subtree_removed h b (add_event m e h') \<longleftrightarrow> subtree_removed h b h'"
proof -
  have "node_next (add_event m e h') n = node_next h' n" for n by (cases n) (simp_all add: add_event_def)
  moreover have "rx_blocks (add_event m e h') = rx_blocks h'" "rx_roots (add_event m e h') = rx_roots h'"
    "rx_num_blocks (add_event m e h') = rx_num_blocks h'" "rx_num_roots (add_event m e h') = rx_num_roots h'"
    "rx_tokens_per_block (add_event m e h') = rx_tokens_per_block h'" "rx_life_cycles (add_event m e h') = rx_life_cycles h'"
    "rx_event_manager (add_event m e h') = rx_event_manager h'"
    by (simp_all add: add_event_def)
  ultimately show ?thesis by (simp add: subtree_removed_def)
qed

lemma remove_subtree_spec:
  assumes ok: "links_ok h" "pages_ok h"
  shows "\<exists>h' ids in_tree. remove_subtree h b = Some (Inr h') \<and> try_get_tree h (BlockNode b) = Some in_tree
    \<and> subtree_removed h b h' \<and> links_ok h' \<and> pages_ok h' \<and> distinct ids \<and> set ids = below h b
    \<and> rx_events h' = rx_events h
        @ (if in_tree \<and> rx_event_manager h then [RemovedEvent (map (\<lambda>c. blk_key (rx_blocks h c)) ids)] else [])"
proof -
  obtain v where v: "try_get_tree h (BlockNode b) = Some v" using try_get_tree_returns [OF ok(1)] by blast
  define M where "M = Max (blk_ordinal ` rx_blocks h ` below h b)"
  have "\<forall>c\<in>below h b. blk_ordinal (rx_blocks h c) \<le> M"
    unfolding M_def using below_finite [OF ok(1)] by (intro ballI Max_ge) auto
  then obtain h' ids where h': "remove_loop b h b [] = Some (Inr (h', [] @ map (\<lambda>c. blk_key (rx_blocks h c)) ids))"
    "subtree_removed h b h'" "links_ok h'" "pages_ok h'" "rx_events h' = rx_events h" "distinct ids" "set ids = below h b"
    using remove_loop_spec [OF ok below_self, of b M "[]"] by (elim meta_impE exE conjE) auto
  let ?e = "RemovedEvent (map (\<lambda>c. blk_key (rx_blocks h c)) ids)"
  have "remove_subtree h b = Some (Inr (add_event (v \<and> rx_event_manager h) ?e h'))"
    using v h'(1) by (simp add: remove_subtree_def)
  moreover have "rx_events (add_event (v \<and> rx_event_manager h) ?e h') = rx_events h @ (if v \<and> rx_event_manager h then [?e] else [])"
    using h'(5) by (simp add: add_event_def)
  ultimately show ?thesis
    using v h'(2-4,6,7) by (intro exI [of _ "add_event (v \<and> rx_event_manager h) ?e h'"] exI [of _ ids] exI [of _ v]) simp
qed

section \<open>Clearing\<close>

lemma clear_root_spec:
  "links_ok h \<Longrightarrow> pages_ok h \<Longrightarrow>
     \<exists>h'. clear_root h r = Some (Inr h') \<and> links_ok h' \<and> pages_ok h' \<and> rb_next (rx_roots h' r) = []
       \<and> (rb_next (rx_roots h r) \<noteq> [] \<longrightarrow> \<not> rb_attached (rx_roots h' r))
       \<and> (\<forall>q. q \<noteq> r \<longrightarrow> rb_attached (rx_roots h' q) = rb_attached (rx_roots h q) \<and> rb_next (rx_roots h' q) = rb_next (rx_roots h q))
       \<and> (\<forall>q. rb_attached (rx_roots h' q) \<longrightarrow> rb_attached (rx_roots h q)) \<and> (\<forall>q. rb_key (rx_roots h' q) = rb_key (rx_roots h q))"
proof (induction "length (rb_next (rx_roots h r))" arbitrary: h rule: less_induct)
  case less
  note ok = less(2,3)
  show ?case
  proof (cases "rb_next (rx_roots h r)")
    case Nil
    then show ?thesis using ok by (intro exI [of _ h]) (simp add: clear_root.simps)
  next
    case (Cons e d)
    then obtain k b where e: "rb_next (rx_roots h r) = (k, b) # d" by (cases e) auto
    then have b: "blk_key (rx_blocks h b) = k" "blk_prev (rx_blocks h b) = Some (RootNode r)"
      using links_okD(2) [OF ok(1), of k b "RootNode r"] by simp_all
    obtain h1 where h1: "remove_subtree h b = Some (Inr h1)" "subtree_removed h b h1" "links_ok h1" "pages_ok h1"
      using remove_subtree_spec [OF ok, of b] by (elim exE conjE)
    note R = subtree_removedD [OF h1(2)]
    have roots: "rb_next (rx_roots h1 q) = (if q = r then d else rb_next (rx_roots h q))" for q
      using R(5) [of "RootNode q"] b e by auto
    have att: "rb_attached (rx_roots h1 q) \<longleftrightarrow> rb_attached (rx_roots h q) \<and> (q = r \<longrightarrow> d \<noteq> [])" for q
      using R(8) [of q] b(2) roots [of q] by auto
    have "length (rb_next (rx_roots h1 r)) < length (rb_next (rx_roots h r))" using roots e by simp
    from less(1) [OF this h1(3,4)]
    obtain h' where h': "clear_root h1 r = Some (Inr h')" "links_ok h'" "pages_ok h'" "rb_next (rx_roots h' r) = []"
      "rb_next (rx_roots h1 r) \<noteq> [] \<longrightarrow> \<not> rb_attached (rx_roots h' r)"
      "\<forall>q. q \<noteq> r \<longrightarrow> rb_attached (rx_roots h' q) = rb_attached (rx_roots h1 q) \<and> rb_next (rx_roots h' q) = rb_next (rx_roots h1 q)"
      "\<forall>q. rb_attached (rx_roots h' q) \<longrightarrow> rb_attached (rx_roots h1 q)" "\<forall>q. rb_key (rx_roots h' q) = rb_key (rx_roots h1 q)"
      by (elim exE conjE)
    have "clear_root h r = Some (Inr h')" using e h1(1) h'(1) by (subst clear_root.simps) simp
    moreover have "\<not> rb_attached (rx_roots h' r)" using h'(5,7) roots att by auto
    ultimately show ?thesis using h'(2-4,6-8) roots att R(7) by (intro exI [of _ h']) simp
  qed
qed

lemma clear_spec:
  "links_ok h \<Longrightarrow> pages_ok h \<Longrightarrow> \<forall>r. rb_attached (rx_roots h r) \<longrightarrow> rb_next (rx_roots h r) \<noteq> [] \<Longrightarrow>
     \<exists>h'. clear h = Some (Inr h') \<and> links_ok h' \<and> pages_ok h' \<and> rx_next h' = []"
proof (induction "card (set (rx_next h))" arbitrary: h rule: less_induct)
  case less
  note ok = less(2,3) and full = less(4)
  show ?case
  proof (cases "rx_next h")
    case Nil
    then show ?thesis using ok by (intro exI [of _ h]) (simp add: clear.simps)
  next
    case (Cons e d)
    then obtain k r where e: "rx_next h = (k, r) # d" by (cases e) auto
    then have r: "rb_attached (rx_roots h r)" "rb_key (rx_roots h r) = k" using links_okD(8) [OF ok(1), of k r] by simp_all
    obtain h1 where h1: "clear_root h r = Some (Inr h1)" "links_ok h1" "pages_ok h1" "rb_next (rx_roots h1 r) = []"
      "rb_next (rx_roots h r) \<noteq> [] \<longrightarrow> \<not> rb_attached (rx_roots h1 r)"
      "\<forall>q. q \<noteq> r \<longrightarrow> rb_attached (rx_roots h1 q) = rb_attached (rx_roots h q) \<and> rb_next (rx_roots h1 q) = rb_next (rx_roots h q)"
      "\<forall>q. rb_attached (rx_roots h1 q) \<longrightarrow> rb_attached (rx_roots h q)" "\<forall>q. rb_key (rx_roots h1 q) = rb_key (rx_roots h q)"
      using clear_root_spec [OF ok, of r] by (elim exE conjE)
    have not: "\<not> rb_attached (rx_roots h1 r)" using h1(5) full r(1) by simp
    have "set (rx_next h1) \<subset> set (rx_next h)"
    proof
      show "set (rx_next h1) \<subseteq> set (rx_next h)"
        using links_okD(8) [OF ok(1)] links_okD(8) [OF h1(2)] h1(7,8) by auto
      have "(k, r) \<notin> set (rx_next h1)" using links_okD(8) [OF h1(2)] not by simp
      then show "set (rx_next h1) \<noteq> set (rx_next h)" using e by auto
    qed
    then have "card (set (rx_next h1)) < card (set (rx_next h))" by (simp add: psubset_card_mono)
    moreover have "\<forall>q. rb_attached (rx_roots h1 q) \<longrightarrow> rb_next (rx_roots h1 q) \<noteq> []"
    proof (intro allI impI)
      fix q assume q: "rb_attached (rx_roots h1 q)"
      then have "q \<noteq> r" using not by auto
      then show "rb_next (rx_roots h1 q) \<noteq> []" using q h1(6) full by metis
    qed
    ultimately obtain h' where h': "clear h1 = Some (Inr h')" "links_ok h' \<and> pages_ok h' \<and> rx_next h' = []"
      using less(1) [OF _ h1(2,3)] by (elim meta_impE exE conjE) auto
    have "clear h = Some (Inr h')" using e h1(1) h'(1) by (subst clear.simps) simp
    then show ?thesis using h'(2) by blast
  qed
qed

text \<open>A chain of parents that reaches the tree goes through an attached root block.\<close>

lemma try_get_tree_True: "try_get_tree h n = Some v \<Longrightarrow> v \<longrightarrow> (\<exists>r. rb_attached (rx_roots h r))"
  by (erule try_get_tree.raw_induct [rotated]) (auto split: node.splits option.splits)

section \<open>An example\<close>

text \<open>One root block with a block of two tokens and a shorter block below it.\<close>

definition example_tree :: radix_tree where
  "example_tree = (let h = radix_tree_init \<lparr>lcr_list = [], lcr_id_dict = []\<rparr> 2 True in
     h\<lparr>rx_next := [([1], 0)], rx_num_roots := 1, rx_num_blocks := 2,
       rx_roots := (rx_roots h)(0 := \<lparr>rb_key = [1], rb_reuse_scope = [None, None], rb_attached = True, rb_next = [([2], 0)]\<rparr>),
       rx_blocks := (rx_blocks h)
         (0 := \<lparr>blk_key = [2], blk_tokens = [Tok 5, Tok 6], blk_ordinal = 0, blk_prev = Some (RootNode 0), blk_next = [([3], 1)], blk_storage = []\<rparr>,
          1 := \<lparr>blk_key = [3], blk_tokens = [Tok 7], blk_ordinal = 1, blk_prev = Some (BlockNode 0), blk_next = [], blk_storage = []\<rparr>)\<rparr>)"

lemma example_next:
  "node_next example_tree n = (if n = RootNode 0 then [([2], 0)] else if n = BlockNode 0 then [([3], 1)] else [])"
  by (cases n) (simp_all add: example_tree_def radix_tree_init_def Let_def)

lemma example_prev:
  "blk_prev (rx_blocks example_tree b) = (if b = 0 then Some (RootNode 0) else if b = 1 then Some (BlockNode 0) else None)"
  by (simp add: example_tree_def radix_tree_init_def Let_def)

lemma example_blocks:
  "blk_key (rx_blocks example_tree 0) = [2]" "blk_key (rx_blocks example_tree (Suc 0)) = [3]"
  "blk_ordinal (rx_blocks example_tree b) = (if b = 1 then 1 else 0)"
  "rx_num_blocks example_tree = 2" "rx_num_roots example_tree = 1" "rx_next example_tree = [([1], 0)]"
  "rb_key (rx_roots example_tree 0) = [1]" "rb_attached (rx_roots example_tree r) \<longleftrightarrow> r = 0" "rx_event_manager example_tree"
  by (simp_all add: example_tree_def radix_tree_init_def Let_def)

lemma example_links_ok: "links_ok example_tree"
proof (rule links_okI, goal_cases)
  case (6 k r)
  then show ?case by (auto simp: example_blocks)
next
  case (7 r)
  then show ?case using example_next [of "RootNode r"] by (simp add: example_blocks split: if_splits)
qed (auto simp: example_next example_prev example_blocks split: if_splits)

lemma example_pages_ok: "pages_ok example_tree"
  by (simp add: pages_ok_def slot_page_def example_tree_def radix_tree_init_def Let_def)

section \<open>Properties\<close>

text \<open>
  C13: \<open>remove_subtree\<close> returns on every well-formed store. It detaches exactly the blocks below the given block,
  empties their page slots, and leaves every other block, slot and dictionary as it was, except that the parent
  loses its entry and a root block left without children leaves the tree. The store stays well-formed, and one event
  with the key of every removed block is sent when the block hangs in a tree that has an event manager.
\<close>

theorem remove_subtree_exact:
  assumes "links_ok h" and "pages_ok h"
  shows "\<exists>h' ids in_tree. remove_subtree h b = Some (Inr h') \<and> try_get_tree h (BlockNode b) = Some in_tree
    \<and> subtree_removed h b h' \<and> links_ok h' \<and> pages_ok h' \<and> distinct ids \<and> set ids = below h b
    \<and> rx_events h' = rx_events h
        @ (if in_tree \<and> rx_event_manager h then [RemovedEvent (map (\<lambda>c. blk_key (rx_blocks h c)) ids)] else [])"
  by (rule remove_subtree_spec [OF assms])

theorem remove_subtree_exact_witness:
  "\<exists>h' ids in_tree. remove_subtree example_tree 0 = Some (Inr h') \<and> try_get_tree example_tree (BlockNode 0) = Some in_tree
    \<and> subtree_removed example_tree 0 h' \<and> links_ok h' \<and> pages_ok h' \<and> distinct ids \<and> set ids = below example_tree 0
    \<and> rx_events h' = rx_events example_tree
        @ (if in_tree \<and> rx_event_manager example_tree then [RemovedEvent (map (\<lambda>c. blk_key (rx_blocks example_tree c)) ids)] else [])"
  by (rule remove_subtree_exact [OF example_links_ok example_pages_ok])

text \<open>
  C30: \<open>clear\<close> returns when every attached root block has a child. It leaves the tree empty and the store
  well-formed, and no block hangs in the tree any more.
\<close>

theorem clear_empties:
  assumes "links_ok h" and "pages_ok h" and "\<forall>r. rb_attached (rx_roots h r) \<longrightarrow> rb_next (rx_roots h r) \<noteq> []"
  shows "\<exists>h'. clear h = Some (Inr h') \<and> links_ok h' \<and> pages_ok h' \<and> rx_next h' = []
    \<and> (\<forall>b. try_get_tree h' (BlockNode b) = Some False)"
proof -
  obtain h' where h': "clear h = Some (Inr h')" "links_ok h'" "pages_ok h'" "rx_next h' = []"
    using clear_spec [OF assms] by (elim exE conjE)
  have none: "\<not> rb_attached (rx_roots h' r)" for r using links_okD(8) [OF h'(2)] h'(4) by force
  have "try_get_tree h' (BlockNode b) = Some False" for b
  proof -
    obtain v where v: "try_get_tree h' (BlockNode b) = Some v" using try_get_tree_returns [OF h'(2)] by blast
    then show ?thesis using try_get_tree_True [OF v] none by simp
  qed
  then show ?thesis using h' by blast
qed

theorem clear_empties_witness:
  "rx_next example_tree \<noteq> [] \<and> (\<exists>h'. clear example_tree = Some (Inr h') \<and> links_ok h' \<and> pages_ok h' \<and> rx_next h' = []
    \<and> (\<forall>b. try_get_tree h' (BlockNode b) = Some False))"
proof -
  have "\<forall>r. rb_attached (rx_roots example_tree r) \<longrightarrow> rb_next (rx_roots example_tree r) \<noteq> []"
    using example_next [of "RootNode 0"] by (simp add: example_blocks)
  then show ?thesis using clear_empties [OF example_links_ok example_pages_ok] by (simp add: example_blocks)
qed

text \<open>
  C39: \<open>clear\<close> never returns when the first root block of the tree has no children: the outer loop waits for the root
  to leave the tree, and the inner loop has nothing to remove.
\<close>

theorem clear_stuck_on_empty_root: "rx_next h = (k, r) # d \<and> rb_next (rx_roots h r) = [] \<longrightarrow> clear h = None"
proof (rule impI, rule ccontr)
  assume stuck: "rx_next h = (k, r) # d \<and> rb_next (rx_roots h r) = []" and "clear h \<noteq> None"
  then obtain y where "clear h = Some y" by auto
  then have "\<not> (rx_next h = (k, r) # d \<and> rb_next (rx_roots h r) = [])"
    by (rule clear.raw_induct [rotated]) (auto simp: clear_root.simps split: list.splits)
  then show False using stuck by contradiction
qed

theorem clear_stuck_on_empty_root_witness:
  "\<exists>h. add_or_get_existing pad_hash (radix_tree_init \<lparr>lcr_list = [], lcr_id_dict = []\<rparr> 2 True) [None, None] = Inr (h, 0) \<and> clear h = None"
proof -
  obtain b where b: "reuse_scope_to_bytes [None, None] = Inr b" using reuse_scope_defined [of "[None, None]"] by auto
  then have key: "root_key pad_hash [None, None] = Inr (hasher_digest pad_hash (hasher_update_bytes [] b))"
    by (simp add: root_key_def)
  then obtain h where h: "add_or_get_existing pad_hash (radix_tree_init \<lparr>lcr_list = [], lcr_id_dict = []\<rparr> 2 True) [None, None] = Inr (h, 0)"
    and "\<exists>k. rx_next h = [(k, 0)] \<and> rb_next (rx_roots h 0) = []"
    by (simp add: add_or_get_existing_def add_root_def radix_tree_init_def)
  then show ?thesis using clear_stuck_on_empty_root by blast
qed

end
