(* ===== verification/KV_Radix_Add.thy ===== *)
theory KV_Radix_Add
  imports KV_Radix_Remove
begin

text \<open>
  Adding blocks to the radix tree: \<open>Block.__init__\<close> either names a child that already covers the tokens or
  links a new block, which takes over the pages of the shorter sibling it replaces. Every addition keeps the store
  well-formed.
\<close>

section \<open>Contents of the tree\<close>

text \<open>
  The key of a child is the hash of the key of its parent and of its tokens; a block with children is full; no child
  begins with all the tokens of a sibling.
\<close>

definition tokens_ok :: "bool \<Rightarrow> (byte list \<Rightarrow> byte list) \<Rightarrow> radix_tree \<Rightarrow> bool" where
  "tokens_ok ndebug H h \<longleftrightarrow>
     (\<forall>n k c. (k, c) \<in> set (node_next h n) \<longrightarrow>
        block_key ndebug H (node_key h n) (blk_tokens (rx_blocks h c)) = Inr k
      \<and> blk_tokens (rx_blocks h c) \<noteq> [] \<and> length (blk_tokens (rx_blocks h c)) \<le> rx_tokens_per_block h)
   \<and> (\<forall>b. blk_next (rx_blocks h b) \<noteq> [] \<longrightarrow> length (blk_tokens (rx_blocks h b)) = rx_tokens_per_block h)
   \<and> (\<forall>n k c k' c'. (k, c) \<in> set (node_next h n) \<longrightarrow> (k', c') \<in> set (node_next h n) \<longrightarrow>
        covers (blk_tokens (rx_blocks h c)) (blk_tokens (rx_blocks h c')) \<longrightarrow> c = c')"

text \<open>Blocks have one slot per life cycle; objects that have not been created are blank.\<close>

definition alloc_ok :: "radix_tree \<Rightarrow> bool" where
  "alloc_ok h \<longleftrightarrow> registry_size (rx_life_cycles h) = Inr (length (lcr_list (rx_life_cycles h)))
   \<and> (\<forall>b < rx_num_blocks h. length (blk_storage (rx_blocks h b)) = length (lcr_list (rx_life_cycles h)))
   \<and> (\<forall>b \<ge> rx_num_blocks h. blk_next (rx_blocks h b) = [] \<and> blk_storage (rx_blocks h b) = [])"

definition tree_ok :: "bool \<Rightarrow> (byte list \<Rightarrow> byte list) \<Rightarrow> radix_tree \<Rightarrow> bool" where
  "tree_ok ndebug H h \<longleftrightarrow> links_ok h \<and> pages_ok h \<and> tokens_ok ndebug H h \<and> alloc_ok h"

lemma tokens_okD:
  assumes "tokens_ok ndebug H h"
  shows "(k, c) \<in> set (node_next h n) \<Longrightarrow> block_key ndebug H (node_key h n) (blk_tokens (rx_blocks h c)) = Inr k"
    and "(k, c) \<in> set (node_next h n) \<Longrightarrow> blk_tokens (rx_blocks h c) \<noteq> []"
    and "(k, c) \<in> set (node_next h n) \<Longrightarrow> length (blk_tokens (rx_blocks h c)) \<le> rx_tokens_per_block h"
    and "blk_next (rx_blocks h b) \<noteq> [] \<Longrightarrow> length (blk_tokens (rx_blocks h b)) = rx_tokens_per_block h"
    and "(k, c) \<in> set (node_next h n) \<Longrightarrow> (k', c') \<in> set (node_next h n) \<Longrightarrow>
      covers (blk_tokens (rx_blocks h c)) (blk_tokens (rx_blocks h c')) \<Longrightarrow> c = c'"
  using assms unfolding tokens_ok_def by blast+

lemma alloc_okD:
  assumes "alloc_ok h"
  shows "registry_size (rx_life_cycles h) = Inr (length (lcr_list (rx_life_cycles h)))"
    and "b < rx_num_blocks h \<Longrightarrow> length (blk_storage (rx_blocks h b)) = length (lcr_list (rx_life_cycles h))"
    and "rx_num_blocks h \<le> b \<Longrightarrow> blk_next (rx_blocks h b) = []"
    and "rx_num_blocks h \<le> b \<Longrightarrow> blk_storage (rx_blocks h b) = []"
  using assms unfolding alloc_ok_def by blast+

lemma tree_ok_init:
  assumes "registry_ok r" shows "tree_ok ndebug H (radix_tree_init r tpb em)"
proof -
  have next_init: "node_next (radix_tree_init r tpb em) n = []" for n by (cases n) (simp_all add: radix_tree_init_def)
  have "links_ok (radix_tree_init r tpb em)"
    by (rule links_okI) (use next_init in \<open>simp_all add: radix_tree_init_def\<close>)
  moreover have "registry_size r = Inr (length (lcr_list r))"
    using assms by (simp add: registry_size_def registry_ok_def)
  ultimately show ?thesis
    by (simp add: tree_ok_def tokens_ok_def alloc_ok_def next_init pages_ok_def slot_page_def)
      (simp add: radix_tree_init_def)
qed

section \<open>Covering\<close>

lemma covers_refl [simp]: "covers xs xs"
  by (simp add: covers_def)

lemma covers_length: "covers xs ys \<Longrightarrow> length ys \<le> length xs"
  unfolding covers_def by (metis length_take min.cobounded1 min.absorb_iff2 nle_le)

lemma covers_prefixes: "covers xs ys \<Longrightarrow> covers xs zs \<Longrightarrow> length ys \<le> length zs \<Longrightarrow> covers zs ys"
  unfolding covers_def by (metis min.absorb1 take_take)

lemma covers_same_length: "covers xs ys \<Longrightarrow> length xs \<le> length ys \<Longrightarrow> xs = ys"
  by (simp add: covers_def)

lemma covers_trans: "covers xs ys \<Longrightarrow> covers ys zs \<Longrightarrow> covers xs zs"
  using covers_length [of ys zs] unfolding covers_def by (metis min.absorb2 min.commute take_take)

section \<open>Linking a new child\<close>

definition linked :: "radix_tree \<Rightarrow> node \<Rightarrow> key_bytes \<Rightarrow> token_id_ext list \<Rightarrow> nat \<Rightarrow> radix_tree" where
  "linked h n key tokens L =
     (let h0 = new_block key tokens n (node_ordinal h n + 1) L h
      in set_node_next n (dict_set key (rx_num_blocks h) (node_next h0 n)) h0)"

lemma linked_block [simp]:
  "blk_key (rx_blocks (linked h n key tokens L) c) = (if c = rx_num_blocks h then key else blk_key (rx_blocks h c))"
  "blk_tokens (rx_blocks (linked h n key tokens L) c) = (if c = rx_num_blocks h then tokens else blk_tokens (rx_blocks h c))"
  "blk_ordinal (rx_blocks (linked h n key tokens L) c) = (if c = rx_num_blocks h then node_ordinal h n + 1 else blk_ordinal (rx_blocks h c))"
  "blk_prev (rx_blocks (linked h n key tokens L) c) = (if c = rx_num_blocks h then Some n else blk_prev (rx_blocks h c))"
  "blk_storage (rx_blocks (linked h n key tokens L) c) = (if c = rx_num_blocks h then replicate L None else blk_storage (rx_blocks h c))"
  by (cases n; simp add: linked_def new_block_def Let_def set_block_def set_root_def)+

lemma linked_fields [simp]:
  "rx_num_blocks (linked h n key tokens L) = rx_num_blocks h + 1"
  "rx_num_roots (linked h n key tokens L) = rx_num_roots h"
  "rx_pages (linked h n key tokens L) = rx_pages h"
  "rx_tokens_per_block (linked h n key tokens L) = rx_tokens_per_block h"
  "rx_life_cycles (linked h n key tokens L) = rx_life_cycles h"
  "rx_event_manager (linked h n key tokens L) = rx_event_manager h"
  "rx_next (linked h n key tokens L) = rx_next h"
  "rx_events (linked h n key tokens L) = rx_events h"
  "rb_key (rx_roots (linked h n key tokens L) r) = rb_key (rx_roots h r)"
  "rb_attached (rx_roots (linked h n key tokens L) r) = rb_attached (rx_roots h r)"
  by (cases n; simp add: linked_def new_block_def Let_def set_block_def set_root_def)+

lemma linked_next:
  assumes "n \<noteq> BlockNode (rx_num_blocks h)" and "map_of (node_next h n) key = None"
  shows "node_next (linked h n key tokens L) m = (if m = n then node_next h n @ [(key, rx_num_blocks h)]
    else if m = BlockNode (rx_num_blocks h) then [] else node_next h m)"
proof -
  have "key \<notin> fst ` set (node_next h n)" using assms(2) by (simp add: map_of_eq_None_iff)
  then have "dict_set key (rx_num_blocks h) (node_next h n) = node_next h n @ [(key, rx_num_blocks h)]" by (rule dict_set_new)
  then show ?thesis
    using assms(1) by (cases n; cases m; simp add: linked_def new_block_def Let_def set_block_def set_root_def)
qed

lemma linked_node:
  assumes "m \<noteq> BlockNode (rx_num_blocks h)"
  shows "node_key (linked h n key tokens L) m = node_key h m" "node_ordinal (linked h n key tokens L) m = node_ordinal h m"
  using assms by (cases m; simp)+

lemma links_ok_linked:
  assumes ok: "links_ok h" "alloc_ok h" and n: "n \<noteq> BlockNode (rx_num_blocks h)" "-1 \<le> node_ordinal h n"
    and key: "map_of (node_next h n) key = None" and att: "\<And>r. n = RootNode r \<Longrightarrow> rb_attached (rx_roots h r)"
  shows "links_ok (linked h n key tokens L)"
proof -
  let ?h = "linked h n key tokens L" and ?b = "rx_num_blocks h"
  note D = links_okD [OF ok(1)] and nexts = linked_next [OF n(1) key, of tokens L]
  have child: "c \<noteq> ?b" if "(k, c) \<in> set (node_next h m)" for k c m
    using D(2) [OF that] D(4) [of c m] by auto
  have no_b: "blk_prev (rx_blocks h c) \<noteq> Some (BlockNode ?b)" for c
    using D(3) [of c "BlockNode ?b"] alloc_okD(3) [OF ok(2), of ?b] by auto
  show ?thesis
  proof (rule links_okI, goal_cases)
    case (1 m)
    then show ?case using D(1) [of m] D(1) [of n] key by (auto simp: nexts map_of_eq_None_iff)
  next
    case (2 m k c)
    then have "(m = n \<and> k = key \<and> c = ?b) \<or> (k, c) \<in> set (node_next h m)" by (auto simp: nexts split: if_splits)
    then show ?case using D(2) [of k c m] child [of k c m] by auto
  next
    case (3 c m)
    show ?case
    proof (cases "c = ?b")
      case True
      have m: "m = n" using 3 True by simp
      show ?thesis unfolding m using True nexts [of n] n(1) by (simp add: linked_node)
    next
      case False
      then have p: "blk_prev (rx_blocks h c) = Some m" using 3 by simp
      then have m: "m \<noteq> BlockNode ?b" using no_b by auto
      then show ?thesis using D(3,4,5) [OF p] False by (auto simp: nexts linked_node)
    qed
  next
    case (4 b)
    then show ?case using D(6) n(2) by simp
  next
    case (7 r)
    then show ?case using att D(9) [of r] nexts [of "RootNode r"] by (cases "n = RootNode r") auto
  qed (use D(7,8,10) in simp_all)
qed

section \<open>Taking over pages\<close>

definition moved_slots :: "radix_tree \<Rightarrow> nat \<Rightarrow> nat \<Rightarrow> nat set \<Rightarrow> radix_tree \<Rightarrow> bool" where
  "moved_slots h b other lcs h' \<longleftrightarrow> same_shape h h' \<and> pages_ok h' \<and> rx_events h' = rx_events h
     \<and> (\<forall>p. cp_num_tokens_in_block (rx_pages h' p) = cp_num_tokens_in_block (rx_pages h p))
     \<and> (\<forall>c l. slot_page h' c l = (if l \<in> lcs then if c = b then slot_page h other l else if c = other then None else slot_page h c l
            else slot_page h c l))"

lemma replace_page_empty:
  assumes "lc < length (blk_storage (rx_blocks h b))" and "slot_page h b lc = None"
  shows "replace_page ndebug h b lc p = Inr (set_page_slot b lc (Some p) (set_page p (\<lambda>x. x\<lparr>cp_block := Some b\<rparr>) h))"
  using assms by (simp add: replace_page_def can_replace_page_def unlink_page_None)

lemma adopt_loop_empty:
  "\<lbrakk>pages_ok h; b \<noteq> other; distinct lcs;
    \<forall>lc\<in>set lcs. lc < length (blk_storage (rx_blocks h b)) \<and> lc < length (blk_storage (rx_blocks h other)) \<and> slot_page h b lc = None\<rbrakk>
   \<Longrightarrow> \<exists>h'. adopt_loop ndebug h b other lcs = Inr h' \<and> moved_slots h b other (set lcs) h'"
proof (induction lcs arbitrary: h)
  case Nil
  then show ?case by (simp add: moved_slots_def)
next
  case (Cons lc lcs)
  have lt: "lc < length (blk_storage (rx_blocks h b))" "lc < length (blk_storage (rx_blocks h other))" and empty: "slot_page h b lc = None"
    using Cons.prems(4) by auto
  show ?case
  proof (cases "slot_page h other lc")
    case None
    have run: "adopt_loop ndebug h b other (lc # lcs) = adopt_loop ndebug h b other lcs" using lt None by simp
    obtain h' where h': "adopt_loop ndebug h b other lcs = Inr h'" "moved_slots h b other (set lcs) h'"
      using Cons.IH [OF Cons.prems(1,2)] Cons.prems(3,4) by auto
    have "moved_slots h b other (set (lc # lcs)) h'" using h'(2) None empty unfolding moved_slots_def by auto
    then show ?thesis unfolding run using h'(1) by blast
  next
    case (Some p)
    define h1 where "h1 = set_page_slot other lc None h"
    define h2 where "h2 = set_page_slot b lc (Some p) (set_page p (\<lambda>x. x\<lparr>cp_block := Some b\<rparr>) h1)"
    have h1: "same_shape h h1" "slot_page h1 c l = (if c = other \<and> l = lc then None else slot_page h c l)" for c l
      using lt by (simp_all add: h1_def slot_page_set_page_slot)
    have lt1: "lc < length (blk_storage (rx_blocks h1 b))" using lt same_shapeD(6) [OF h1(1)] by simp
    have "replace_page ndebug h1 b lc p = Inr h2"
      unfolding h2_def using lt1 empty Cons.prems(2) h1(2) by (intro replace_page_empty) simp_all
    then have run: "adopt_loop ndebug h b other (lc # lcs) = adopt_loop ndebug h2 b other lcs"
      using lt Some empty by (simp add: can_replace_page_def h1_def)
    have h2: "same_shape h h2" "slot_page h2 c l = (if l = lc \<and> c = b then Some p else if l = lc \<and> c = other then None else slot_page h c l)"
      "rx_events h2 = rx_events h" "cp_num_tokens_in_block (rx_pages h2 q) = cp_num_tokens_in_block (rx_pages h q)" for c l q
      using h1 lt1 by (auto simp: h2_def slot_page_set_page_slot)
        (simp_all add: h1_def set_page_slot_def set_block_def set_page_def)
    have "cp_life_cycle (rx_pages h p) = lc" using pages_okD [OF Cons.prems(1), of other lc p] Some by simp
    then have ok2: "pages_ok h2"
      unfolding h2_def using pages_ok_take_out [OF Cons.prems(1) Some] lt1 h1(2) empty Cons.prems(2)
      by (intro pages_ok_install) (simp_all add: h1_def)
    have pre: "\<forall>l\<in>set lcs. l < length (blk_storage (rx_blocks h2 b)) \<and> l < length (blk_storage (rx_blocks h2 other)) \<and> slot_page h2 b l = None"
      using Cons.prems(3,4) same_shapeD(6) [OF h2(1)] h2(2) by auto
    have "distinct lcs" using Cons.prems(3) by simp
    from Cons.IH [OF ok2 Cons.prems(2) this pre]
    obtain h' where h': "adopt_loop ndebug h2 b other lcs = Inr h'" "moved_slots h2 b other (set lcs) h'" by (elim exE conjE)
    have lc: "lc \<notin> set lcs" using Cons.prems(3) by simp
    have "slot_page h' c l = (if l \<in> set (lc # lcs) then if c = b then slot_page h other l else if c = other then None else slot_page h c l
            else slot_page h c l)" for c l
      using h'(2) h2(2) Some lc Cons.prems(2) unfolding moved_slots_def by (cases "l = lc") simp_all
    then have "moved_slots h b other (set (lc # lcs)) h'"
      using h'(2) h2(1,3,4) same_shape_trans [of h h2 h'] unfolding moved_slots_def by simp
    then show ?thesis unfolding run using h'(1) by blast
  qed
qed

lemma adopt_pages_empty:
  assumes "pages_ok h" and "b \<noteq> other" and "blk_ordinal (rx_blocks h other) = blk_ordinal (rx_blocks h b)"
    and "blk_storage (rx_blocks h b) = replicate L None" and "length (blk_storage (rx_blocks h other)) = L"
  shows "\<exists>h'. adopt_pages_from ndebug h b other = Inr h' \<and> moved_slots h b other {..<L} h'"
proof -
  have "\<forall>lc\<in>set [0..<L]. lc < length (blk_storage (rx_blocks h b)) \<and> lc < length (blk_storage (rx_blocks h other)) \<and> slot_page h b lc = None"
    using assms(4,5) by (simp add: slot_page_def)
  from adopt_loop_empty [OF assms(1,2) distinct_upt this, of ndebug]
  show ?thesis using assms(3,4) by (simp add: adopt_pages_from_def atLeast0LessThan)
qed

section \<open>Where a block may be added\<close>

text \<open>A node that hangs in the tree and, if it is a block, is full.\<close>

definition open_node :: "radix_tree \<Rightarrow> node \<Rightarrow> bool" where
  "open_node h n \<longleftrightarrow> try_get_tree h n = Some True
     \<and> (case n of RootNode _ \<Rightarrow> True | BlockNode b \<Rightarrow> length (blk_tokens (rx_blocks h b)) = rx_tokens_per_block h)"

lemma try_get_tree_root: "try_get_tree h (RootNode r) = Some True \<longleftrightarrow> rb_attached (rx_roots h r)"
  by (simp add: try_get_tree.simps)

lemma try_get_tree_block:
  "try_get_tree h (BlockNode b) = Some True \<longleftrightarrow> (\<exists>m. blk_prev (rx_blocks h b) = Some m \<and> try_get_tree h m = Some True)"
  by (subst try_get_tree.simps) (simp split: option.splits)

lemma parent_tokens_per_block:
  assumes "links_ok h" "tokens_ok ndebug H h" and "blk_prev (rx_blocks h b) = Some m" and "try_get_tree h m = Some True"
  shows "child_tokens_per_block h m = Inr (rx_tokens_per_block h)"
proof (cases m)
  case (RootNode r)
  then show ?thesis using assms(4) by (simp add: try_get_tree_root root_tokens_per_block_def)
next
  case (BlockNode c)
  then have "blk_next (rx_blocks h c) \<noteq> []" using links_okD(3) [OF assms(1,3)] by auto
  then show ?thesis using tokens_okD(4) [OF assms(2)] BlockNode by simp
qed

lemma in_tree_tokens_per_block:
  assumes "links_ok h" "tokens_ok ndebug H h" and "try_get_tree h n = Some True"
  shows "node_tokens_per_block h n = Inr (rx_tokens_per_block h)"
proof (cases n)
  case (RootNode r)
  then show ?thesis using assms(3) by (simp add: try_get_tree_root root_tokens_per_block_def)
next
  case (BlockNode b)
  then obtain m where "blk_prev (rx_blocks h b) = Some m" "try_get_tree h m = Some True"
    using assms(3) by (auto simp: try_get_tree_block)
  then show ?thesis
    using BlockNode parent_tokens_per_block [OF assms(1,2)] by (simp add: block_tokens_per_block_def block_prev_def)
qed

lemma in_tree_attributes:
  assumes ok: "links_ok h" "tokens_ok ndebug H h" "alloc_ok h" and tree: "try_get_tree h n = Some True"
  shows "node_tokens_per_block h n = Inr (rx_tokens_per_block h)"
    and "prev_tokens_per_block h n = Inr (rx_tokens_per_block h)"
    and "node_num_life_cycles h n = Inr (length (lcr_list (rx_life_cycles h)))"
    and "n \<noteq> BlockNode (rx_num_blocks h)" and "-1 \<le> node_ordinal h n"
    and "\<And>r. n = RootNode r \<Longrightarrow> rb_attached (rx_roots h r)"
proof -
  show "node_tokens_per_block h n = Inr (rx_tokens_per_block h)" by (rule in_tree_tokens_per_block [OF ok(1,2) tree])
  show "rb_attached (rx_roots h r)" if "n = RootNode r" for r using tree that by (simp add: try_get_tree_root)
  show "prev_tokens_per_block h n = Inr (rx_tokens_per_block h)"
  proof (cases n)
    case (RootNode r)
    then show ?thesis using tree by (simp add: try_get_tree_root root_tokens_per_block_def)
  next
    case (BlockNode b)
    then obtain m where "blk_prev (rx_blocks h b) = Some m" "try_get_tree h m = Some True"
      using tree by (auto simp: try_get_tree_block)
    then show ?thesis using BlockNode in_tree_tokens_per_block [OF ok(1,2)] by (simp add: block_prev_def)
  qed
  have lt: "b < rx_num_blocks h" if "n = BlockNode b" for b
    using tree that links_okD(4) [OF ok(1)] by (auto simp: try_get_tree_block)
  then show "n \<noteq> BlockNode (rx_num_blocks h)" by blast
  show "node_num_life_cycles h n = Inr (length (lcr_list (rx_life_cycles h)))"
    using tree lt alloc_okD [OF ok(3)] by (cases n) (simp_all add: try_get_tree_root)
  show "-1 \<le> node_ordinal h n" using links_okD(6) [OF ok(1)] by (cases n) (auto intro: order_trans [of _ 0])
qed

lemma open_node_attributes:
  assumes ok: "links_ok h" "tokens_ok ndebug H h" "alloc_ok h" and n: "open_node h n"
  shows "node_tokens_per_block h n = Inr (rx_tokens_per_block h)"
    and "prev_tokens_per_block h n = Inr (rx_tokens_per_block h)"
    and "child_tokens_per_block h n = Inr (rx_tokens_per_block h)"
    and "node_num_life_cycles h n = Inr (length (lcr_list (rx_life_cycles h)))"
    and "n \<noteq> BlockNode (rx_num_blocks h)" and "-1 \<le> node_ordinal h n"
    and "\<And>r. n = RootNode r \<Longrightarrow> rb_attached (rx_roots h r)"
proof -
  have tree: "try_get_tree h n = Some True" using n by (simp add: open_node_def)
  show "child_tokens_per_block h n = Inr (rx_tokens_per_block h)"
    using n tree by (cases n) (simp_all add: open_node_def try_get_tree_root root_tokens_per_block_def)
qed (use in_tree_attributes [OF ok] n in \<open>simp_all add: open_node_def\<close>)

section \<open>The siblings a block replaces\<close>

lemma covered_siblings_filter:
  assumes "\<forall>(k, b) \<in> set d. is_full h b = Inr (length (blk_tokens (rx_blocks h b)) = tpb) \<and> blk_key (rx_blocks h b) = k
      \<and> (length (blk_tokens (rx_blocks h b)) < tpb \<longrightarrow> blk_next (rx_blocks h b) = [])"
    and "length tokens \<le> tpb"
  shows "covered_siblings ndebug h tokens d
    = Inr (map fst (filter (\<lambda>(k, b). length (blk_tokens (rx_blocks h b)) < length tokens \<and> covers tokens (blk_tokens (rx_blocks h b))) d))"
  using assms
proof (induction d)
  case (Cons e d)
  obtain k b where e: "e = (k, b)" by (cases e) auto
  have IH: "covered_siblings ndebug h tokens d
    = Inr (map fst (filter (\<lambda>(k, b). length (blk_tokens (rx_blocks h b)) < length tokens \<and> covers tokens (blk_tokens (rx_blocks h b))) d))"
    using Cons by simp
  have "is_full h b = Inr (length (blk_tokens (rx_blocks h b)) = tpb)" "blk_key (rx_blocks h b) = k"
    "length (blk_tokens (rx_blocks h b)) < tpb \<Longrightarrow> blk_next (rx_blocks h b) = []"
    using Cons.prems(1) e by auto
  then show ?case using e Cons.prems(2) IH by (simp add: Let_def)
qed simp

lemma children_is_full:
  assumes "links_ok h" "tokens_ok ndebug H h" and "child_tokens_per_block h n = Inr (rx_tokens_per_block h)"
    and "(k, b) \<in> set (node_next h n)"
  shows "is_full h b = Inr (length (blk_tokens (rx_blocks h b)) = rx_tokens_per_block h) \<and> blk_key (rx_blocks h b) = k
      \<and> (length (blk_tokens (rx_blocks h b)) < rx_tokens_per_block h \<longrightarrow> blk_next (rx_blocks h b) = [])"
proof -
  have b: "blk_key (rx_blocks h b) = k" "blk_prev (rx_blocks h b) = Some n" using links_okD(2) [OF assms(1,4)] by simp_all
  then have "is_full h b = Inr (length (blk_tokens (rx_blocks h b)) = rx_tokens_per_block h)"
    using assms(3) by (simp add: is_full_def block_tokens_per_block_def block_prev_def)
  moreover have "length (blk_tokens (rx_blocks h b)) < rx_tokens_per_block h \<longrightarrow> blk_next (rx_blocks h b) = []"
    using tokens_okD(4) [OF assms(2), of b] by (cases "blk_next (rx_blocks h b) = []") auto
  ultimately show ?thesis using b(1) by simp
qed

lemma distinct_filter_singleton:
  assumes "distinct xs" and "\<And>x y. x \<in> set xs \<Longrightarrow> y \<in> set xs \<Longrightarrow> P x \<Longrightarrow> P y \<Longrightarrow> x = y"
  shows "filter P xs = [] \<or> (\<exists>x. filter P xs = [x])"
proof (cases "filter P xs")
  case (Cons x ys)
  have "y = x" if "y \<in> set ys" for y
  proof -
    have "y \<in> set (filter P xs)" "x \<in> set (filter P xs)" using Cons that by auto
    then show ?thesis using assms(2) by auto
  qed
  moreover have "distinct (x # ys)" using assms(1) Cons by (metis distinct_filter)
  ultimately have "ys = []" by (cases ys) auto
  then show ?thesis using Cons by simp
qed simp

text \<open>At most one sibling is covered: two would cover one another.\<close>

lemma covered_at_most_one:
  assumes "links_ok h" "tokens_ok ndebug H h"
  shows "filter (\<lambda>(k, b). covers tokens (blk_tokens (rx_blocks h b))) (node_next h n) = []
    \<or> (\<exists>k c. filter (\<lambda>(k, b). covers tokens (blk_tokens (rx_blocks h b))) (node_next h n) = [(k, c)])"
proof -
  let ?P = "\<lambda>(k, b). covers tokens (blk_tokens (rx_blocks h b))"
  have "x = y" if "x \<in> set (node_next h n)" "y \<in> set (node_next h n)" "?P x" "?P y" for x y
  proof -
    obtain k c k' c' where xy: "x = (k, c)" "y = (k', c')" by (cases x; cases y) auto
    have "c = c'"
      using covers_prefixes [of tokens "blk_tokens (rx_blocks h c)" "blk_tokens (rx_blocks h c')"]
        covers_prefixes [of tokens "blk_tokens (rx_blocks h c')" "blk_tokens (rx_blocks h c)"] that xy
        tokens_okD(5) [OF assms(2), of k c n k' c'] tokens_okD(5) [OF assms(2), of k' c' n k c] nle_le by auto
    then show ?thesis using links_okD(2) [OF assms(1), of k c n] links_okD(2) [OF assms(1), of k' c' n] that xy by simp
  qed
  moreover have "distinct (node_next h n)" using links_okD(1) [OF assms(1), of n] by (simp add: distinct_map)
  ultimately show ?thesis using distinct_filter_singleton [of "node_next h n" ?P] by auto
qed

section \<open>The outcome of adding a block\<close>

text \<open>
  The new block is the last child of its parent, the children it covers are gone, and their pages are in its slots.
\<close>

definition block_added :: "radix_tree \<Rightarrow> node \<Rightarrow> key_bytes \<Rightarrow> token_id_ext list \<Rightarrow> radix_tree \<Rightarrow> bool" where
  "block_added h n key tokens h' \<longleftrightarrow>
     (\<forall>m. node_next h' m = (if m = n then filter (\<lambda>(k, c). \<not> covers tokens (blk_tokens (rx_blocks h c))) (node_next h n) @ [(key, rx_num_blocks h)]
        else if m = BlockNode (rx_num_blocks h) then [] else node_next h m))
   \<and> (\<forall>c. blk_tokens (rx_blocks h' c) = (if c = rx_num_blocks h then tokens else blk_tokens (rx_blocks h c)))
   \<and> (\<forall>c. blk_key (rx_blocks h' c) = (if c = rx_num_blocks h then key else blk_key (rx_blocks h c)))
   \<and> (\<forall>r. rb_key (rx_roots h' r) = rb_key (rx_roots h r))
   \<and> (\<forall>lc p. slot_page h' (rx_num_blocks h) lc = Some p \<longleftrightarrow>
        (\<exists>k c. (k, c) \<in> set (node_next h n) \<and> covers tokens (blk_tokens (rx_blocks h c)) \<and> slot_page h c lc = Some p))
   \<and> (\<forall>c lc. c \<noteq> rx_num_blocks h \<longrightarrow> (\<forall>k. (k, c) \<in> set (node_next h n) \<longrightarrow> \<not> covers tokens (blk_tokens (rx_blocks h c))) \<longrightarrow>
        slot_page h' c lc = slot_page h c lc)
   \<and> (\<forall>p. cp_num_tokens_in_block (rx_pages h' p) = cp_num_tokens_in_block (rx_pages h p))
   \<and> rx_tokens_per_block h' = rx_tokens_per_block h \<and> rx_life_cycles h' = rx_life_cycles h
   \<and> rx_num_blocks h' = rx_num_blocks h + 1
   \<and> (\<forall>c. length (blk_storage (rx_blocks h' c)) = (if c = rx_num_blocks h then length (lcr_list (rx_life_cycles h)) else length (blk_storage (rx_blocks h c))))"

lemma block_addedD:
  assumes "block_added h n key tokens h'"
  shows "node_next h' m = (if m = n then filter (\<lambda>(k, c). \<not> covers tokens (blk_tokens (rx_blocks h c))) (node_next h n) @ [(key, rx_num_blocks h)]
        else if m = BlockNode (rx_num_blocks h) then [] else node_next h m)"
    "blk_tokens (rx_blocks h' c) = (if c = rx_num_blocks h then tokens else blk_tokens (rx_blocks h c))"
    "blk_key (rx_blocks h' c) = (if c = rx_num_blocks h then key else blk_key (rx_blocks h c))"
    "rb_key (rx_roots h' r) = rb_key (rx_roots h r)"
    "rx_tokens_per_block h' = rx_tokens_per_block h" "rx_life_cycles h' = rx_life_cycles h"
    "rx_num_blocks h' = rx_num_blocks h + 1"
    "length (blk_storage (rx_blocks h' c)) = (if c = rx_num_blocks h then length (lcr_list (rx_life_cycles h)) else length (blk_storage (rx_blocks h c)))"
  using assms unfolding block_added_def by blast+

lemma tokens_ok_added:
  assumes ok: "links_ok h" "tokens_ok ndebug H h" "alloc_ok h" and n: "open_node h n"
    and added: "block_added h n key tokens h'"
    and key: "block_key ndebug H (node_key h n) tokens = Inr key"
    and tokens: "tokens \<noteq> []" "length tokens \<le> rx_tokens_per_block h"
    and new: "\<forall>(k, c) \<in> set (node_next h n). \<not> covers (blk_tokens (rx_blocks h c)) tokens"
  shows "tokens_ok ndebug H h'"
proof -
  let ?b = "rx_num_blocks h"
  note B = block_addedD [OF added] and T = tokens_okD [OF ok(2)]
  have nb: "n \<noteq> BlockNode ?b" using open_node_attributes(5) [OF ok n] .
  have child: "c \<noteq> ?b" if "(k, c) \<in> set (node_next h m)" for k c m
    using links_okD(2) [OF ok(1) that] links_okD(4) [OF ok(1), of c m] by auto
  have node: "node_key h' m = node_key h m" if "m \<noteq> BlockNode ?b" for m using that B(3,4) by (cases m) auto
  have entry: "(m = n \<and> k = key \<and> c = ?b) \<or> (m \<noteq> BlockNode ?b \<and> c \<noteq> ?b \<and> (k, c) \<in> set (node_next h m)
      \<and> (m = n \<longrightarrow> \<not> covers tokens (blk_tokens (rx_blocks h c))))" if "(k, c) \<in> set (node_next h' m)" for m k c
    using that child [of k c] nb by (auto simp: B(1) split: if_splits)
  show ?thesis
    unfolding tokens_ok_def
  proof (intro conjI allI impI, goal_cases)
    case (1 m k c)
    then show ?case using entry [OF 1] key node nb T(1) [of k c m] by (auto simp: B(2))
  next
    case (2 m k c)
    then show ?case using entry [OF 2] tokens T(2) [of k c m] by (auto simp: B(2))
  next
    case (3 m k c)
    then show ?case using entry [OF 3] tokens T(3) [of k c m] by (auto simp: B(2,5))
  next
    case (4 b)
    have "b \<noteq> ?b" using 4 B(1) [of "BlockNode b"] nb by auto
    moreover have "length (blk_tokens (rx_blocks h b)) = rx_tokens_per_block h"
      using 4 B(1) [of "BlockNode b"] T(4) [of b] n by (cases "n = BlockNode b") (auto simp: open_node_def split: if_splits)
    ultimately show ?case by (simp add: B(2,5))
  next
    case (5 m k c k' c')
    then show ?case using entry [OF 5(1)] entry [OF 5(2)] new T(5) [of k c m k' c'] by (auto simp: B(2))
  qed
qed

lemma alloc_ok_added:
  assumes "alloc_ok h" and "links_ok h" and "block_added h n key tokens h'" and "open_node h n" "tokens_ok ndebug H h"
  shows "alloc_ok h'"
proof -
  note B = block_addedD [OF assms(3)] and A = alloc_okD [OF assms(1)]
  have "blk_next (rx_blocks h' b) = []" if "rx_num_blocks h < b" for b
  proof -
    have "n \<noteq> BlockNode b"
      using assms(4) that links_okD(4) [OF assms(2), of b] by (auto simp: open_node_def try_get_tree_block)
    then show ?thesis using B(1) [of "BlockNode b"] A(3) [of b] that by simp
  qed
  moreover have "blk_storage (rx_blocks h' b) = []" if "rx_num_blocks h < b" for b
    using B(8) [of b] A(4) [of b] that by simp
  ultimately show ?thesis
    unfolding alloc_ok_def using A(1,2) B(6,7,8) by (auto simp: less_Suc_eq Suc_le_eq)
qed

lemma try_get_tree_cong:
  assumes ok: "links_ok h" and fresh: "\<And>c. blk_prev (rx_blocks h c) \<noteq> Some (BlockNode b)"
    and prev: "\<And>c. c \<noteq> b \<Longrightarrow> blk_prev (rx_blocks h' c) = blk_prev (rx_blocks h c)"
    and roots: "\<And>r. rb_attached (rx_roots h' r) = rb_attached (rx_roots h r)"
  shows "n \<noteq> BlockNode b \<Longrightarrow> try_get_tree h' n = try_get_tree h n"
proof (induction "nat (node_ordinal h n + 1)" arbitrary: n rule: less_induct)
  case less
  show ?case
  proof (cases n)
    case (RootNode r)
    then show ?thesis using roots by (simp add: try_get_tree.simps)
  next
    case (BlockNode c)
    then have c: "c \<noteq> b" using less(2) by simp
    show ?thesis
    proof (cases "blk_prev (rx_blocks h c)")
      case None
      then show ?thesis using BlockNode prev [OF c] by (simp add: try_get_tree.simps)
    next
      case (Some m)
      have "nat (node_ordinal h m + 1) < nat (node_ordinal h n + 1)"
        using links_okD(5) [OF ok Some] links_okD(6) [OF ok, of c] BlockNode by simp
      moreover have "m \<noteq> BlockNode b" using fresh [of c] Some by auto
      ultimately have "try_get_tree h' m = try_get_tree h m" by (rule less(1))
      then show ?thesis using BlockNode Some prev [OF c] by (subst (1 2) try_get_tree.simps) simp
    qed
  qed
qed

lemma fresh_not_parent: "links_ok h \<Longrightarrow> alloc_ok h \<Longrightarrow> blk_prev (rx_blocks h c) \<noteq> Some (BlockNode (rx_num_blocks h))"
  using links_okD(3) [of h c "BlockNode (rx_num_blocks h)"] alloc_okD(3) [of h "rx_num_blocks h"] by auto

lemma slot_page_linked:
  assumes "alloc_ok h"
  shows "slot_page (linked h n key tokens L) c l = slot_page h c l"
  using alloc_okD(4) [OF assms, of "rx_num_blocks h"] by (simp add: slot_page_def)

lemma pages_ok_linked: "alloc_ok h \<Longrightarrow> pages_ok (linked h n key tokens L) \<longleftrightarrow> pages_ok h"
  by (simp add: pages_ok_def slot_page_linked)

lemma link_block_plain:
  "link_block ndebug (new_block key tokens n (node_ordinal h n + 1) L h) n (rx_num_blocks h) []
     = Some (Inr (linked h n key tokens L, NewBlock (rx_num_blocks h)))"
  by (simp add: link_block_def linked_def Let_def new_block_def)

lemma dict_del_filter: "dict_ok d \<Longrightarrow> dict_del k d = filter (\<lambda>e. fst e \<noteq> k) d"
proof (induction k d rule: dict_del.induct)
  case (2 k k' v' d)
  have "filter (\<lambda>e. fst e \<noteq> k) d = d" if "k \<notin> fst ` set d" using that by (induction d) auto
  then show ?case using 2 by auto
qed simp

lemma block_added_plain:
  assumes ok: "links_ok h" "tokens_ok ndebug H h" "alloc_ok h" and n: "open_node h n"
    and key: "map_of (node_next h n) key = None"
    and none: "filter (\<lambda>(k, c). covers tokens (blk_tokens (rx_blocks h c))) (node_next h n) = []"
  shows "block_added h n key tokens (linked h n key tokens (length (lcr_list (rx_life_cycles h))))" (is "block_added h n key tokens ?h'")
proof -
  have nb: "n \<noteq> BlockNode (rx_num_blocks h)" using open_node_attributes(5) [OF ok n] .
  have all: "\<not> covers tokens (blk_tokens (rx_blocks h c))" if "(k, c) \<in> set (node_next h n)" for k c
    using none that by (auto simp: filter_empty_conv)
  then have "filter (\<lambda>(k, c). \<not> covers tokens (blk_tokens (rx_blocks h c))) (node_next h n) = node_next h n"
    by (intro filter_True) auto
  moreover have "slot_page ?h' (rx_num_blocks h) lc = None" for lc by (simp add: slot_page_def)
  ultimately show ?thesis
    unfolding block_added_def using all by (auto simp: linked_next [OF nb key] slot_page_linked [OF ok(3)])
qed

text \<open>Replacing a shorter sibling \<open>c\<close>: link, detach \<open>c\<close>, move its pages.\<close>

lemma link_block_replacing:
  assumes ok: "links_ok h" "pages_ok h" "tokens_ok ndebug H h" "alloc_ok h" and n: "open_node h n"
    and key: "map_of (node_next h n) key = None" and c: "(k, c) \<in> set (node_next h n)"
    and L: "L = length (lcr_list (rx_life_cycles h))"
  shows "\<exists>h'. link_block ndebug (new_block key tokens n (node_ordinal h n + 1) L h) n (rx_num_blocks h) [k]
      = Some (Inr (h', NewBlock (rx_num_blocks h)))
    \<and> same_shape (detached (linked h n key tokens L) n c) h' \<and> links_ok h' \<and> pages_ok h'
    \<and> (\<forall>p. cp_num_tokens_in_block (rx_pages h' p) = cp_num_tokens_in_block (rx_pages h p))
    \<and> (\<forall>d l. slot_page h' d l = (if d = rx_num_blocks h then slot_page h c l else if d = c then None else slot_page h d l))"
proof -
  let ?b = "rx_num_blocks h" and ?new = "new_block key tokens n (node_ordinal h n + 1) L h" and ?lk = "linked h n key tokens L"
  define det where "det = detached ?lk n c"
  note O = open_node_attributes [OF ok(1,3,4) n]
  have c_facts: "blk_key (rx_blocks h c) = k" "blk_prev (rx_blocks h c) = Some n" using links_okD(2) [OF ok(1) c] by simp_all
  have c_lt: "c < ?b" using links_okD(4) [OF ok(1) c_facts(2)] .
  have tree: "try_get_tree ?new n = Some True"
    using try_get_tree_cong [OF ok(1), of ?b ?new n] fresh_not_parent [OF ok(1,4)] O(5) n by (simp add: new_block_def open_node_def)
  have ok_lk: "links_ok ?lk" by (rule links_ok_linked [OF ok(1,4) O(5,6) key O(7)])
  have c_lk: "blk_prev (rx_blocks ?lk c) = Some n" "blk_key (rx_blocks ?lk c) = k" using c_facts c_lt by simp_all
  have detach: "detach_next ?lk n k = Inr (det, Some c)" using detach_next_detached [OF ok_lk c_lk(1)] c_lk(2) by (simp add: det_def)
  have ok_det: "links_ok det" "pages_ok det"
    using links_ok_detached [OF ok_lk c_lk(1)] pages_ok_linked [OF ok(4)] ok(2) by (simp_all add: det_def pages_ok_def)
  have ord: "blk_ordinal (rx_blocks det c) = blk_ordinal (rx_blocks det ?b)"
    using links_okD(5) [OF ok(1) c_facts(2)] c_lt by (simp add: det_def)
  have sto: "blk_storage (rx_blocks det ?b) = replicate L None" "length (blk_storage (rx_blocks det c)) = L"
    using alloc_okD(2) [OF ok(4) c_lt] c_lt L by (simp_all add: det_def)
  obtain h3 where h3: "adopt_pages_from ndebug det ?b c = Inr h3" "moved_slots det ?b c {..<L} h3"
    using adopt_pages_empty [OF ok_det(2) _ ord sto, of ndebug] c_lt by auto
  define h' where "h' = add_event (rx_event_manager h) (RemovedEvent [blk_key (rx_blocks h3 c)]) h3"
  have shape: "same_shape det h3" "same_shape det h'" using h3(2) by (simp_all add: moved_slots_def h'_def)
  have "blk_prev (rx_blocks h' c) = None" using same_shapeD(4) [OF shape(2)] by (simp add: det_def)
  then have orphan: "is_orphan h' c = Inr True" by (simp add: is_orphan_def)
  have em: "rx_event_manager ?new = rx_event_manager h" by (simp add: new_block_def)
  have lk: "set_node_next n (dict_set (blk_key (rx_blocks ?new ?b)) ?b (node_next ?new n)) ?new = ?lk"
    by (simp add: linked_def new_block_def Let_def)
  have run: "link_block ndebug ?new n ?b [k] = Some (Inr (h', NewBlock ?b))"
    unfolding link_block_def lk get_tree_def tree em Let_def using detach h3(1) orphan by (simp add: h'_def Let_def)
  have slots_det: "slot_page det d l = slot_page h d l" for d l by (simp add: det_def slot_page_linked [OF ok(4)])
  have blank: "slot_page h d l = None" if "L \<le> l" "d = c \<or> d = ?b" for d l
    using that alloc_okD(2) [OF ok(4) c_lt] alloc_okD(4) [OF ok(4), of ?b] L by (auto simp: slot_page_def)
  have "slot_page h' d l = (if d = ?b then slot_page h c l else if d = c then None else slot_page h d l)" for d l
    using h3(2) slots_det blank [of l d] blank [of l c] unfolding moved_slots_def by (cases "l < L") (auto simp: h'_def)
  moreover have "links_ok h'" using ok_det(1) links_ok_same_shape [OF shape(2)] by simp
  moreover have "pages_ok h3" using h3(2) by (simp add: moved_slots_def)
  then have "pages_ok h'" by (simp add: h'_def)
  moreover have "cp_num_tokens_in_block (rx_pages h' p) = cp_num_tokens_in_block (rx_pages h p)" for p
    using h3(2) by (simp add: moved_slots_def h'_def det_def)
  ultimately show ?thesis using run shape(2) det_def by blast
qed

lemma block_added_replacing:
  assumes ok: "links_ok h" "pages_ok h" "tokens_ok ndebug H h" "alloc_ok h" and n: "open_node h n"
    and key: "map_of (node_next h n) key = None"
    and one: "filter (\<lambda>(k, c). covers tokens (blk_tokens (rx_blocks h c))) (node_next h n) = [(k, c)]"
    and L: "L = length (lcr_list (rx_life_cycles h))"
    and shape: "same_shape (detached (linked h n key tokens L) n c) h'"
    and sizes: "\<forall>p. cp_num_tokens_in_block (rx_pages h' p) = cp_num_tokens_in_block (rx_pages h p)"
    and slots: "\<forall>d l. slot_page h' d l = (if d = rx_num_blocks h then slot_page h c l else if d = c then None else slot_page h d l)"
  shows "block_added h n key tokens h'"
proof -
  let ?b = "rx_num_blocks h"
  note O = open_node_attributes [OF ok(1,3,4) n] and S = same_shapeD [OF shape] same_shape_node [OF shape]
  have mem: "(k', c') \<in> set (node_next h n) \<and> covers tokens (blk_tokens (rx_blocks h c')) \<longleftrightarrow> k' = k \<and> c' = c" for k' c'
  proof -
    have "(k', c') \<in> set (filter (\<lambda>(k, c). covers tokens (blk_tokens (rx_blocks h c))) (node_next h n)) \<longleftrightarrow> (k', c') = (k, c)"
      unfolding one by simp
    then show ?thesis by simp
  qed
  have c: "(k, c) \<in> set (node_next h n)" using mem by blast
  have key_c: "blk_key (rx_blocks h c) = k" "blk_prev (rx_blocks h c) = Some n" using links_okD(2) [OF ok(1) c] by simp_all
  have c_lt: "c < ?b" using links_okD(4) [OF ok(1) key_c(2)] .
  have ne: "key \<noteq> k" using key weak_map_of_SomeI [OF c] by auto
  have "fst e \<noteq> k \<longleftrightarrow> (case e of (k, c) \<Rightarrow> \<not> covers tokens (blk_tokens (rx_blocks h c)))" if "e \<in> set (node_next h n)" for e
    using that mem [of "fst e" "snd e"] links_okD(1) [OF ok(1), of n] c eq_key_imp_eq_value [of "node_next h n" k c "snd e"]
    by (cases e) auto
  then have "filter (\<lambda>e. fst e \<noteq> k) (node_next h n) = filter (\<lambda>(k, c). \<not> covers tokens (blk_tokens (rx_blocks h c))) (node_next h n)"
    by (intro filter_cong) auto
  moreover have "dict_ok (node_next h n @ [(key, ?b)])"
    using links_okD(1) [OF ok(1), of n] key by (simp add: map_of_eq_None_iff)
  ultimately have del: "dict_del k (node_next h n @ [(key, ?b)])
      = filter (\<lambda>(k, c). \<not> covers tokens (blk_tokens (rx_blocks h c))) (node_next h n) @ [(key, ?b)]"
    using ne by (simp add: dict_del_filter)
  have nexts: "node_next h' m = (if m = n then filter (\<lambda>(k, c). \<not> covers tokens (blk_tokens (rx_blocks h c))) (node_next h n) @ [(key, ?b)]
        else if m = BlockNode ?b then [] else node_next h m)" for m
    using del c_lt key_c(1) by (simp add: S(14) linked_next [OF O(5) key])
  have blank: "slot_page h ?b l = None" for l using alloc_okD(4) [OF ok(4), of ?b] by (simp add: slot_page_def)
  show ?thesis
    unfolding block_added_def
  proof (intro conjI allI impI, goal_cases)
    case (1 m)
    show ?case by (rule nexts)
  next
    case (5 lc p)
    have "slot_page h' ?b lc = slot_page h c lc" using slots by simp
    then show ?case using mem by metis
  next
    case (6 d lc)
    then have "d \<noteq> c" using mem [of k c] by auto
    then show ?case using 6 slots by simp
  qed (use S sizes L in simp_all)
qed

lemma add_block_cases:
  assumes ok: "links_ok h" "tokens_ok ndebug H h" "alloc_ok h" and n: "open_node h n"
    and tokens: "length tokens \<le> rx_tokens_per_block h"
    and key: "block_key ndebug H (node_key h n) tokens = Inr key"
    and nocoll: "\<forall>k c. (k, c) \<in> set (node_next h n) \<longrightarrow>
      block_key ndebug H (node_key h n) (blk_tokens (rx_blocks h c)) = block_key ndebug H (node_key h n) tokens \<longrightarrow> blk_tokens (rx_blocks h c) = tokens"
  shows "(\<exists>k c. (k, c) \<in> set (node_next h n) \<and> covers (blk_tokens (rx_blocks h c)) tokens \<and> add_block ndebug H h tokens n = Some (Inr (h, Useless c)))
    \<or> ((\<forall>(k, c) \<in> set (node_next h n). \<not> covers (blk_tokens (rx_blocks h c)) tokens) \<and> map_of (node_next h n) key = None
       \<and> add_block ndebug H h tokens n = link_block ndebug (new_block key tokens n (node_ordinal h n + 1) (length (lcr_list (rx_life_cycles h))) h) n
            (rx_num_blocks h) (map fst (filter (\<lambda>(k, c). covers tokens (blk_tokens (rx_blocks h c))) (node_next h n))))"
proof -
  note O = open_node_attributes [OF ok n] and T = tokens_okD [OF ok(2)]
  have start: "add_block ndebug H h tokens n = (case map_of (node_next h n) key of
       Some b \<Rightarrow> Some (Inr (h, Useless b))
     | None \<Rightarrow>
         (case if length tokens < rx_tokens_per_block h then find_cover h tokens (node_next h n) else None of
            Some b \<Rightarrow> Some (Inr (h, Useless b))
          | None \<Rightarrow>
              (case bindR (covered_siblings ndebug h tokens (node_next h n)) (\<lambda>ks. assertR (ndebug \<or> length ks \<le> 1) (Inr ks)) of
                 Inl e \<Rightarrow> Some (Inl e)
               | Inr to_remove \<Rightarrow>
                   link_block ndebug (new_block key tokens n (node_ordinal h n + 1) (length (lcr_list (rx_life_cycles h))) h) n (rx_num_blocks h) to_remove)))"
    unfolding add_block_def using O(1-4) key by simp
  show ?thesis
  proof (cases "map_of (node_next h n) key")
    case (Some c)
    then have c: "(key, c) \<in> set (node_next h n)" by (rule map_of_SomeD)
    then have "blk_tokens (rx_blocks h c) = tokens" using T(1) [OF c] key nocoll by auto
    then show ?thesis using Some start c by auto
  next
    case None
    show ?thesis
    proof (cases "\<exists>(k, c) \<in> set (node_next h n). covers (blk_tokens (rx_blocks h c)) tokens")
      case True
      then obtain k c where c: "(k, c) \<in> set (node_next h n)" "covers (blk_tokens (rx_blocks h c)) tokens" by auto
      have "length tokens \<noteq> rx_tokens_per_block h"
      proof
        assume "length tokens = rx_tokens_per_block h"
        then have "blk_tokens (rx_blocks h c) = tokens" using covers_same_length [OF c(2)] T(3) [OF c(1)] by simp
        then have "k = key" using T(1) [OF c(1)] key by simp
        then show False using None weak_map_of_SomeI [OF c(1)] by auto
      qed
      then have lt: "length tokens < rx_tokens_per_block h" using tokens by simp
      have "List.find (\<lambda>(k, b). covers (blk_tokens (rx_blocks h b)) tokens) (node_next h n) \<noteq> None"
        using c by (auto simp: find_None_iff)
      then obtain k' c' where f: "List.find (\<lambda>(k, b). covers (blk_tokens (rx_blocks h b)) tokens) (node_next h n) = Some (k', c')" by auto
      then have "(k', c') \<in> set (node_next h n)" "covers (blk_tokens (rx_blocks h c')) tokens"
        by (auto simp: find_Some_iff in_set_conv_nth)
      then show ?thesis using start None lt f by (auto simp: find_cover_def)
    next
      case False
      have no: "(if length tokens < rx_tokens_per_block h then find_cover h tokens (node_next h n) else None) = None"
        using False by (auto simp: find_cover_def find_None_iff)
      have full: "\<forall>(k, b) \<in> set (node_next h n). is_full h b = Inr (length (blk_tokens (rx_blocks h b)) = rx_tokens_per_block h) \<and> blk_key (rx_blocks h b) = k
          \<and> (length (blk_tokens (rx_blocks h b)) < rx_tokens_per_block h \<longrightarrow> blk_next (rx_blocks h b) = [])"
        using children_is_full [OF ok(1,2) O(3)] by blast
      have "filter (\<lambda>(k, b). length (blk_tokens (rx_blocks h b)) < length tokens \<and> covers tokens (blk_tokens (rx_blocks h b))) (node_next h n)
          = filter (\<lambda>(k, b). covers tokens (blk_tokens (rx_blocks h b))) (node_next h n)"
        using False covers_length covers_same_length by (intro filter_cong) fastforce+
      then have sib: "covered_siblings ndebug h tokens (node_next h n)
          = Inr (map fst (filter (\<lambda>(k, b). covers tokens (blk_tokens (rx_blocks h b))) (node_next h n)))"
        using covered_siblings_filter [OF full tokens, of ndebug] by simp
      have "length (filter (\<lambda>(k, b). covers tokens (blk_tokens (rx_blocks h b))) (node_next h n)) \<le> 1"
        using covered_at_most_one [OF ok(1,2), of tokens n] by auto
      then show ?thesis using start None no sib False by auto
    qed
  qed
qed

lemma distinct_keys_uint64:
  assumes "inj_on H (set (map (\<lambda>t. prev @ array_bytes t) ts))" and "\<forall>t\<in>set ts. list_all is_uint64 t"
    and "t \<in> set ts" and "u \<in> set ts" and "block_key ndebug H prev t = block_key ndebug H prev u"
  shows "t = u"
proof -
  have "H (prev @ array_bytes t) = H (prev @ array_bytes u)"
    using assms(2-5) block_key_uint64 [of t ndebug H prev] block_key_uint64 [of u ndebug H prev] by simp
  then have "array_bytes t = array_bytes u" using assms(1,3,4) by (auto dest: inj_onD)
  then show ?thesis using array_bytes_inj assms(2-4) by blast
qed

section \<open>Root blocks\<close>

lemma add_root_ok:
  assumes ok: "tree_ok ndebug H h" and run: "add_or_get_existing H h scope = Inr (h', r)"
  shows "tree_ok ndebug H h' \<and> open_node h' (RootNode r) \<and> root_key H scope = Inr (rb_key (rx_roots h' r))
    \<and> map_of (rx_next h') (rb_key (rx_roots h' r)) = Some r"
proof -
  have parts: "links_ok h" "pages_ok h" "tokens_ok ndebug H h" "alloc_ok h" using ok by (simp_all add: tree_ok_def)
  note D = links_okD [OF parts(1)]
  obtain key where key: "root_key H scope = Inr key" using run by (auto simp: add_or_get_existing_def res_iffs)
  show ?thesis
  proof (cases "map_of (rx_next h) key")
    case (Some q)
    then have "(key, q) \<in> set (rx_next h)" by (rule map_of_SomeD)
    then have "rb_attached (rx_roots h q)" "rb_key (rx_roots h q) = key" using D(8) by blast+
    moreover have "h' = h" "r = q" using run key Some by (simp_all add: add_or_get_existing_def)
    ultimately show ?thesis using ok key Some by (simp add: open_node_def try_get_tree_root)
  next
    case None
    let ?r = "rx_num_roots h"
    have h': "h' = h\<lparr>rx_roots := (rx_roots h)(?r := \<lparr>rb_key = key, rb_reuse_scope = scope, rb_attached = True, rb_next = []\<rparr>),
        rx_num_roots := ?r + 1, rx_next := dict_set key ?r (rx_next h)\<rparr>" and r: "r = ?r"
      using run key None by (auto simp: add_or_get_existing_def add_root_def)
    have fresh: "\<not> rb_attached (rx_roots h ?r)" using D(10) by blast
    then have blank: "rb_next (rx_roots h ?r) = []" using D(9) by blast
    have nexts: "node_next h' n = node_next h n" for n using blank by (cases n) (simp_all add: h')
    have no_child: "blk_prev (rx_blocks h c) \<noteq> Some (RootNode ?r)" for c using D(3) [of c "RootNode ?r"] blank by auto
    have keys: "node_key h' n = node_key h n" if "n \<noteq> RootNode ?r" for n using that by (cases n) (simp_all add: h')
    have set_next: "dict_set key ?r (rx_next h) = rx_next h @ [(key, ?r)]"
      using None by (intro dict_set_new) (simp add: map_of_eq_None_iff)
    have links: "links_ok h'"
    proof (rule links_okI, goal_cases)
      case (3 c n)
      then show ?case using D(3,4,5) [of c n] no_child [of c] nexts [of n] by (cases n) (auto simp: h')
    next
      case (6 k q)
      have "(key, q') \<notin> set (rx_next h)" for q' using None weak_map_of_SomeI [of key q' "rx_next h"] by auto
      then show ?case using D(8) [of k q] fresh by (auto simp: h' set_next)
    next
      case (7 q)
      then show ?case using D(9) [of q] by (simp add: h' split: if_splits)
    next
      case (8 q)
      then show ?case using D(10) [of q] by (auto simp: h' split: if_splits)
    qed (use nexts D(1,2,6,7) in \<open>simp_all add: h'\<close>)
    note T = tokens_okD [OF parts(3)]
    have key': "block_key ndebug H (node_key h' n) (blk_tokens (rx_blocks h c)) = Inr k" if c: "(k, c) \<in> set (node_next h n)" for n k c
    proof -
      have "n \<noteq> RootNode ?r" using c blank by auto
      then show ?thesis using T(1) [OF c] keys by simp
    qed
    have same: "rx_blocks h' = rx_blocks h" "rx_tokens_per_block h' = rx_tokens_per_block h" by (simp_all add: h')
    have tok: "tokens_ok ndebug H h'"
      unfolding tokens_ok_def nexts same
    proof (intro conjI allI impI, goal_cases)
      case (1 n k c)
      then show ?case by (rule key')
    next
      case (2 n k c)
      then show ?case by (rule T(2))
    next
      case (3 n k c)
      then show ?case by (rule T(3))
    next
      case (4 b)
      then show ?case by (rule T(4))
    next
      case (5 n k c k' c')
      then show ?case by (rule T(5))
    qed
    have "slot_page h' b lc = slot_page h b lc" for b lc by (simp add: slot_page_def h')
    then have "pages_ok h'" using parts(2) by (simp add: pages_ok_def) (simp add: h')
    moreover have "alloc_ok h'" using parts(4) by (simp add: alloc_ok_def h')
    ultimately show ?thesis using links tok key r by (simp add: tree_ok_def open_node_def try_get_tree_root) (simp add: h')
  qed
qed

section \<open>Adding a block\<close>

lemma add_block_spec:
  assumes "tree_ok ndebug H h" and "open_node h n"
    and "tokens \<noteq> []" and "length tokens \<le> rx_tokens_per_block h"
    and "\<forall>t\<in>set (tokens # map (\<lambda>(k, c). blk_tokens (rx_blocks h c)) (node_next h n)). list_all is_uint64 t"
    and "inj_on H (set (map (\<lambda>t. node_key h n @ array_bytes t) (tokens # map (\<lambda>(k, c). blk_tokens (rx_blocks h c)) (node_next h n))))"
  shows "if \<exists>(k, c)\<in>set (node_next h n). covers (blk_tokens (rx_blocks h c)) tokens
    then \<exists>(k, c)\<in>set (node_next h n). covers (blk_tokens (rx_blocks h c)) tokens \<and> add_block ndebug H h tokens n = Some (Inr (h, Useless c))
    else \<exists>h' key. add_block ndebug H h tokens n = Some (Inr (h', NewBlock (rx_num_blocks h)))
      \<and> block_key ndebug H (node_key h n) tokens = Inr key \<and> block_added h n key tokens h'
      \<and> length (filter (\<lambda>(k, c). covers tokens (blk_tokens (rx_blocks h c))) (node_next h n)) \<le> 1 \<and> tree_ok ndebug H h'"
proof -
  let ?ts = "tokens # map (\<lambda>(k, c). blk_tokens (rx_blocks h c)) (node_next h n)" and ?L = "length (lcr_list (rx_life_cycles h))"
  let ?cov = "filter (\<lambda>(k, c). covers tokens (blk_tokens (rx_blocks h c))) (node_next h n)"
  have ok: "links_ok h" "pages_ok h" "tokens_ok ndebug H h" "alloc_ok h" using assms(1) by (simp_all add: tree_ok_def)
  note O = open_node_attributes [OF ok(1,3,4) assms(2)]
  define key where "key = H (node_key h n @ array_bytes tokens)"
  have key: "block_key ndebug H (node_key h n) tokens = Inr key" unfolding key_def using assms(5) by (intro block_key_uint64) simp
  have nocoll: "\<forall>k c. (k, c) \<in> set (node_next h n) \<longrightarrow>
      block_key ndebug H (node_key h n) (blk_tokens (rx_blocks h c)) = block_key ndebug H (node_key h n) tokens \<longrightarrow> blk_tokens (rx_blocks h c) = tokens"
  proof (intro allI impI)
    fix k c assume c: "(k, c) \<in> set (node_next h n)"
      and eq: "block_key ndebug H (node_key h n) (blk_tokens (rx_blocks h c)) = block_key ndebug H (node_key h n) tokens"
    have "blk_tokens (rx_blocks h c) \<in> set ?ts" using c by force
    then show "blk_tokens (rx_blocks h c) = tokens" using distinct_keys_uint64 [OF assms(6,5) _ _ eq] by simp
  qed
  from add_block_cases [OF ok(1,3,4) assms(2,4) key nocoll]
  consider (useless) k c where "(k, c) \<in> set (node_next h n)" "covers (blk_tokens (rx_blocks h c)) tokens" "add_block ndebug H h tokens n = Some (Inr (h, Useless c))"
    | (added) "\<forall>(k, c) \<in> set (node_next h n). \<not> covers (blk_tokens (rx_blocks h c)) tokens" "map_of (node_next h n) key = None"
       "add_block ndebug H h tokens n = link_block ndebug (new_block key tokens n (node_ordinal h n + 1) ?L h) n (rx_num_blocks h) (map fst ?cov)"
    by (elim disjE exE conjE)
  then show ?thesis
  proof cases
    case useless
    then show ?thesis by auto
  next
    case added
    have one: "?cov = [] \<or> (\<exists>k c. ?cov = [(k, c)])" by (rule covered_at_most_one [OF ok(1,3)])
    have "\<exists>h'. add_block ndebug H h tokens n = Some (Inr (h', NewBlock (rx_num_blocks h))) \<and> block_added h n key tokens h' \<and> links_ok h' \<and> pages_ok h'"
      using one
    proof (elim disjE exE)
      assume none: "?cov = []"
      show ?thesis
        using added(3) none link_block_plain block_added_plain [OF ok(1,3,4) assms(2) added(2) none]
          links_ok_linked [OF ok(1,4) O(5,6) added(2) O(7)] pages_ok_linked [OF ok(4)] ok(2)
        by (intro exI [of _ "linked h n key tokens ?L"]) simp
    next
      fix k c assume cov: "?cov = [(k, c)]"
      then have "(k, c) \<in> set ?cov" by simp
      then have c: "(k, c) \<in> set (node_next h n)" by simp
      obtain h' where h': "link_block ndebug (new_block key tokens n (node_ordinal h n + 1) ?L h) n (rx_num_blocks h) [k] = Some (Inr (h', NewBlock (rx_num_blocks h)))"
        "same_shape (detached (linked h n key tokens ?L) n c) h'" "links_ok h'" "pages_ok h'"
        "\<forall>p. cp_num_tokens_in_block (rx_pages h' p) = cp_num_tokens_in_block (rx_pages h p)"
        "\<forall>d l. slot_page h' d l = (if d = rx_num_blocks h then slot_page h c l else if d = c then None else slot_page h d l)"
        using link_block_replacing [OF ok assms(2) added(2) c refl, of tokens] by (elim exE conjE)
      have "block_added h n key tokens h'" by (rule block_added_replacing [OF ok assms(2) added(2) cov refl h'(2,5,6)])
      then show ?thesis using added(3) cov h'(1,3,4) by (intro exI [of _ h']) simp
    qed
    then obtain h' where h': "add_block ndebug H h tokens n = Some (Inr (h', NewBlock (rx_num_blocks h)))" "block_added h n key tokens h'" "links_ok h'" "pages_ok h'"
      by (elim exE conjE)
    have "tokens_ok ndebug H h'" by (rule tokens_ok_added [OF ok(1,3,4) assms(2) h'(2) key assms(3,4) added(1)])
    moreover have "alloc_ok h'" by (rule alloc_ok_added [OF ok(4,1) h'(2) assms(2) ok(3)])
    ultimately have "tree_ok ndebug H h'" using h'(3,4) by (simp add: tree_ok_def)
    moreover have "length ?cov \<le> 1" using one by auto
    ultimately have "\<exists>h' key. add_block ndebug H h tokens n = Some (Inr (h', NewBlock (rx_num_blocks h)))
      \<and> block_key ndebug H (node_key h n) tokens = Inr key \<and> block_added h n key tokens h' \<and> length ?cov \<le> 1 \<and> tree_ok ndebug H h'"
      using h'(1,2) key by blast
    then show ?thesis using added(1) by auto
  qed
qed

section \<open>Properties\<close>

text \<open>
  C3: adding a block of \<open>1\<close> to \<open>tpb\<close> integer tokens under a full node of a well-formed tree, when the hash has no
  collision among the siblings. If a child already begins with these tokens, the result names such a child and
  nothing changes. Otherwise the new block becomes the last child, at most one shorter child that the new one covers
  is replaced, the new block holds exactly the pages of the replaced child with their token counts, no other slot
  changes, and the tree stays well-formed.
\<close>

theorem add_block_outcome:
  assumes "tree_ok ndebug H h" and "open_node h n"
    and "tokens \<noteq> []" and "length tokens \<le> rx_tokens_per_block h"
    and "\<forall>t\<in>set (tokens # map (\<lambda>(k, c). blk_tokens (rx_blocks h c)) (node_next h n)). list_all is_uint64 t"
    and "inj_on H (set (map (\<lambda>t. node_key h n @ array_bytes t) (tokens # map (\<lambda>(k, c). blk_tokens (rx_blocks h c)) (node_next h n))))"
  shows "if \<exists>(k, c)\<in>set (node_next h n). covers (blk_tokens (rx_blocks h c)) tokens
    then \<exists>(k, c)\<in>set (node_next h n). covers (blk_tokens (rx_blocks h c)) tokens \<and> add_block ndebug H h tokens n = Some (Inr (h, Useless c))
    else \<exists>h' key. add_block ndebug H h tokens n = Some (Inr (h', NewBlock (rx_num_blocks h)))
      \<and> block_key ndebug H (node_key h n) tokens = Inr key \<and> block_added h n key tokens h'
      \<and> length (filter (\<lambda>(k, c). covers tokens (blk_tokens (rx_blocks h c))) (node_next h n)) \<le> 1 \<and> tree_ok ndebug H h'"
  by (rule add_block_spec [OF assms])

text \<open>A new tree with one root block and no children.\<close>

definition one_life_cycle :: life_cycle_registry where
  "one_life_cycle = \<lparr>lcr_list = [SsmLifeCycle], lcr_id_dict = [(SsmLifeCycle, 0)]\<rparr>"

lemma tree_with_root:
  "\<exists>h. add_or_get_existing pad_hash (radix_tree_init one_life_cycle 2 True) [None, None] = Inr (h, 0)
    \<and> node_next h (RootNode 0) = [] \<and> rx_num_blocks h = 0 \<and> rx_tokens_per_block h = 2 \<and> tree_ok False pad_hash h \<and> open_node h (RootNode 0)"
proof -
  let ?h0 = "radix_tree_init one_life_cycle 2 True"
  obtain b where "reuse_scope_to_bytes [None, None] = Inr b" using reuse_scope_defined [of "[None, None]"] by auto
  then have "root_key pad_hash [None, None] = Inr (hasher_digest pad_hash (hasher_update_bytes [] b))" by (simp add: root_key_def)
  then obtain h where h: "add_or_get_existing pad_hash ?h0 [None, None] = Inr (h, 0)"
    "node_next h (RootNode 0) = []" "rx_num_blocks h = 0" "rx_tokens_per_block h = 2"
    by (simp add: add_or_get_existing_def add_root_def radix_tree_init_def)
  have "tree_ok False pad_hash ?h0" by (rule tree_ok_init) (simp add: registry_ok_def one_life_cycle_def)
  from add_root_ok [OF this h(1)] show ?thesis using h by blast
qed

theorem add_block_outcome_witness:
  "\<exists>h. add_or_get_existing pad_hash (radix_tree_init one_life_cycle 2 True) [None, None] = Inr (h, 0)
    \<and> (\<exists>h' key. add_block False pad_hash h [Tok 1] (RootNode 0) = Some (Inr (h', NewBlock 0))
      \<and> block_key False pad_hash (node_key h (RootNode 0)) [Tok 1] = Inr key \<and> block_added h (RootNode 0) key [Tok 1] h' \<and> tree_ok False pad_hash h')"
proof -
  obtain h where h: "add_or_get_existing pad_hash (radix_tree_init one_life_cycle 2 True) [None, None] = Inr (h, 0)"
    "node_next h (RootNode 0) = []" "rx_num_blocks h = 0" "rx_tokens_per_block h = 2" "tree_ok False pad_hash h" "open_node h (RootNode 0)"
    using tree_with_root by (elim exE conjE)
  show ?thesis using add_block_outcome [OF h(5,6), of "[Tok 1]"] h by (intro exI [of _ h]) (auto simp: inj_on_def)
qed

text \<open>
  C40: \<open>Block.__init__\<close> accepts every parent that is not full. The assertion with the message that the parent must
  be a full block compares the block size of the parent with that of the grandparent, and in a well-formed tree these
  agree. So for every attached block that holds fewer tokens than a block can, a new block of integer tokens is linked
  below it as its only child, and the tree is not well-formed any more: a block with a child is not full.
\<close>

theorem add_block_below_partial_parent:
  assumes "tree_ok ndebug H h" and "try_get_tree h (BlockNode b) = Some True"
    and "length (blk_tokens (rx_blocks h b)) < rx_tokens_per_block h" and "list_all is_uint64 tokens"
  shows "\<exists>h' key. add_block ndebug H h tokens (BlockNode b) = Some (Inr (h', NewBlock (rx_num_blocks h)))
    \<and> node_next h' (BlockNode b) = [(key, rx_num_blocks h)] \<and> blk_prev (rx_blocks h' (rx_num_blocks h)) = Some (BlockNode b)
    \<and> blk_tokens (rx_blocks h' (rx_num_blocks h)) = tokens \<and> \<not> tree_ok ndebug H h'"
proof -
  have ok: "links_ok h" "tokens_ok ndebug H h" "alloc_ok h" using assms(1) by (simp_all add: tree_ok_def)
  let ?L = "length (lcr_list (rx_life_cycles h))"
  define key where "key = H (node_key h (BlockNode b) @ array_bytes tokens)"
  define h' where "h' = linked h (BlockNode b) key tokens ?L"
  note A = in_tree_attributes [OF ok assms(2)]
  have none: "node_next h (BlockNode b) = []" using tokens_okD(4) [OF ok(2), of b] assms(3) by auto
  have key: "block_key ndebug H (node_key h (BlockNode b)) tokens = Inr key"
    unfolding key_def by (rule block_key_uint64 [OF assms(4)])
  have "add_block ndebug H h tokens (BlockNode b) = Some (Inr (h', NewBlock (rx_num_blocks h)))"
    unfolding add_block_def h'_def using A(1-3) key none link_block_plain [of ndebug key tokens "BlockNode b" h ?L]
    by (simp add: find_cover_def)
  moreover have child: "node_next h' (BlockNode b) = [(key, rx_num_blocks h)]" using none A(4)
    by (simp add: h'_def linked_def new_block_def set_block_def Let_def)
  moreover have "blk_prev (rx_blocks h' (rx_num_blocks h)) = Some (BlockNode b)" "blk_tokens (rx_blocks h' (rx_num_blocks h)) = tokens"
    by (simp_all add: h'_def)
  moreover have "\<not> tokens_ok ndebug H h'"
    using tokens_okD(4) [of ndebug H h' b] child assms(3) A(4) by (auto simp: h'_def)
  ultimately show ?thesis by (intro exI [of _ h'] exI [of _ key]) (simp add: tree_ok_def)
qed

theorem add_block_below_partial_parent_witness:
  "\<exists>h h1 h2. add_or_get_existing pad_hash (radix_tree_init one_life_cycle 2 True) [None, None] = Inr (h, 0)
    \<and> add_block False pad_hash h [Tok 1] (RootNode 0) = Some (Inr (h1, NewBlock 0)) \<and> tree_ok False pad_hash h1
    \<and> add_block False pad_hash h1 [Tok 9] (BlockNode 0) = Some (Inr (h2, NewBlock 1)) \<and> \<not> tree_ok False pad_hash h2"
proof -
  obtain h where h: "add_or_get_existing pad_hash (radix_tree_init one_life_cycle 2 True) [None, None] = Inr (h, 0)"
    "node_next h (RootNode 0) = []" "rx_num_blocks h = 0" "rx_tokens_per_block h = 2" "tree_ok False pad_hash h" "open_node h (RootNode 0)"
    using tree_with_root by (elim exE conjE)
  obtain h1 key where h1: "add_block False pad_hash h [Tok 1] (RootNode 0) = Some (Inr (h1, NewBlock 0))"
      "block_added h (RootNode 0) key [Tok 1] h1" "tree_ok False pad_hash h1"
    using add_block_spec [OF h(5,6), of "[Tok 1]"] h by (auto simp: inj_on_def)
  have child: "(key, 0) \<in> set (node_next h1 (RootNode 0))" using block_addedD(1) [OF h1(2), of "RootNode 0"] h by simp
  have links: "links_ok h1" using h1(3) by (simp add: tree_ok_def)
  have "rb_attached (rx_roots h1 0)" using links_okD(9) [OF links, of 0] child by (cases "rb_next (rx_roots h1 0)") auto
  then have "try_get_tree h1 (BlockNode 0) = Some True"
    using links_okD(2) [OF links child] by (auto simp: try_get_tree_block try_get_tree_root)
  moreover have "blk_tokens (rx_blocks h1 0) = [Tok 1]" "rx_tokens_per_block h1 = 2" "rx_num_blocks h1 = 1"
    using h1(2) h by (simp_all add: block_added_def)
  ultimately show ?thesis
    using add_block_below_partial_parent [OF h1(3), of 0 "[Tok 9]"] h(1) h1(1,3) by auto
qed

end
