(* ===== verification/KV_Match.thy ===== *)
theory KV_Match
  imports KV_Radix_Add
begin

text \<open>
  Prefix matching in the radix tree (\<open>_match_token_path\<close>, \<open>_prune_match\<close> and \<open>match\<close> of
  \<^verbatim>\<open>_block_radix_tree.py\<close>): the walk along the keys of the query, the partial match at its end, and the
  cut to the longest prefix whose pages are all there. A match is a list of blocks with the number of tokens used of
  each.
\<close>

section \<open>Walking along the keys\<close>

fun partial_match_this_node :: "token_id_ext list \<Rightarrow> token_id_ext list \<Rightarrow> nat" where
  "partial_match_this_node (a # as) (b # bs) = (if a \<noteq> b then 0 else Suc (partial_match_this_node as bs))"
| "partial_match_this_node _ _ = 0"

fun best_partial :: "radix_tree \<Rightarrow> token_id_ext list \<Rightarrow> nat option \<times> nat \<Rightarrow> (key_bytes \<times> nat) list \<Rightarrow> nat option \<times> nat" where
  "best_partial h tokens best [] = best"
| "best_partial h tokens (best_block, best_len) ((_, b) # d) =
     (let match_len = partial_match_this_node tokens (blk_tokens (rx_blocks h b))
      in best_partial h tokens (if best_len < match_len then (Some b, match_len) else (best_block, best_len)) d)"

definition find_best_partial_match_in_next_nodes :: "radix_tree \<Rightarrow> node \<Rightarrow> token_id_ext list \<Rightarrow> nat option \<times> nat" where
  "find_best_partial_match_in_next_nodes h n tokens =
     (if 32 \<le> length (node_next h n) then (None, 0) else best_partial h tokens (None, 0) (node_next h n))"

text \<open>
  The keys are produced one at a time, so an error in a later block only shows when the walk gets there.
\<close>

function match_blocks :: "bool \<Rightarrow> (byte list \<Rightarrow> byte list) \<Rightarrow> radix_tree \<Rightarrow> bool \<Rightarrow> node \<Rightarrow> key_bytes \<Rightarrow> token_id_ext list
    \<Rightarrow> (nat \<times> nat) list res" where
  "match_blocks ndebug H h partial n digest tokens =
     (let token_block = take (rx_tokens_per_block h) tokens
      in if token_block = [] then Inr []
         else bindR (block_key ndebug H digest token_block) (\<lambda>key.
           case map_of (node_next h n) key of
             Some b \<Rightarrow> bindR (match_blocks ndebug H h partial (BlockNode b) key (drop (rx_tokens_per_block h) tokens))
                 (\<lambda>rest. Inr ((b, length token_block) # rest))
           | None \<Rightarrow> Inr (if partial
               then (case find_best_partial_match_in_next_nodes h n token_block of
                       (None, _) \<Rightarrow> [] | (Some b, match_len) \<Rightarrow> [(b, match_len)])
               else [])))"
  by pat_completeness auto

termination
  by (relation "measure (\<lambda>(_, _, _, _, _, _, tokens). length tokens)") auto

declare match_blocks.simps [simp del]

definition match_token_path :: "bool \<Rightarrow> (byte list \<Rightarrow> byte list) \<Rightarrow> radix_tree \<Rightarrow> int option list \<Rightarrow> token_id_ext list \<Rightarrow> bool
    \<Rightarrow> (nat \<times> nat) list res" where
  "match_token_path ndebug H h scope tokens enable_partial_match =
     bindR (root_key H scope) (\<lambda>key. case map_of (rx_next h) key of
         None \<Rightarrow> Inr []
       | Some r \<Rightarrow> match_blocks ndebug H h enable_partial_match (RootNode r) key tokens)"

definition num_matched_tokens :: "nat \<Rightarrow> (nat \<times> nat) list \<Rightarrow> nat" where
  "num_matched_tokens tpb matched = (if matched = [] then 0 else tpb * (length matched - 1) + snd (last matched))"

section \<open>Pruning\<close>

text \<open>The last reusable recurrent state, searched from the end of the match (a list in reverse order).\<close>

fun ssm_scan :: "radix_tree \<Rightarrow> nat \<Rightarrow> (nat \<times> nat) list \<Rightarrow> (nat \<times> nat) list res" where
  "ssm_scan h ssm [] = Inr []"
| "ssm_scan h ssm ((b, n) # rest) =
     bindR (page_coverage h b ssm) (\<lambda>snapshot_len.
       if 0 < snapshot_len \<and> snapshot_len \<le> n then Inr ((b, snapshot_len) # rest) else ssm_scan h ssm rest)"

definition ssm_truncate :: "radix_tree \<Rightarrow> (nat \<times> nat) list \<Rightarrow> (nat \<times> nat) list res" where
  "ssm_truncate h matched = (case ssm_life_cycle_id (rx_life_cycles h) of
       None \<Rightarrow> Inr matched
     | Some ssm \<Rightarrow> bindR (ssm_scan h ssm (rev matched)) (\<lambda>m. Inr (rev m)))"

text \<open>The first active block whose page is too short cuts the match; \<open>None\<close> when no block does.\<close>

fun attn_scan_blocks :: "radix_tree \<Rightarrow> nat \<Rightarrow> (nat \<times> nat) list \<Rightarrow> nat list \<Rightarrow> (nat \<times> nat) list option res" where
  "attn_scan_blocks h lc matched [] = Inr None"
| "attn_scan_blocks h lc matched (i # is) =
     bindR (list_get matched i) (\<lambda>(b, n).
     bindR (page_coverage h b lc) (\<lambda>coverage.
       if n \<le> coverage then attn_scan_blocks h lc matched is
       else Inr (Some (take i matched @ (if 0 < coverage then [(b, coverage)] else [])))))"

definition active_blocks :: "half_open_range \<Rightarrow> nat \<Rightarrow> nat list" where
  "active_blocks stale n = [0..<nat (fst stale)] @ [nat (snd stale)..<n]"

fun attn_scan :: "radix_tree \<Rightarrow> (nat \<times> nat) list \<Rightarrow> (nat \<times> life_cycle) list \<Rightarrow> (nat \<times> nat) list option res" where
  "attn_scan h matched [] = Inr None"
| "attn_scan h matched ((lc_idx, lc) # lcs) =
     bindR (attn_scan_blocks h lc_idx matched
             (active_blocks (get_stale_range lc (int (num_matched_tokens (rx_tokens_per_block h) matched)) (int (rx_tokens_per_block h)))
               (length matched))) (\<lambda>r. case r of
         None \<Rightarrow> attn_scan h matched lcs
       | Some shorter \<Rightarrow> Inr (Some shorter))"

lemma bindR_cong [fundef_cong]: "m = m' \<Longrightarrow> (\<And>x. m' = Inr x \<Longrightarrow> f x = g x) \<Longrightarrow> bindR m f = bindR m' g"
  by (cases m') auto

lemma ssm_scan_le:
  "ssm_scan h ssm xs = Inr ys \<Longrightarrow> length ys \<le> length xs \<and> (length ys = length xs \<longrightarrow> ys \<noteq> [] \<longrightarrow> snd (hd ys) \<le> snd (hd xs))"
proof (induction xs)
  case (Cons x rest)
  obtain b n where x: "x = (b, n)" by (cases x) auto
  then obtain s where s: "page_coverage h b ssm = Inr s" using Cons.prems by (auto simp: res_iffs)
  show ?case
  proof (cases "0 < s \<and> s \<le> n")
    case True
    then show ?thesis using Cons.prems s x by auto
  next
    case False
    then have "ssm_scan h ssm rest = Inr ys" using Cons.prems s x by auto
    then have "length ys \<le> length rest" using Cons.IH by simp
    then show ?thesis by simp
  qed
qed simp

lemma ssm_truncate_le:
  assumes "ssm_truncate h xs = Inr ys" and "ys \<noteq> []"
  shows "length ys < length xs \<or> length ys = length xs \<and> snd (last ys) \<le> snd (last xs)"
proof (cases "ssm_life_cycle_id (rx_life_cycles h)")
  case None
  then show ?thesis using assms by (simp add: ssm_truncate_def)
next
  case (Some ssm)
  then obtain m where m: "ssm_scan h ssm (rev xs) = Inr m" "ys = rev m"
    using assms(1) by (auto simp: ssm_truncate_def res_iffs)
  then show ?thesis
    using ssm_scan_le [OF m(1)] assms(2) by (cases "length ys = length xs") (auto simp: hd_rev last_rev)
qed

lemma attn_scan_blocks_less:
  "attn_scan_blocks h lc xs is = Inr (Some ys) \<Longrightarrow>
     length ys < length xs \<or> length ys = length xs \<and> snd (last ys) < snd (last xs)"
proof (induction h lc xs "is" rule: attn_scan_blocks.induct)
  case (2 h lc xs i "is")
  then obtain b n cov where g: "i < length xs" "xs ! i = (b, n)" "page_coverage h b lc = Inr cov"
    by (auto simp: res_iffs split: prod.splits)
  show ?case
  proof (cases "n \<le> cov")
    case True
    then show ?thesis using 2 g by auto
  next
    case False
    then have ys: "ys = take i xs @ (if 0 < cov then [(b, cov)] else [])" using 2(2) g by simp
    have "last xs = (b, n)" if "Suc i = length xs" using g(1,2) that last_conv_nth [of xs] by (cases xs) auto
    then show ?thesis using False g(1) ys by (cases "Suc i = length xs") auto
  qed
qed simp

lemma attn_scan_less:
  "attn_scan h xs lcs = Inr (Some ys) \<Longrightarrow> length ys < length xs \<or> length ys = length xs \<and> snd (last ys) < snd (last xs)"
proof (induction h xs lcs rule: attn_scan.induct)
  case (2 h xs lc_idx lc lcs)
  then show ?case by (auto simp: res_iffs split: option.splits dest: attn_scan_blocks_less)
qed simp

function prune_loop :: "radix_tree \<Rightarrow> (nat \<times> nat) list \<Rightarrow> (nat \<times> nat) list res" where
  "prune_loop h matched =
     (if matched = [] then Inr []
      else bindR (ssm_truncate h matched) (\<lambda>m.
        if m = [] then Inr []
        else bindR (attn_scan h m (attention_life_cycles (rx_life_cycles h))) (\<lambda>r. case r of
             None \<Rightarrow> Inr m
           | Some shorter \<Rightarrow> prune_loop h shorter)))"
  by pat_completeness auto

termination
proof (relation "inv_image (less_than <*lex*> less_than) (\<lambda>(h, m). (length m, snd (last m)))", goal_cases)
  case (2 h matched m r shorter)
  then show ?case using ssm_truncate_le [of h matched m] attn_scan_less [of h m "attention_life_cycles (rx_life_cycles h)" shorter] by auto
qed auto

declare prune_loop.simps [simp del]

definition prune_match :: "radix_tree \<Rightarrow> (nat \<times> nat) list \<Rightarrow> (nat \<times> nat) list res" where
  "prune_match h matched =
     assertR (\<forall>x \<in> set (butlast matched). snd x = rx_tokens_per_block h) (prune_loop h matched)"

record reuse_match =
  rm_blocks :: "nat list"
  rm_num_tokens :: nat
  rm_num_lookup_tokens :: nat

definition match :: "bool \<Rightarrow> (byte list \<Rightarrow> byte list) \<Rightarrow> radix_tree \<Rightarrow> int option list \<Rightarrow> token_id_ext list \<Rightarrow> bool \<Rightarrow> reuse_match res" where
  "match ndebug H h reuse_scope tokens enable_partial_match =
     bindR (match_token_path ndebug H h reuse_scope tokens enable_partial_match) (\<lambda>path.
     bindR (prune_match h path) (\<lambda>matched.
       Inr \<lparr>rm_blocks = map fst matched, rm_num_tokens = num_matched_tokens (rx_tokens_per_block h) matched,
            rm_num_lookup_tokens = length tokens\<rparr>))"

section \<open>Endpoints of a match\<close>

definition coverage :: "radix_tree \<Rightarrow> nat \<Rightarrow> nat \<Rightarrow> nat" where
  "coverage h b lc = (case slot_page h b lc of None \<Rightarrow> 0 | Some p \<Rightarrow> cp_num_tokens_in_block (rx_pages h p))"

lemma page_coverage_Inr: "lc < length (blk_storage (rx_blocks h b)) \<Longrightarrow> page_coverage h b lc = Inr (coverage h b lc)"
  by (simp add: page_coverage_def coverage_def)

text \<open>A path: every block but the last is used in full, and none is empty.\<close>

definition path_ok :: "nat \<Rightarrow> (nat \<times> nat) list \<Rightarrow> bool" where
  "path_ok tpb mp \<longleftrightarrow> 0 < tpb \<and> (\<forall>x\<in>set (butlast mp). snd x = tpb) \<and> (\<forall>x\<in>set mp. 0 < snd x \<and> snd x \<le> tpb)"

text \<open>The part of a path that ends after \<open>t\<close> tokens.\<close>

definition prefix_at :: "nat \<Rightarrow> (nat \<times> nat) list \<Rightarrow> nat \<Rightarrow> (nat \<times> nat) list" where
  "prefix_at tpb mp t =
     (if t = 0 then [] else take ((t - 1) div tpb) mp @ [(fst (mp ! ((t - 1) div tpb)), (t - 1) mod tpb + 1)])"

lemma prefix_at_inner:
  assumes "0 < tpb" and "0 < r" and "r \<le> tpb"
  shows "prefix_at tpb mp (j * tpb + r) = take j mp @ [(fst (mp ! j), r)]"
proof -
  have "j * tpb + r - 1 = (r - 1) + j * tpb" using assms by simp
  then have "(j * tpb + r - 1) div tpb = j" "(j * tpb + r - 1) mod tpb = r - 1"
    using assms by (simp_all del: add_diff_assoc2 diff_diff_left)
  then show ?thesis using assms by (simp add: prefix_at_def)
qed

lemma path_full:
  assumes "path_ok tpb mp" and "Suc j < length mp"
  shows "snd (mp ! j) = tpb"
proof -
  have "mp ! j = butlast mp ! j" using assms(2) by (simp add: nth_butlast)
  then have "mp ! j \<in> set (butlast mp)" using assms(2) by (metis Suc_lessE length_butlast diff_Suc_1 nth_mem Suc_less_SucD)
  then show ?thesis using assms(1) by (simp add: path_ok_def)
qed

lemma prefix_at_boundary:
  assumes ok: "path_ok tpb mp" and "j < length mp"
  shows "prefix_at tpb mp (j * tpb) = take j mp"
proof (cases j)
  case 0
  then show ?thesis by (simp add: prefix_at_def)
next
  case (Suc i)
  have tpb: "0 < tpb" using ok by (simp add: path_ok_def)
  have "j * tpb = i * tpb + tpb" using Suc by simp
  then have "prefix_at tpb mp (j * tpb) = take i mp @ [(fst (mp ! i), tpb)]"
    using prefix_at_inner [OF tpb tpb, of mp i] by simp
  moreover have "(fst (mp ! i), tpb) = mp ! i" using path_full [OF ok, of i] Suc assms(2) by (simp add: prod_eq_iff)
  ultimately show ?thesis using Suc assms(2) by (simp add: take_Suc_conv_app_nth)
qed

lemma endpoint_cases:
  assumes "0 < tpb" and "0 < (t :: nat)"
  obtains j r where "t = j * tpb + r" "0 < r" "r \<le> tpb"
proof -
  have "t = (t - 1) div tpb * tpb + ((t - 1) mod tpb + 1)" using assms by simp
  moreover have "(t - 1) mod tpb + 1 \<le> tpb" using assms by (simp add: Suc_leI)
  ultimately show thesis by (intro that [of "(t - 1) div tpb" "(t - 1) mod tpb + 1"]) simp_all
qed

lemma endpoint_less:
  assumes "j * tpb + r \<le> n * tpb + s" and "0 < r" "r \<le> tpb" "0 < s" "s \<le> (tpb :: nat)"
  shows "j < n \<or> j = n \<and> r \<le> s"
proof (rule ccontr)
  assume neg: "\<not> (j < n \<or> j = n \<and> r \<le> s)"
  then have "n < j \<or> (j = n \<and> s < r)" by auto
  then show False
  proof
    assume "n < j"
    then have "n * tpb + tpb \<le> j * tpb" by (metis Suc_leI add.commute mult_Suc mult_le_mono1)
    then show False using assms by linarith
  qed (use assms in simp)
qed

lemma path_is_prefix:
  assumes ok: "path_ok tpb mp"
  shows "prefix_at tpb mp (num_matched_tokens tpb mp) = mp"
proof (cases mp rule: rev_cases)
  case Nil
  then show ?thesis by (simp add: prefix_at_def num_matched_tokens_def)
next
  case (snoc xs x)
  then have x: "0 < snd x" "snd x \<le> tpb" "0 < tpb" using ok by (auto simp: path_ok_def)
  have "num_matched_tokens tpb mp = length xs * tpb + snd x" using snoc by (simp add: num_matched_tokens_def)
  then show ?thesis using prefix_at_inner [OF x(3,1,2), of mp "length xs"] snoc by simp
qed

lemma num_matched_prefix:
  assumes "0 < tpb" and "(t - 1) div tpb < length mp"
  shows "num_matched_tokens tpb (prefix_at tpb mp t) = t"
  using assms by (simp add: prefix_at_def num_matched_tokens_def)

lemma endpoint_in_path:
  assumes ok: "path_ok tpb mp" and "t \<le> num_matched_tokens tpb mp" and "t = j * tpb + r" "0 < r" "r \<le> tpb"
  shows "j < length mp"
proof -
  have ne: "mp \<noteq> []" using assms by (auto simp: num_matched_tokens_def)
  then have s: "0 < snd (last mp)" "snd (last mp) \<le> tpb" using ok by (auto simp: path_ok_def)
  have "j * tpb + r \<le> (length mp - 1) * tpb + snd (last mp)" using assms ne by (simp add: num_matched_tokens_def mult.commute)
  then show ?thesis using endpoint_less [OF _ assms(4,5) s] ne by (cases mp) fastforce+
qed

section \<open>Reusable endpoints\<close>

definition slots_ok :: "radix_tree \<Rightarrow> (nat \<times> nat) list \<Rightarrow> bool" where
  "slots_ok h mp \<longleftrightarrow> (\<forall>x\<in>set mp. length (blk_storage (rx_blocks h (fst x))) = length (lcr_list (rx_life_cycles h)))"

text \<open>
  An endpoint suits the recurrent layers when the snapshot of its block was taken there, and an attention life cycle
  when every block that is not stale there has a page that covers what is used of it.
\<close>

definition ssm_fits :: "radix_tree \<Rightarrow> (nat \<times> nat) list \<Rightarrow> nat \<Rightarrow> bool" where
  "ssm_fits h mp t \<longleftrightarrow> (case ssm_life_cycle_id (rx_life_cycles h) of None \<Rightarrow> True
     | Some ssm \<Rightarrow> coverage h (fst (last (prefix_at (rx_tokens_per_block h) mp t))) ssm = snd (last (prefix_at (rx_tokens_per_block h) mp t)))"

definition attn_fits :: "radix_tree \<Rightarrow> (nat \<times> nat) list \<Rightarrow> nat \<Rightarrow> nat \<Rightarrow> life_cycle \<Rightarrow> bool" where
  "attn_fits h mp t lc_idx lc \<longleftrightarrow>
     (\<forall>i < length (prefix_at (rx_tokens_per_block h) mp t).
        \<not> range_contains (get_stale_range lc (int t) (int (rx_tokens_per_block h))) (int i) \<longrightarrow>
        snd (prefix_at (rx_tokens_per_block h) mp t ! i) \<le> coverage h (fst (mp ! i)) lc_idx)"

definition reusable :: "radix_tree \<Rightarrow> (nat \<times> nat) list \<Rightarrow> nat \<Rightarrow> bool" where
  "reusable h mp t \<longleftrightarrow> 0 < t \<and> ssm_fits h mp t
     \<and> (\<forall>(lc_idx, lc) \<in> set (attention_life_cycles (rx_life_cycles h)). attn_fits h mp t lc_idx lc)"

lemma prefix_slots:
  assumes "slots_ok h mp" and "j < length mp"
  shows "length (blk_storage (rx_blocks h (fst (mp ! j)))) = length (lcr_list (rx_life_cycles h))"
  using assms by (simp add: slots_ok_def)

text \<open>Looking for a snapshot moves the endpoint back to the last one that suits the recurrent layers.\<close>

lemma ssm_scan_endpoint:
  assumes ok: "path_ok tpb mp" "slots_ok h mp" and tpb: "tpb = rx_tokens_per_block h"
    and ssm: "ssm < length (lcr_list (rx_life_cycles h))" "ssm_life_cycle_id (rx_life_cycles h) = Some ssm"
  shows "t \<le> num_matched_tokens tpb mp \<Longrightarrow>
    \<exists>t1 \<le> t. ssm_scan h ssm (rev (prefix_at tpb mp t)) = Inr (rev (prefix_at tpb mp t1)) \<and> (0 < t1 \<longrightarrow> ssm_fits h mp t1)
      \<and> (\<forall>t'. 0 < t' \<and> t' \<le> t \<and> ssm_fits h mp t' \<longrightarrow> t' \<le> t1)"
proof (induction t rule: less_induct)
  case (less t)
  have pos: "0 < tpb" using ok(1) by (simp add: path_ok_def)
  show ?case
  proof (cases "t = 0")
    case True
    then show ?thesis by (simp add: prefix_at_def)
  next
    case False
    then obtain j r where t: "t = j * tpb + r" "0 < r" "r \<le> tpb" using endpoint_cases [OF pos] by blast
    have j: "j < length mp" using endpoint_in_path [OF ok(1) less(2) t] .
    have pre: "prefix_at tpb mp t = take j mp @ [(fst (mp ! j), r)]" using prefix_at_inner [OF pos t(2,3)] t(1) by simp
    let ?s = "coverage h (fst (mp ! j)) ssm"
    have cov: "page_coverage h (fst (mp ! j)) ssm = Inr ?s" using prefix_slots [OF ok(2) j] ssm(1) by (simp add: page_coverage_Inr)
    have fits: "ssm_fits h mp (j * tpb + q) \<longleftrightarrow> ?s = q" if "0 < q" "q \<le> tpb" for q
      using prefix_at_inner [OF pos that, of mp j] ssm(2) tpb by (simp add: ssm_fits_def)
    show ?thesis
    proof (cases "0 < ?s \<and> ?s \<le> r")
      case True
      then have s: "0 < ?s" "?s \<le> tpb" using t by auto
      have "t' \<le> j * tpb + ?s" if t': "0 < t'" "t' \<le> t" "ssm_fits h mp t'" for t'
      proof -
        obtain j' r' where d: "t' = j' * tpb + r'" "0 < r'" "r' \<le> tpb" using endpoint_cases [OF pos t'(1)] by blast
        then have "j' < j \<or> j' = j \<and> r' \<le> r" using endpoint_less [OF _ d(2,3) t(2,3)] t'(2) t(1) by simp
        then show ?thesis
        proof
          assume "j' < j"
          then have "j' * tpb + tpb \<le> j * tpb" by (metis Suc_leI add.commute mult_Suc mult_le_mono1)
          then show ?thesis using d by linarith
        next
          assume "j' = j \<and> r' \<le> r"
          then show ?thesis using t'(3) d fits [of r'] by simp
        qed
      qed
      moreover have "ssm_scan h ssm (rev (prefix_at tpb mp t)) = Inr (rev (prefix_at tpb mp (j * tpb + ?s)))"
        using True cov pre prefix_at_inner [OF pos s, of mp j] by simp
      ultimately show ?thesis using fits [OF s] True t by (intro exI [of _ "j * tpb + ?s"]) simp
    next
      case False
      have step: "ssm_scan h ssm (rev (prefix_at tpb mp t)) = ssm_scan h ssm (rev (prefix_at tpb mp (j * tpb)))"
        using False cov pre prefix_at_boundary [OF ok(1) j] by auto
      have "j * tpb < t" using t by simp
      then obtain t1 where t1: "t1 \<le> j * tpb" "ssm_scan h ssm (rev (prefix_at tpb mp (j * tpb))) = Inr (rev (prefix_at tpb mp t1))"
        "0 < t1 \<longrightarrow> ssm_fits h mp t1" "\<forall>t'. 0 < t' \<and> t' \<le> j * tpb \<and> ssm_fits h mp t' \<longrightarrow> t' \<le> t1"
        using less(1) [of "j * tpb"] less(2) by auto
      have "t' \<le> j * tpb" if t': "0 < t'" "t' \<le> t" "ssm_fits h mp t'" for t'
      proof (rule ccontr)
        assume gt: "\<not> t' \<le> j * tpb"
        define r' where "r' = t' - j * tpb"
        have "t' = j * tpb + r'" "0 < r'" "r' \<le> r" using gt t'(2) t(1) by (simp_all add: r'_def)
        then show False using t'(3) fits [of r'] t(3) False by simp
      qed
      then show ?thesis using step t1 t by (intro exI [of _ t1]) auto
    qed
  qed
qed

lemma ssm_truncate_endpoint:
  assumes "path_ok (rx_tokens_per_block h) mp" "slots_ok h mp" and "registry_ok (rx_life_cycles h)"
    and "t \<le> num_matched_tokens (rx_tokens_per_block h) mp"
  shows "\<exists>t1 \<le> t. ssm_truncate h (prefix_at (rx_tokens_per_block h) mp t) = Inr (prefix_at (rx_tokens_per_block h) mp t1)
      \<and> (0 < t1 \<longrightarrow> ssm_fits h mp t1) \<and> (\<forall>t'. 0 < t' \<and> t' \<le> t \<and> ssm_fits h mp t' \<longrightarrow> t' \<le> t1)"
proof (cases "ssm_life_cycle_id (rx_life_cycles h)")
  case None
  then show ?thesis by (intro exI [of _ t]) (simp add: ssm_truncate_def ssm_fits_def)
next
  case (Some ssm)
  then have "ssm < length (lcr_list (rx_life_cycles h))"
    using registry_ok_lookup [OF assms(3)] by (simp add: ssm_life_cycle_id_def)
  from ssm_scan_endpoint [OF assms(1,2) refl this Some assms(4)]
  show ?thesis using Some by (auto simp: ssm_truncate_def)
qed

text \<open>A block that is stale at an endpoint is stale at every later one.\<close>

definition valid_life_cycle :: "life_cycle \<Rightarrow> bool" where
  "valid_life_cycle lc \<longleftrightarrow> (case lc of AttnLifeCycle w s \<Rightarrow> 0 \<le> s \<and> (\<forall>x. w = Some x \<longrightarrow> 0 < x) | SsmLifeCycle \<Rightarrow> True)"

lemma stale_mono:
  assumes "valid_life_cycle lc" and "0 < tpb" and "t' \<le> t" and "range_contains (get_stale_range lc t' tpb) i"
  shows "range_contains (get_stale_range lc t tpb) i"
proof (cases lc)
  case (AttnLifeCycle w s)
  show ?thesis
  proof (cases w)
    case None
    then show ?thesis using assms(4) stale_contains_no_window AttnLifeCycle by simp
  next
    case (Some x)
    then have "0 < x" "0 \<le> s" using assms(1) AttnLifeCycle by (auto simp: valid_life_cycle_def)
    then have c: "range_contains (get_stale_range lc q tpb) i \<longleftrightarrow> s \<le> i \<and> (i + 1) * tpb \<le> q + 1 - x" for q
      using stale_contains_window [OF assms(2)] Some AttnLifeCycle by metis
    show ?thesis using assms(3,4) unfolding c by simp
  qed
next
  case SsmLifeCycle
  then have c: "range_contains (get_stale_range lc q tpb) i \<longleftrightarrow> 0 \<le> i \<and> (i + 1) * tpb \<le> q" for q
    using stale_contains_ssm [OF assms(2)] by metis
  show ?thesis using assms(3,4) unfolding c by simp
qed

lemma stale_range_bounds:
  assumes "valid_life_cycle lc" and "0 < tpb" and "0 \<le> t"
  shows "0 \<le> fst (get_stale_range lc t tpb) \<and> fst (get_stale_range lc t tpb) \<le> snd (get_stale_range lc t tpb)
    \<and> fst (get_stale_range lc t tpb) \<le> div_up t tpb"
proof (cases lc)
  case (AttnLifeCycle w s)
  then have "0 \<le> s" using assms(1) by (simp add: valid_life_cycle_def)
  then show ?thesis using AttnLifeCycle div_up_nonneg [OF assms(2,3)] by (cases w) (simp_all add: Let_def)
next
  case SsmLifeCycle
  then show ?thesis using assms(2,3) div_up_nonneg [OF assms(2,3)] by (simp add: pos_imp_zdiv_nonneg_iff)
qed

lemma active_blocks_set:
  assumes "valid_life_cycle lc" and "0 < tpb" and "t = j * tpb + r" "0 < r" "r \<le> (tpb :: nat)"
  shows "set (active_blocks (get_stale_range lc (int t) (int tpb)) (Suc j))
    = {i. i < Suc j \<and> \<not> range_contains (get_stale_range lc (int t) (int tpb)) (int i)}"
proof -
  have "div_up (int t) (int tpb) \<le> int (Suc j)"
    using assms(2-5) by (subst div_up_le_iff) (auto simp: algebra_simps)
  then have "0 \<le> fst (get_stale_range lc (int t) (int tpb))" "fst (get_stale_range lc (int t) (int tpb)) \<le> int (Suc j)"
    "fst (get_stale_range lc (int t) (int tpb)) \<le> snd (get_stale_range lc (int t) (int tpb))"
    using stale_range_bounds [OF assms(1), of "int tpb" "int t"] assms(2) by linarith+
  then show ?thesis by (cases "get_stale_range lc (int t) (int tpb)") (auto simp: active_blocks_def)
qed

lemma attn_scan_blocks_spec:
  assumes "\<forall>x\<in>set m. length (blk_storage (rx_blocks h (fst x))) = L" and "lc < L"
  shows "\<forall>i\<in>set is. i < length m \<Longrightarrow>
     attn_scan_blocks h lc m is = Inr None \<and> (\<forall>i\<in>set is. snd (m ! i) \<le> coverage h (fst (m ! i)) lc)
   \<or> (\<exists>i\<in>set is. coverage h (fst (m ! i)) lc < snd (m ! i)
       \<and> attn_scan_blocks h lc m is = Inr (Some (take i m @ (if 0 < coverage h (fst (m ! i)) lc then [(fst (m ! i), coverage h (fst (m ! i)) lc)] else []))))"
proof (induction "is")
  case (Cons i "is")
  obtain b n where bn: "m ! i = (b, n)" by (cases "m ! i") auto
  have i: "i < length m" using Cons.prems by simp
  then have "length (blk_storage (rx_blocks h b)) = L" using assms(1) bn nth_mem [of i m] by force
  then have cov: "page_coverage h b lc = Inr (coverage h b lc)" using assms(2) by (simp add: page_coverage_Inr)
  show ?case
  proof (cases "n \<le> coverage h b lc")
    case True
    then have "attn_scan_blocks h lc m (i # is) = attn_scan_blocks h lc m is" using i bn cov by simp
    then show ?thesis using Cons True bn by auto
  next
    case False
    then show ?thesis using i bn cov by (intro disjI2 bexI [of _ i]) simp_all
  qed
qed simp

text \<open>A block that is too short moves the endpoint back, and no reusable endpoint is skipped.\<close>

lemma attn_cut_endpoint:
  assumes ok: "path_ok tpb mp" and tpb: "tpb = rx_tokens_per_block h" and valid: "valid_life_cycle lc"
    and t: "t = j * tpb + r" "0 < r" "r \<le> tpb" and j: "j < length mp"
    and i: "i < Suc j" "\<not> range_contains (get_stale_range lc (int t) (int tpb)) (int i)"
    and short: "coverage h (fst (mp ! i)) lc_idx < snd (prefix_at tpb mp t ! i)"
  shows "i * tpb + coverage h (fst (mp ! i)) lc_idx < t"
    and "take i (prefix_at tpb mp t) @ (if 0 < coverage h (fst (mp ! i)) lc_idx then [(fst (mp ! i), coverage h (fst (mp ! i)) lc_idx)] else [])
      = prefix_at tpb mp (i * tpb + coverage h (fst (mp ! i)) lc_idx)"
    and "\<And>t'. 0 < t' \<Longrightarrow> t' \<le> t \<Longrightarrow> attn_fits h mp t' lc_idx lc \<Longrightarrow> t' \<le> i * tpb + coverage h (fst (mp ! i)) lc_idx"
proof -
  let ?c = "coverage h (fst (mp ! i)) lc_idx"
  have pos: "0 < tpb" using ok by (simp add: path_ok_def)
  have pre: "prefix_at tpb mp t = take j mp @ [(fst (mp ! j), r)]" using prefix_at_inner [OF pos t(2,3)] t(1) by simp
  have need: "snd (prefix_at tpb mp t ! i) = (if i < j then tpb else r)"
    using i(1) j path_full [OF ok, of i] by (auto simp: pre nth_append less_Suc_eq)
  have c: "?c < tpb" using short need t(3) by (auto split: if_splits)
  have lt: "i * tpb + ?c < t \<and> i * tpb < t"
  proof (cases "i < j")
    case True
    then have "i * tpb + tpb \<le> j * tpb" by (metis Suc_leI add.commute mult_Suc mult_le_mono1)
    then show ?thesis using c t by linarith
  next
    case False
    then have "i = j" using i(1) by simp
    then show ?thesis using short need t by simp
  qed
  then show "i * tpb + ?c < t" by simp
  have "take i (prefix_at tpb mp t) = take i mp" using i(1) j by (simp add: pre)
  moreover have i_lt: "i < length mp" using i(1) j by simp
  ultimately show "take i (prefix_at tpb mp t) @ (if 0 < ?c then [(fst (mp ! i), ?c)] else []) = prefix_at tpb mp (i * tpb + ?c)"
    using prefix_at_inner [OF pos, of ?c mp i] prefix_at_boundary [OF ok i_lt] c by simp
  show "t' \<le> i * tpb + ?c" if t': "0 < t'" "t' \<le> t" "attn_fits h mp t' lc_idx lc" for t'
  proof (rule ccontr)
    assume gt: "\<not> t' \<le> i * tpb + ?c"
    obtain j' r' where d: "t' = j' * tpb + r'" "0 < r'" "r' \<le> tpb" using endpoint_cases [OF pos t'(1)] by blast
    have "j' \<le> j" using endpoint_less [of j' tpb r' j r] d t t'(2) by auto
    have ij: "i < j' \<or> i = j' \<and> ?c < r'"
    proof (rule ccontr)
      assume "\<not> (i < j' \<or> i = j' \<and> ?c < r')"
      then have "j' < i \<or> (j' = i \<and> r' \<le> ?c)" by auto
      then show False
      proof
        assume "j' < i"
        then have "j' * tpb + tpb \<le> i * tpb" by (metis Suc_leI add.commute mult_Suc mult_le_mono1)
        then show False using gt d by linarith
      qed (use gt d in simp)
    qed
    have pre': "prefix_at tpb mp t' = take j' mp @ [(fst (mp ! j'), r')]" using prefix_at_inner [OF pos d(2,3)] d(1) by simp
    have len: "i < length (prefix_at tpb mp t')" using ij \<open>j' \<le> j\<close> j by (auto simp: pre')
    have "snd (prefix_at tpb mp t' ! i) = (if i < j' then tpb else r')"
      using ij \<open>j' \<le> j\<close> j path_full [OF ok, of i] by (auto simp: pre' nth_append)
    then have "?c < snd (prefix_at tpb mp t' ! i)" using ij c by auto
    then have "range_contains (get_stale_range lc (int t') (int tpb)) (int i)"
      using t'(3) len unfolding attn_fits_def tpb [symmetric] by (meson not_less)
    then have "range_contains (get_stale_range lc (int t) (int tpb)) (int i)"
      using stale_mono [OF valid, of "int tpb" "int t'" "int t" "int i"] pos t'(2) by simp
    then show False using i(2) by simp
  qed
qed

lemma attn_scan_endpoint:
  assumes ok: "path_ok tpb mp" "slots_ok h mp" and tpb: "tpb = rx_tokens_per_block h"
    and t: "0 < t" "t \<le> num_matched_tokens tpb mp"
  shows "\<forall>(lc_idx, lc) \<in> set lcs. valid_life_cycle lc \<and> lc_idx < length (lcr_list (rx_life_cycles h)) \<Longrightarrow>
     attn_scan h (prefix_at tpb mp t) lcs = Inr None \<and> (\<forall>(lc_idx, lc) \<in> set lcs. attn_fits h mp t lc_idx lc)
   \<or> (\<exists>t2 < t. attn_scan h (prefix_at tpb mp t) lcs = Inr (Some (prefix_at tpb mp t2))
       \<and> (\<forall>t'. 0 < t' \<and> t' \<le> t \<and> (\<forall>(lc_idx, lc) \<in> set lcs. attn_fits h mp t' lc_idx lc) \<longrightarrow> t' \<le> t2))"
proof (induction lcs)
  case (Cons x lcs)
  obtain lc_idx lc where x: "x = (lc_idx, lc)" by (cases x) auto
  have valid: "valid_life_cycle lc" "lc_idx < length (lcr_list (rx_life_cycles h))" using Cons.prems x by auto
  have pos: "0 < tpb" using ok(1) by (simp add: path_ok_def)
  obtain j r where d: "t = j * tpb + r" "0 < r" "r \<le> tpb" using endpoint_cases [OF pos t(1)] by blast
  have j: "j < length mp" by (rule endpoint_in_path [OF ok(1) t(2) d])
  let ?m = "prefix_at tpb mp t"
  have pre: "?m = take j mp @ [(fst (mp ! j), r)]" using prefix_at_inner [OF pos d(2,3)] d(1) by simp
  then have len: "length ?m = Suc j" and blocks: "\<And>i. i < Suc j \<Longrightarrow> fst (?m ! i) = fst (mp ! i)"
    using j by (auto simp: nth_append less_Suc_eq)
  have num: "num_matched_tokens tpb ?m = t" unfolding pre using d j by (simp add: num_matched_tokens_def)
  let ?stale = "get_stale_range lc (int t) (int tpb)"
  let ?is = "active_blocks ?stale (Suc j)"
  have act: "set ?is = {i. i < Suc j \<and> \<not> range_contains ?stale (int i)}" by (rule active_blocks_set [OF valid(1) pos d])
  have "\<forall>x\<in>set ?m. length (blk_storage (rx_blocks h (fst x))) = length (lcr_list (rx_life_cycles h))"
    using ok(2) j by (auto simp: pre slots_ok_def dest: in_set_takeD)
  from attn_scan_blocks_spec [OF this valid(2), of ?is]
  have scan: "attn_scan_blocks h lc_idx ?m ?is = Inr None \<and> (\<forall>i\<in>set ?is. snd (?m ! i) \<le> coverage h (fst (?m ! i)) lc_idx)
   \<or> (\<exists>i\<in>set ?is. coverage h (fst (?m ! i)) lc_idx < snd (?m ! i)
       \<and> attn_scan_blocks h lc_idx ?m ?is = Inr (Some (take i ?m @ (if 0 < coverage h (fst (?m ! i)) lc_idx then [(fst (?m ! i), coverage h (fst (?m ! i)) lc_idx)] else []))))"
    using act len by auto
  have run: "attn_scan h ?m (x # lcs) = bindR (attn_scan_blocks h lc_idx ?m ?is) (\<lambda>r. case r of
         None \<Rightarrow> attn_scan h ?m lcs | Some shorter \<Rightarrow> Inr (Some shorter))"
    using x num len by (simp add: tpb [symmetric])
  from scan show ?case
  proof (elim disjE bexE conjE)
    assume none: "attn_scan_blocks h lc_idx ?m ?is = Inr None" and all: "\<forall>i\<in>set ?is. snd (?m ! i) \<le> coverage h (fst (?m ! i)) lc_idx"
    have fits: "attn_fits h mp t lc_idx lc"
      unfolding attn_fits_def tpb [symmetric] using all act len blocks by auto
    have "attn_scan h ?m (x # lcs) = attn_scan h ?m lcs" using run none by simp
    moreover have "\<forall>(lc_idx, lc) \<in> set lcs. valid_life_cycle lc \<and> lc_idx < length (lcr_list (rx_life_cycles h))" using Cons.prems by simp
    ultimately show ?thesis using Cons.IH fits x by auto
  next
    fix i assume i: "i \<in> set ?is" and short: "coverage h (fst (?m ! i)) lc_idx < snd (?m ! i)"
      and cut: "attn_scan_blocks h lc_idx ?m ?is = Inr (Some (take i ?m @ (if 0 < coverage h (fst (?m ! i)) lc_idx then [(fst (?m ! i), coverage h (fst (?m ! i)) lc_idx)] else [])))"
    have i': "i < Suc j" "\<not> range_contains ?stale (int i)" using i act by auto
    have short': "coverage h (fst (mp ! i)) lc_idx < snd (?m ! i)" using short blocks [OF i'(1)] by simp
    note E = attn_cut_endpoint [OF ok(1) tpb valid(1) d j i' short']
    let ?t2 = "i * tpb + coverage h (fst (mp ! i)) lc_idx"
    have "attn_scan h ?m (x # lcs) = Inr (Some (prefix_at tpb mp ?t2))"
      unfolding run cut blocks [OF i'(1)] E(2) by simp
    moreover have "t' \<le> ?t2" if "0 < t'" "t' \<le> t" "\<forall>(lc_idx, lc) \<in> set (x # lcs). attn_fits h mp t' lc_idx lc" for t'
      using that x by (intro E(3)) auto
    ultimately show ?thesis using E(1) by (intro disjI2 exI [of _ ?t2]) blast
  qed
qed simp

lemma attention_ids:
  "(lc_idx, lc) \<in> set (attention_life_cycles r) \<Longrightarrow> lc_idx < length (lcr_list r) \<and> lc = lcr_list r ! lc_idx"
  by (auto simp: attention_life_cycles_def registry_items_def in_set_enumerate_eq)

definition registry_valid :: "life_cycle_registry \<Rightarrow> bool" where
  "registry_valid r \<longleftrightarrow> registry_ok r \<and> (\<forall>lc\<in>set (lcr_list r). valid_life_cycle lc)"

lemma prune_loop_endpoint:
  assumes ok: "path_ok tpb mp" "slots_ok h mp" and tpb: "tpb = rx_tokens_per_block h" and reg: "registry_valid (rx_life_cycles h)"
  shows "t \<le> num_matched_tokens tpb mp \<Longrightarrow>
    \<exists>t1 \<le> t. prune_loop h (prefix_at tpb mp t) = Inr (prefix_at tpb mp t1) \<and> (0 < t1 \<longrightarrow> reusable h mp t1)
      \<and> (\<forall>t' \<le> t. reusable h mp t' \<longrightarrow> t' \<le> t1)"
proof (induction t rule: less_induct)
  case (less t)
  let ?lcs = "attention_life_cycles (rx_life_cycles h)"
  have lcs: "\<forall>(lc_idx, lc) \<in> set ?lcs. valid_life_cycle lc \<and> lc_idx < length (lcr_list (rx_life_cycles h))"
    using reg attention_ids by (fastforce simp: registry_valid_def)
  have reg_ok: "registry_ok (rx_life_cycles h)" using reg by (simp add: registry_valid_def)
  have ne: "prefix_at tpb mp q = [] \<longleftrightarrow> q = 0" for q by (simp add: prefix_at_def)
  show ?case
  proof (cases "t = 0")
    case True
    then show ?thesis by (simp add: prefix_at_def prune_loop.simps)
  next
    case False
    obtain t1 where t1: "t1 \<le> t" "ssm_truncate h (prefix_at tpb mp t) = Inr (prefix_at tpb mp t1)" "0 < t1 \<longrightarrow> ssm_fits h mp t1"
      "\<forall>t'. 0 < t' \<and> t' \<le> t \<and> ssm_fits h mp t' \<longrightarrow> t' \<le> t1"
      using ssm_truncate_endpoint [of h mp t] ok reg_ok less(2) tpb by auto
    have upper: "t' \<le> t1" if "t' \<le> t" "reusable h mp t'" for t' using that t1(4) by (simp add: reusable_def)
    show ?thesis
    proof (cases "t1 = 0")
      case True
      then have "prune_loop h (prefix_at tpb mp t) = Inr (prefix_at tpb mp 0)"
        using False t1(2) ne by (subst prune_loop.simps) (simp add: prefix_at_def)
      then show ?thesis using True upper by (intro exI [of _ 0]) simp
    next
      case pos: False
      then have t1_pos: "0 < t1" by simp
      have "t1 \<le> num_matched_tokens tpb mp" using t1(1) less(2) by simp
      from attn_scan_endpoint [OF ok tpb t1_pos this lcs] show ?thesis
      proof (elim disjE exE conjE)
        assume "attn_scan h (prefix_at tpb mp t1) ?lcs = Inr None" and fits: "\<forall>(lc_idx, lc) \<in> set ?lcs. attn_fits h mp t1 lc_idx lc"
        then have "prune_loop h (prefix_at tpb mp t) = Inr (prefix_at tpb mp t1)"
          using False t1(2) ne pos by (subst prune_loop.simps) simp
        moreover have "reusable h mp t1" using fits t1(3) t1_pos by (simp add: reusable_def)
        ultimately show ?thesis using t1(1) upper by (intro exI [of _ t1]) simp
      next
        fix t2 assume t2: "t2 < t1" "attn_scan h (prefix_at tpb mp t1) ?lcs = Inr (Some (prefix_at tpb mp t2))"
          and up2: "\<forall>t'. 0 < t' \<and> t' \<le> t1 \<and> (\<forall>(lc_idx, lc) \<in> set ?lcs. attn_fits h mp t' lc_idx lc) \<longrightarrow> t' \<le> t2"
        have run: "prune_loop h (prefix_at tpb mp t) = prune_loop h (prefix_at tpb mp t2)"
          using False t1(2) t2(2) ne pos by (subst prune_loop.simps) simp
        obtain t3 where "t3 \<le> t2" "prune_loop h (prefix_at tpb mp t2) = Inr (prefix_at tpb mp t3)" "0 < t3 \<longrightarrow> reusable h mp t3"
          "\<forall>t' \<le> t2. reusable h mp t' \<longrightarrow> t' \<le> t3"
          using less(1) [of t2] less(2) t1(1) t2(1) by auto
        moreover have "t' \<le> t2" if "t' \<le> t" "reusable h mp t'" for t' using upper [OF that] up2 that by (simp add: reusable_def)
        ultimately show ?thesis using run t1(1) t2(1) by (intro exI [of _ t3]) auto
      qed
    qed
  qed
qed

section \<open>The walk finds what is stored\<close>

lemma partial_match_spec:
  "partial_match_this_node as bs \<le> length as \<and> partial_match_this_node as bs \<le> length bs
    \<and> take (partial_match_this_node as bs) bs = take (partial_match_this_node as bs) as"
  by (induction as bs rule: partial_match_this_node.induct) auto

lemma best_partial_spec:
  "best_partial h tokens best d = (Some b, n) \<Longrightarrow>
     best = (Some b, n) \<or> (\<exists>k. (k, b) \<in> set d \<and> n = partial_match_this_node tokens (blk_tokens (rx_blocks h b)) \<and> 0 < n)"
proof (induction h tokens best d rule: best_partial.induct)
  case (2 h tokens best_block best_len k c d)
  let ?m = "partial_match_this_node tokens (blk_tokens (rx_blocks h c))"
  show ?case
  proof (cases "best_len < ?m")
    case True
    then show ?thesis using 2 by (auto simp: Let_def)
  next
    case False
    then show ?thesis using 2 by (auto simp: Let_def)
  qed
qed simp

lemma find_best_spec:
  "find_best_partial_match_in_next_nodes h n tokens = (Some b, m) \<Longrightarrow>
     \<exists>k. (k, b) \<in> set (node_next h n) \<and> m = partial_match_this_node tokens (blk_tokens (rx_blocks h b)) \<and> 0 < m"
  using best_partial_spec [of h tokens "(None, 0)" "node_next h n" b m]
  by (auto simp: find_best_partial_match_in_next_nodes_def split: if_splits)

text \<open>Each block of a match holds the tokens of the query at its place.\<close>

definition agrees :: "radix_tree \<Rightarrow> token_id_ext list \<Rightarrow> (nat \<times> nat) list \<Rightarrow> bool" where
  "agrees h tokens mp \<longleftrightarrow> (\<forall>i < length mp.
     snd (mp ! i) \<le> length (blk_tokens (rx_blocks h (fst (mp ! i)))) \<and> i * rx_tokens_per_block h + snd (mp ! i) \<le> length tokens
   \<and> take (snd (mp ! i)) (blk_tokens (rx_blocks h (fst (mp ! i)))) = take (snd (mp ! i)) (drop (i * rx_tokens_per_block h) tokens))"

lemma agrees_Cons:
  assumes "tpb = rx_tokens_per_block h" and "agrees h (drop tpb tokens) mp"
    and "n \<le> length (blk_tokens (rx_blocks h b))" "n \<le> length tokens" "take n (blk_tokens (rx_blocks h b)) = take n tokens"
    and "mp \<noteq> [] \<Longrightarrow> tpb \<le> length tokens"
  shows "agrees h tokens ((b, n) # mp)"
  unfolding agrees_def
proof (intro allI impI)
  fix i assume i: "i < length ((b, n) # mp)"
  show "snd (((b, n) # mp) ! i) \<le> length (blk_tokens (rx_blocks h (fst (((b, n) # mp) ! i))))
    \<and> i * rx_tokens_per_block h + snd (((b, n) # mp) ! i) \<le> length tokens
    \<and> take (snd (((b, n) # mp) ! i)) (blk_tokens (rx_blocks h (fst (((b, n) # mp) ! i))))
        = take (snd (((b, n) # mp) ! i)) (drop (i * rx_tokens_per_block h) tokens)"
  proof (cases i)
    case 0
    then show ?thesis using assms(3-5) by simp
  next
    case (Suc j)
    then have j: "j < length mp" using i by simp
    then have "mp \<noteq> []" by auto
    then have "tpb \<le> length tokens" using assms(6) by simp
    then show ?thesis using assms(1,2) j Suc unfolding agrees_def by (auto simp: add.commute)
  qed
qed

text \<open>A chain of stored blocks below a node that holds a given list of token blocks.\<close>

fun stored :: "radix_tree \<Rightarrow> node \<Rightarrow> token_id_ext list list \<Rightarrow> nat list \<Rightarrow> bool" where
  "stored h n [] [] \<longleftrightarrow> True"
| "stored h n (c # cs) (b # bs) \<longleftrightarrow> (\<exists>k. (k, b) \<in> set (node_next h n)) \<and> blk_tokens (rx_blocks h b) = c \<and> stored h (BlockNode b) cs bs"
| "stored h n _ _ \<longleftrightarrow> False"

text \<open>The byte strings hashed for the children of a node and for the blocks of a query below it.\<close>

definition tree_inputs :: "radix_tree \<Rightarrow> token_id_ext list list \<Rightarrow> byte list set" where
  "tree_inputs h cs = {node_key h n @ array_bytes t | n t. node_next h n \<noteq> []
     \<and> (t \<in> set cs \<or> (\<exists>(k, c) \<in> set (node_next h n). t = blk_tokens (rx_blocks h c)))}"

definition uint64_tree :: "radix_tree \<Rightarrow> bool" where
  "uint64_tree h \<longleftrightarrow> (\<forall>n k c. (k, c) \<in> set (node_next h n) \<longrightarrow> list_all is_uint64 (blk_tokens (rx_blocks h c)))"

lemma key_of_child:
  assumes "links_ok h" "tokens_ok ndebug H h" and "uint64_tree h" and "inj_on H (tree_inputs h cs)"
    and "t \<in> set cs" and "list_all is_uint64 t"
  shows "map_of (node_next h n) (H (node_key h n @ array_bytes t)) = Some b
    \<longleftrightarrow> (\<exists>k. (k, b) \<in> set (node_next h n)) \<and> blk_tokens (rx_blocks h b) = t"
proof
  assume "map_of (node_next h n) (H (node_key h n @ array_bytes t)) = Some b"
  then have b: "(H (node_key h n @ array_bytes t), b) \<in> set (node_next h n)" by (rule map_of_SomeD)
  then have u: "list_all is_uint64 (blk_tokens (rx_blocks h b))" using assms(3) unfolding uint64_tree_def by blast
  have "H (node_key h n @ array_bytes (blk_tokens (rx_blocks h b))) = H (node_key h n @ array_bytes t)"
    using tokens_okD(1) [OF assms(2) b] block_key_uint64 [OF u] by simp
  moreover have "node_next h n \<noteq> []" using b by auto
  then have "node_key h n @ array_bytes t \<in> tree_inputs h cs" "node_key h n @ array_bytes (blk_tokens (rx_blocks h b)) \<in> tree_inputs h cs"
    using assms(5) b unfolding tree_inputs_def by blast+
  ultimately have "array_bytes (blk_tokens (rx_blocks h b)) = array_bytes t" using assms(4) by (auto dest: inj_onD)
  then show "(\<exists>k. (k, b) \<in> set (node_next h n)) \<and> blk_tokens (rx_blocks h b) = t" using array_bytes_inj u assms(6) b by blast
next
  assume "(\<exists>k. (k, b) \<in> set (node_next h n)) \<and> blk_tokens (rx_blocks h b) = t"
  then obtain k where k: "(k, b) \<in> set (node_next h n)" "blk_tokens (rx_blocks h b) = t" by blast
  then have "k = H (node_key h n @ array_bytes t)"
    using tokens_okD(1) [OF assms(2) k(1)] block_key_uint64 [OF assms(6)] by simp
  then show "map_of (node_next h n) (H (node_key h n @ array_bytes t)) = Some b"
    using k(1) links_okD(1) [OF assms(1), of n] by simp
qed

lemma match_blocks_path:
  assumes ok: "links_ok h" "tokens_ok ndebug H h" "alloc_ok h" and tree: "uint64_tree h" "inj_on H (tree_inputs h cs)"
    and tpb: "tpb = rx_tokens_per_block h" "0 < tpb"
  shows "\<lbrakk>list_all is_uint64 tokens; set (chunked tokens tpb) \<subseteq> set cs; digest = node_key h n\<rbrakk> \<Longrightarrow>
    \<exists>mp. match_blocks ndebug H h partial n digest tokens = Inr mp \<and> path_ok tpb mp \<and> slots_ok h mp \<and> agrees h tokens mp
      \<and> (\<forall>k bs. stored h n (take k (chunked tokens tpb)) bs \<longrightarrow> take (length bs) (map fst mp) = bs)"
proof (induction "length tokens" arbitrary: tokens n digest rule: less_induct)
  case less
  let ?tb = "take tpb tokens" and ?rest = "drop tpb tokens"
  show ?case
  proof (cases "tokens = []")
    case True
    have "[] = bs" if "stored h n [] bs" for bs using that by (cases bs) auto
    then show ?thesis using True tpb by (intro exI [of _ "[]"]) (simp add: match_blocks.simps path_ok_def slots_ok_def agrees_def)
  next
    case False
    have ch: "chunked tokens tpb = ?tb # chunked ?rest tpb" using False tpb(2) by (rule chunked_step [rotated])
    have u: "list_all is_uint64 ?tb" "list_all is_uint64 ?rest"
      using less(2) by (auto simp: list_all_iff dest: in_set_takeD in_set_dropD)
    have tb: "?tb \<in> set cs" "?tb \<noteq> []" using less(3) ch False tpb(2) by auto
    let ?key = "H (digest @ array_bytes ?tb)"
    have key: "block_key ndebug H digest ?tb = Inr ?key" by (rule block_key_uint64 [OF u(1)])
    note child = key_of_child [OF ok(1,2) tree tb(1) u(1), of n]
    have lens: "length ?tb \<le> tpb" "length ?tb \<le> length tokens" "0 < length ?tb" using tb(2) by auto
    have slot: "length (blk_storage (rx_blocks h b)) = length (lcr_list (rx_life_cycles h))" if "(k, b) \<in> set (node_next h n)" for k b
      using links_okD(2) [OF ok(1) that] links_okD(4) [OF ok(1), of b n] alloc_okD(2) [OF ok(3), of b] by auto
    show ?thesis
    proof (cases "map_of (node_next h n) ?key")
      case (Some b)
      then have b: "(?key, b) \<in> set (node_next h n)" "blk_tokens (rx_blocks h b) = ?tb"
        using child [of b] map_of_SomeD [OF Some] less(4) by simp_all
      have kb: "?key = node_key h (BlockNode b)" using links_okD(2) [OF ok(1) b(1)] by simp
      have "length ?rest < length tokens" using False tpb(2) by simp
      from less(1) [OF this u(2) _ kb] less(3) ch
      obtain mp where mp: "match_blocks ndebug H h partial (BlockNode b) ?key ?rest = Inr mp" "path_ok tpb mp" "slots_ok h mp" "agrees h ?rest mp"
        "\<forall>k bs. stored h (BlockNode b) (take k (chunked ?rest tpb)) bs \<longrightarrow> take (length bs) (map fst mp) = bs" by auto
      have run: "match_blocks ndebug H h partial n digest tokens = Inr ((b, length ?tb) # mp)"
        using tb(2) key Some mp(1) by (subst match_blocks.simps) (simp add: tpb(1) [symmetric])
      have full: "tpb \<le> length tokens" if "mp \<noteq> []"
      proof (rule ccontr)
        assume "\<not> tpb \<le> length tokens"
        then have "mp = []" using mp(1) by (simp add: match_blocks.simps)
        then show False using that by simp
      qed
      have "path_ok tpb ((b, length ?tb) # mp)"
        using mp(2) lens full by (cases mp) (auto simp: path_ok_def)
      moreover have "slots_ok h ((b, length ?tb) # mp)" using mp(3) slot [OF b(1)] by (simp add: slots_ok_def)
      moreover have "agrees h tokens ((b, length ?tb) # mp)"
        using mp(4) lens(2) full b(2) by (intro agrees_Cons [OF tpb(1)]) simp_all
      moreover have "take (length bs) (map fst ((b, length ?tb) # mp)) = bs" if st: "stored h n (take k (chunked tokens tpb)) bs" for k bs
      proof (cases bs)
        case (Cons c cs')
        then obtain k' where k': "k = Suc k'" using st by (cases k) auto
        then have "(\<exists>k. (k, c) \<in> set (node_next h n)) \<and> blk_tokens (rx_blocks h c) = ?tb" and below: "stored h (BlockNode c) (take k' (chunked ?rest tpb)) cs'"
          using st Cons ch by auto
        then have "c = b" using child [of c] Some less(4) by simp
        then show ?thesis using mp(5) below Cons by simp
      qed simp
      ultimately show ?thesis using run by blast
    next
      case None
      have empty: "bs = []" if st: "stored h n (take k (chunked tokens tpb)) bs" for k bs
      proof (cases bs)
        case (Cons c cs')
        then have "(\<exists>k. (k, c) \<in> set (node_next h n)) \<and> blk_tokens (rx_blocks h c) = ?tb" using st ch by (cases k) auto
        then show ?thesis using child [of c] None less(4) by simp
      qed simp
      let ?found = "if partial then (case find_best_partial_match_in_next_nodes h n ?tb of (None, _) \<Rightarrow> [] | (Some b, match_len) \<Rightarrow> [(b, match_len)]) else []"
      have run: "match_blocks ndebug H h partial n digest tokens = Inr ?found"
        using tb(2) key None by (subst match_blocks.simps) (simp add: tpb(1) [symmetric])
      have "?found = [] \<or> (\<exists>b m. ?found = [(b, m)] \<and> find_best_partial_match_in_next_nodes h n ?tb = (Some b, m))"
        by (cases "find_best_partial_match_in_next_nodes h n ?tb") (auto split: option.splits)
      then have "path_ok tpb ?found \<and> slots_ok h ?found \<and> agrees h tokens ?found"
      proof (elim disjE exE conjE)
        assume "?found = []"
        then show ?thesis using tpb(2) by (simp only: path_ok_def slots_ok_def agrees_def) simp
      next
        fix b m assume f: "?found = [(b, m)]" and best: "find_best_partial_match_in_next_nodes h n ?tb = (Some b, m)"
        then obtain k where k: "(k, b) \<in> set (node_next h n)" "m = partial_match_this_node ?tb (blk_tokens (rx_blocks h b))" "0 < m"
          using find_best_spec by blast
        have pm: "m \<le> length ?tb" "m \<le> length (blk_tokens (rx_blocks h b))" "take m (blk_tokens (rx_blocks h b)) = take m ?tb"
          using partial_match_spec [of ?tb "blk_tokens (rx_blocks h b)"] k(2) by simp_all
        then have "take m (blk_tokens (rx_blocks h b)) = take m tokens" by simp
        then have "agrees h tokens [(b, m)]"
          using pm lens by (intro agrees_Cons [OF tpb(1)]) (simp_all add: agrees_def)
        moreover have "path_ok tpb [(b, m)]" "slots_ok h [(b, m)]" using k(3) pm(1) tpb(2) slot [OF k(1)] by (simp_all add: path_ok_def slots_ok_def)
        ultimately show ?thesis unfolding f by simp
      qed
      moreover have "take (length bs) (map fst ?found) = bs" if "stored h n (take k (chunked tokens tpb)) bs" for k bs
        using empty [OF that] by simp
      ultimately show ?thesis using run by blast
    qed
  qed
qed

section \<open>Examples\<close>

text \<open>Two blocks of two tokens; the page of the second covers one token.\<close>

definition example_pages_store :: radix_tree where
  "example_pages_store = (let h = radix_tree_init \<lparr>lcr_list = [AttnLifeCycle None 0], lcr_id_dict = [(AttnLifeCycle None 0, 0)]\<rparr> 2 False
     in h\<lparr>rx_num_blocks := 2,
          rx_blocks := (rx_blocks h)(0 := (rx_blocks h 0)\<lparr>blk_storage := [Some 0]\<rparr>, 1 := (rx_blocks h 1)\<lparr>blk_storage := [Some 1]\<rparr>),
          rx_pages := (rx_pages h)(0 := (rx_pages h 0)\<lparr>cp_num_tokens_in_block := 2, cp_block := Some 0\<rparr>,
            1 := (rx_pages h 1)\<lparr>cp_num_tokens_in_block := 1, cp_block := Some 1\<rparr>)\<rparr>)"

text \<open>A tree with one root block and one full block below it.\<close>

lemma example_one_block:
  "\<exists>h key. tree_ok False pad_hash h \<and> uint64_tree h \<and> rx_tokens_per_block h = 2 \<and> registry_valid (rx_life_cycles h)
    \<and> root_key pad_hash [None, None] = Inr key \<and> map_of (rx_next h) key = Some 0
    \<and> stored h (RootNode 0) [[Tok 1, Tok 2]] [0] \<and> inj_on pad_hash (tree_inputs h [[Tok 1, Tok 2]])"
proof -
  let ?r = "\<lparr>lcr_list = [AttnLifeCycle None 0], lcr_id_dict = [(AttnLifeCycle None 0, 0)]\<rparr>" and ?ts = "[Tok 1, Tok 2]"
  define h0 where "h0 = radix_tree_init ?r 2 True"
  obtain b where "reuse_scope_to_bytes [None, None] = Inr b" using reuse_scope_defined [of "[None, None]"] by auto
  then obtain rk where rk: "root_key pad_hash [None, None] = Inr rk" by (simp add: root_key_def)
  define h where "h = h0\<lparr>rx_roots := (rx_roots h0)(0 := \<lparr>rb_key = rk, rb_reuse_scope = [None, None], rb_attached = True, rb_next = []\<rparr>),
      rx_num_roots := 1, rx_next := [(rk, 0)]\<rparr>"
  have run: "add_or_get_existing pad_hash h0 [None, None] = Inr (h, 0)"
    using rk by (simp add: add_or_get_existing_def add_root_def h_def h0_def radix_tree_init_def)
  have next_h: "node_next h n = []" for n by (cases n) (simp_all add: h_def h0_def radix_tree_init_def)
  have h: "rx_tokens_per_block h = 2" "rx_life_cycles h = ?r" "rx_next h = [(rk, 0)]" "rx_num_blocks h = 0"
    by (simp_all add: h_def h0_def radix_tree_init_def)
  have "tree_ok False pad_hash h0" unfolding h0_def by (rule tree_ok_init) (simp add: registry_ok_def)
  from add_root_ok [OF this run] have ok: "tree_ok False pad_hash h" and open_h: "open_node h (RootNode 0)" by simp_all
  then have parts: "links_ok h" "pages_ok h" "tokens_ok False pad_hash h" "alloc_ok h" by (simp_all add: tree_ok_def)
  note O = open_node_attributes [OF parts(1,3,4) open_h]
  define key where "key = pad_hash (node_key h (RootNode 0) @ array_bytes ?ts)"
  have key: "block_key False pad_hash (node_key h (RootNode 0)) ?ts = Inr key" unfolding key_def by (rule block_key_uint64) simp
  define g where "g = linked h (RootNode 0) key ?ts 1"
  have nb: "RootNode 0 \<noteq> BlockNode (rx_num_blocks h)" by simp
  have fresh: "map_of (node_next h (RootNode 0)) key = None" by (simp only: next_h) simp
  have nexts: "node_next g m = (if m = RootNode 0 then [(key, 0)] else [])" for m
    unfolding g_def using next_h [of "RootNode 0"] by (simp add: linked_next [OF nb fresh] h(4) next_h)
  have added: "block_added h (RootNode 0) key ?ts g"
    using block_added_plain [OF parts(1,3,4) open_h fresh, of ?ts] h(2) unfolding next_h by (simp add: g_def)
  have "links_ok g" unfolding g_def by (rule links_ok_linked [OF parts(1,4) O(5,6) fresh O(7)])
  moreover have "pages_ok g" unfolding g_def using parts(2) pages_ok_linked [OF parts(4)] by simp
  moreover have "tokens_ok False pad_hash g"
    by (rule tokens_ok_added [OF parts(1,3,4) open_h added key]) (simp_all only: next_h h(1), simp_all)
  moreover have "alloc_ok g" by (rule alloc_ok_added [OF parts(4,1) added open_h parts(3)])
  ultimately have tree: "tree_ok False pad_hash g" by (simp add: tree_ok_def)
  have tok: "blk_tokens (rx_blocks g 0) = ?ts" by (simp add: g_def h(4))
  have "tree_inputs g [?ts] \<subseteq> {node_key g (RootNode 0) @ array_bytes ?ts}"
    unfolding tree_inputs_def nexts using tok by (auto split: if_splits)
  then have "inj_on pad_hash (tree_inputs g [?ts])" by (rule inj_on_subset [rotated]) simp
  moreover have "uint64_tree g" unfolding uint64_tree_def nexts using tok by (auto split: if_splits)
  moreover have "stored g (RootNode 0) [?ts] [0]" using nexts [of "RootNode 0"] tok by auto
  moreover have "registry_valid (rx_life_cycles g)" by (simp add: g_def h(2) registry_valid_def registry_ok_def valid_life_cycle_def)
  moreover have "rx_tokens_per_block g = 2" "map_of (rx_next g) rk = Some 0" by (simp_all add: g_def h)
  ultimately show ?thesis using tree rk by blast
qed

section \<open>Properties\<close>

text \<open>
  C2: pruning a match finds the longest reusable prefix. For a path whose blocks are all used in full but the last, and
  life cycles with positive windows, \<open>_prune_match\<close> returns the part of the path that ends at some endpoint \<open>t\<close>.
  Unless \<open>t = 0\<close>, the recurrent layers have a snapshot exactly there and every attention life cycle has, for each
  block that is not stale there, a page that covers what is used of the block. No endpoint beyond \<open>t\<close> is reusable.
\<close>

theorem prune_match_longest:
  assumes "path_ok (rx_tokens_per_block h) mp" and "slots_ok h mp" and "registry_valid (rx_life_cycles h)"
  shows "\<exists>t \<le> num_matched_tokens (rx_tokens_per_block h) mp.
    prune_match h mp = Inr (prefix_at (rx_tokens_per_block h) mp t) \<and> (0 < t \<longrightarrow> reusable h mp t)
    \<and> (\<forall>t' \<le> num_matched_tokens (rx_tokens_per_block h) mp. reusable h mp t' \<longrightarrow> t' \<le> t)"
  using prune_loop_endpoint [OF assms(1,2) refl assms(3) order_refl] assms(1)
  unfolding path_is_prefix [OF assms(1)] by (simp add: prune_match_def path_ok_def)

theorem prune_match_longest_witness:
  "\<exists>t \<le> 4. prune_match example_pages_store [(0, 2), (1, 2)] = Inr (prefix_at 2 [(0, 2), (1, 2)] t)
    \<and> (0 < t \<longrightarrow> reusable example_pages_store [(0, 2), (1, 2)] t)
    \<and> (\<forall>t' \<le> 4. reusable example_pages_store [(0, 2), (1, 2)] t' \<longrightarrow> t' \<le> t)"
proof -
  have tpb: "rx_tokens_per_block example_pages_store = 2" by (simp add: example_pages_store_def radix_tree_init_def Let_def)
  have "path_ok 2 [(0, 2), (1, 2)]" by (simp add: path_ok_def)
  moreover have "slots_ok example_pages_store [(0, 2), (1, 2)]" "registry_valid (rx_life_cycles example_pages_store)"
    by (simp_all add: slots_ok_def registry_valid_def registry_ok_def valid_life_cycle_def example_pages_store_def radix_tree_init_def Let_def)
  moreover have "num_matched_tokens 2 [(0 :: nat, 2), (1, 2)] = 4" by (simp add: num_matched_tokens_def)
  ultimately show ?thesis using prune_match_longest [of example_pages_store "[(0, 2), (1, 2)]"] by (simp add: tpb)
qed

text \<open>
  C1: a prefix match is sound and complete. In a well-formed tree of integer tokens, when the hash has no collision
  among the byte strings of the tree and of the query, \<open>match\<close> returns. The blocks it names hold the tokens of the
  query at their place; the walk follows every chain of stored blocks that the query begins with; and the number
  of matched tokens is the largest reusable endpoint on that walk, or zero.
\<close>

theorem match_sound_complete:
  assumes "tree_ok ndebug H h" and "uint64_tree h" and "list_all is_uint64 tokens" and "0 < rx_tokens_per_block h"
    and "registry_valid (rx_life_cycles h)" and "root_key H scope = Inr key"
    and "inj_on H (tree_inputs h (chunked tokens (rx_tokens_per_block h)))"
  shows "\<exists>mp t. match_token_path ndebug H h scope tokens partial = Inr mp \<and> agrees h tokens mp
    \<and> (\<forall>r k bs. map_of (rx_next h) key = Some r \<longrightarrow> stored h (RootNode r) (take k (chunked tokens (rx_tokens_per_block h))) bs
         \<longrightarrow> take (length bs) (map fst mp) = bs)
    \<and> match ndebug H h scope tokens partial = Inr \<lparr>rm_blocks = map fst (prefix_at (rx_tokens_per_block h) mp t),
         rm_num_tokens = t, rm_num_lookup_tokens = length tokens\<rparr>
    \<and> t \<le> num_matched_tokens (rx_tokens_per_block h) mp \<and> (0 < t \<longrightarrow> reusable h mp t)
    \<and> (\<forall>t' \<le> num_matched_tokens (rx_tokens_per_block h) mp. reusable h mp t' \<longrightarrow> t' \<le> t)"
proof -
  let ?tpb = "rx_tokens_per_block h" and ?cs = "chunked tokens (rx_tokens_per_block h)"
  have ok: "links_ok h" "tokens_ok ndebug H h" "alloc_ok h" using assms(1) by (simp_all add: tree_ok_def)
  obtain mp where mp: "match_token_path ndebug H h scope tokens partial = Inr mp" "path_ok ?tpb mp" "slots_ok h mp" "agrees h tokens mp"
    "\<forall>r k bs. map_of (rx_next h) key = Some r \<longrightarrow> stored h (RootNode r) (take k ?cs) bs \<longrightarrow> take (length bs) (map fst mp) = bs"
  proof (cases "map_of (rx_next h) key")
    case None
    show thesis by (rule that [of "[]"]) (use None assms(4,6) in \<open>simp_all add: match_token_path_def path_ok_def slots_ok_def agrees_def\<close>)
  next
    case (Some r)
    then have "key = node_key h (RootNode r)" using links_okD(8) [OF ok(1), of key r] map_of_SomeD [OF Some] by simp
    from match_blocks_path [OF ok assms(2,7) refl assms(4,3) subset_refl this, of partial]
    show thesis using that Some assms(6) by (auto simp: match_token_path_def)
  qed
  obtain t where t: "t \<le> num_matched_tokens ?tpb mp" "prune_match h mp = Inr (prefix_at ?tpb mp t)" "0 < t \<longrightarrow> reusable h mp t"
    "\<forall>t' \<le> num_matched_tokens ?tpb mp. reusable h mp t' \<longrightarrow> t' \<le> t"
    using prune_loop_endpoint [OF mp(2,3) refl assms(5) order_refl] mp(2)
    unfolding path_is_prefix [OF mp(2)] by (auto simp: prune_match_def path_ok_def)
  have "num_matched_tokens ?tpb (prefix_at ?tpb mp t) = t"
  proof (cases "t = 0")
    case True
    then show ?thesis by (simp add: prefix_at_def num_matched_tokens_def)
  next
    case False
    then obtain j q where d: "t = j * ?tpb + q" "0 < q" "q \<le> ?tpb" using endpoint_cases [OF assms(4), of t] by auto
    then have "j < length mp" using endpoint_in_path [OF mp(2) t(1)] by blast
    moreover have "(t - 1) div ?tpb = j"
    proof -
      have "t - 1 = (q - 1) + j * ?tpb" using d by simp
      then show ?thesis using d by (simp del: add_diff_assoc2 diff_diff_left)
    qed
    ultimately show ?thesis using num_matched_prefix [OF assms(4)] by simp
  qed
  then have "match ndebug H h scope tokens partial = Inr \<lparr>rm_blocks = map fst (prefix_at ?tpb mp t), rm_num_tokens = t, rm_num_lookup_tokens = length tokens\<rparr>"
    using mp(1) t(2) by (simp add: match_def)
  then show ?thesis using mp(1,4,5) t(1,3,4) by blast
qed

theorem match_sound_complete_witness:
  "\<exists>h mp t. stored h (RootNode 0) [[Tok 1, Tok 2]] [0] \<and> match_token_path False pad_hash h [None, None] [Tok 1, Tok 2] True = Inr mp
    \<and> take 1 (map fst mp) = [0] \<and> (\<exists>m. match False pad_hash h [None, None] [Tok 1, Tok 2] True = Inr m \<and> rm_num_tokens m = t)
    \<and> (\<forall>t' \<le> num_matched_tokens 2 mp. reusable h mp t' \<longrightarrow> t' \<le> t)"
proof -
  obtain h key where h: "tree_ok False pad_hash h" "uint64_tree h" "rx_tokens_per_block h = 2" "registry_valid (rx_life_cycles h)"
    "root_key pad_hash [None, None] = Inr key" "map_of (rx_next h) key = Some 0" "stored h (RootNode 0) [[Tok 1, Tok 2]] [0]"
    "inj_on pad_hash (tree_inputs h [[Tok 1, Tok 2]])"
    using example_one_block by (elim exE conjE)
  have ch: "chunked [Tok 1, Tok 2] 2 = [[Tok 1, Tok 2]]" by (simp add: chunked_step)
  have pre: "list_all is_uint64 [Tok 1, Tok 2]" "0 < rx_tokens_per_block h"
    "inj_on pad_hash (tree_inputs h (chunked [Tok 1, Tok 2] (rx_tokens_per_block h)))" using h(3,8) ch by simp_all
  from match_sound_complete [OF h(1,2) pre(1,2) h(4,5) pre(3), of True]
  obtain mp t where mp: "match_token_path False pad_hash h [None, None] [Tok 1, Tok 2] True = Inr mp"
    "\<forall>r k bs. map_of (rx_next h) key = Some r \<longrightarrow> stored h (RootNode r) (take k (chunked [Tok 1, Tok 2] (rx_tokens_per_block h))) bs
         \<longrightarrow> take (length bs) (map fst mp) = bs"
    "match False pad_hash h [None, None] [Tok 1, Tok 2] True = Inr \<lparr>rm_blocks = map fst (prefix_at (rx_tokens_per_block h) mp t),
         rm_num_tokens = t, rm_num_lookup_tokens = length [Tok 1, Tok 2]\<rparr>"
    "\<forall>t' \<le> num_matched_tokens (rx_tokens_per_block h) mp. reusable h mp t' \<longrightarrow> t' \<le> t"
    by (elim exE conjE)
  have "take 1 (map fst mp) = [0]" using mp(2) [rule_format, OF h(6), of 1 "[0]"] h(3,7) ch by simp
  then show ?thesis using h(3,7) mp(1,3,4) by (intro exI [of _ h] exI [of _ mp] exI [of _ t]) simp
qed

end
