(* ===== verification/Mapping_Topology.thy ===== *)
theory Mapping_Topology
  imports Complex_Main KV_Prelude
begin

text \<open>
  How ranks are arranged in parallel groups (\<^verbatim>\<open>src/tensorrt_llm/mapping.py\<close>): the checks and defaults of
  \<open>MappingBase.__init__\<close>, the coordinates of a rank and the groups of \<open>MpiTopology\<close>, pipeline stages of layers,
  and the dictionary form of a mapping. Sizes are Python integers; \<open>-1\<close> asks for a default. Of \<^verbatim>\<open>torch\<close>,
  \<^verbatim>\<open>tensor_split\<close> and \<^verbatim>\<open>split\<close> are arguments of \<open>pp_layers\<close>.
\<close>

section \<open>Construction\<close>

datatype cp_type = ULYSSES | STAR | RING | HELIX

text \<open>Values in \<open>cp_config\<close>; members of \<open>CpType\<close> are strings and equal their names.\<close>

datatype cfg_value = CfgStr string | CfgInt int

fun cp_name :: "cp_type \<Rightarrow> string" where
  "cp_name ULYSSES = ''ULYSSES''"
| "cp_name STAR = ''STAR''"
| "cp_name RING = ''RING''"
| "cp_name HELIX = ''HELIX''"

definition upper_char :: "char \<Rightarrow> char" where
  "upper_char c = (if 97 \<le> (of_char c :: nat) \<and> (of_char c :: nat) \<le> 122 then char_of ((of_char c :: nat) - 32) else c)"

record mapping_args =
  a_world_size :: int
  a_rank :: int
  a_gpus_per_node :: int
  a_cp_size :: int
  a_cp_config :: "(string \<times> cfg_value) list option"
  a_tp_size :: int
  a_pp_size :: int
  a_pp_partition :: "int list option"
  a_moe_cluster_size :: int
  a_moe_tp_size :: int
  a_moe_ep_size :: int
  a_attn_tp_size :: int
  a_attn_cp_size :: int
  a_enable_attention_dp :: bool
  a_enable_lm_head_tp_in_adp :: bool
  a_dwdp_size :: int
  a_dwdp_rank :: int

definition default_args :: mapping_args where
  "default_args = \<lparr>a_world_size = 1, a_rank = 0, a_gpus_per_node = 8, a_cp_size = 1, a_cp_config = None, a_tp_size = 1, a_pp_size = 1,
     a_pp_partition = None, a_moe_cluster_size = -1, a_moe_tp_size = -1, a_moe_ep_size = -1, a_attn_tp_size = -1, a_attn_cp_size = -1,
     a_enable_attention_dp = False, a_enable_lm_head_tp_in_adp = False, a_dwdp_size = 0, a_dwdp_rank = 0\<rparr>"

record par_mapping =
  world_size :: int
  rank :: int
  gpus_per_node :: int
  cp_size :: int
  cp_config :: "(string \<times> cfg_value) list"
  tp_size :: int
  pp_size :: int
  pp_partition :: "int list option"
  moe_cluster_size :: int
  moe_tp_size :: int
  moe_ep_size :: int
  moe_tp_cluster_ep_size :: int
  attn_tp_size :: int
  attn_cp_size :: int
  enable_attention_dp :: bool
  enable_lm_head_tp_in_adp :: bool
  dwdp_size :: int
  dwdp_rank :: int
  moe_tp_ep_user_specified :: bool
  pp_groups :: "int list list"
  cp_groups :: "int list list"
  tp_groups :: "int list list"
  moe_cluster_groups :: "int list list"
  moe_tp_groups :: "int list list"
  moe_ep_groups :: "int list list"

definition check_dwdp :: "int \<Rightarrow> int \<Rightarrow> unit res" where
  "check_dwdp dsize drank =
     guardR (\<not> (dsize < 0 \<or> dsize = 1)) ValueError (
     guardR (\<not> (1 < dsize \<and> (drank < 0 \<or> dsize \<le> drank))) ValueError (Inr ()))"

text \<open>The configuration with its type in upper case, and the type (\<open>ULYSSES\<close> when none is given).\<close>

definition resolve_cp_type :: "(string \<times> cfg_value) list option \<Rightarrow> ((string \<times> cfg_value) list option \<times> cfg_value) res" where
  "resolve_cp_type config = (case config of
       None \<Rightarrow> Inr (None, CfgStr (cp_name ULYSSES))
     | Some d \<Rightarrow> (case map_of d ''cp_type'' of
           Some (CfgStr s) \<Rightarrow>
             let u = map upper_char s
             in guardR (u \<in> cp_name ` {ULYSSES, STAR, RING, HELIX}) ValueError
                  (Inr (Some (dict_set ''cp_type'' (CfgStr u) d), CfgStr u))
         | Some v \<Rightarrow> Inr (Some d, v)
         | None \<Rightarrow> Inr (Some d, CfgStr (cp_name ULYSSES))))"

definition resolve_moe_sizes :: "int \<Rightarrow> int \<Rightarrow> int \<Rightarrow> int \<Rightarrow> int \<Rightarrow> (int \<times> int \<times> int) res" where
  "resolve_moe_sizes dwdp moe_world cluster tp ep =
     (if 1 < dwdp then Inr (1, 1, 1)
      else if tp = -1 \<and> ep = -1 then bindR (floordiv moe_world cluster) (\<lambda>q. Inr (cluster, q, 1))
      else if tp = -1 then bindR (floordiv moe_world (ep * cluster)) (\<lambda>q. Inr (cluster, q, ep))
      else if ep = -1 then bindR (floordiv moe_world (tp * cluster)) (\<lambda>q. Inr (cluster, tp, q))
      else Inr (cluster, tp, ep))"

definition resolve_attn_sizes :: "cfg_value \<Rightarrow> int \<Rightarrow> int \<Rightarrow> int \<Rightarrow> int \<Rightarrow> (int \<times> int) res" where
  "resolve_attn_sizes cp_ty tp cp attn_tp attn_cp =
     (if attn_tp = -1 \<and> attn_cp = -1
      then if cp_ty = CfgStr (cp_name ULYSSES) then Inr (tp * cp, 1) else Inr (tp, cp)
      else if attn_tp = -1 then bindR (floordiv (tp * cp) attn_cp) (\<lambda>q. Inr (q, attn_cp))
      else if attn_cp = -1 then bindR (floordiv (tp * cp) attn_tp) (\<lambda>q. Inr (attn_tp, q))
      else Inr (attn_tp, attn_cp))"

definition check_rank :: "bool \<Rightarrow> int \<Rightarrow> int \<Rightarrow> unit res" where
  "check_rank attention_dp r world = guardR (attention_dp \<or> \<not> (r < 0 \<or> world \<le> r)) ValueError (Inr ())"

definition default_moe_cluster :: "int \<Rightarrow> int" where
  "default_moe_cluster cluster = (if cluster = -1 then 1 else cluster)"

definition moe_world_size :: "cfg_value \<Rightarrow> int \<Rightarrow> int \<Rightarrow> int" where
  "moe_world_size cp_ty tp cp = (if cp_ty = CfgStr (cp_name ULYSSES) then tp else tp * cp)"

definition total_moe_size :: "int \<Rightarrow> int \<Rightarrow> int \<Rightarrow> int \<Rightarrow> int" where
  "total_moe_size dwdp cluster tp ep = (if 1 < dwdp then cluster else tp * ep * cluster)"

definition check_sizes :: "mapping_args \<Rightarrow> cfg_value \<Rightarrow> int \<Rightarrow> int \<Rightarrow> int \<Rightarrow> int \<Rightarrow> int \<Rightarrow> unit res" where
  "check_sizes a cp_ty cluster moe_tp moe_ep attn_tp attn_cp =
     guardR (\<not> (attn_cp \<noteq> 1 \<and> cp_ty = CfgStr (cp_name ULYSSES))) ValueError (
     guardR (a_tp_size a * a_pp_size a * a_cp_size a = a_world_size a) ValueError (
     guardR (1 < a_dwdp_size a \<or> total_moe_size (a_dwdp_size a) cluster moe_tp moe_ep = moe_world_size cp_ty (a_tp_size a) (a_cp_size a)) ValueError (
     guardR (attn_tp * attn_cp = a_tp_size a * a_cp_size a) ValueError (
     guardR (\<not> (moe_ep \<noteq> 1 \<and> 1 < a_cp_size a \<and> cp_ty \<noteq> CfgStr (cp_name HELIX))) NotImplementedError (
     assertR (1 < cluster \<longrightarrow> moe_ep = 1) (
     assertR (a_enable_lm_head_tp_in_adp a \<longrightarrow> a_enable_attention_dp a) (
     check_rank (a_enable_attention_dp a) (a_rank a) (a_world_size a))))))))"

definition mapping_fields :: "mapping_args \<Rightarrow> (string \<times> cfg_value) list option \<Rightarrow> int \<Rightarrow> int \<Rightarrow> int \<Rightarrow> int \<Rightarrow> int \<Rightarrow> par_mapping" where
  "mapping_fields a config cluster moe_tp moe_ep attn_tp attn_cp =
     \<lparr>world_size = a_world_size a, rank = a_rank a, gpus_per_node = a_gpus_per_node a, cp_size = a_cp_size a,
      cp_config = (case config of None \<Rightarrow> [] | Some d \<Rightarrow> d), tp_size = a_tp_size a, pp_size = a_pp_size a, pp_partition = a_pp_partition a,
      moe_cluster_size = cluster, moe_tp_size = moe_tp, moe_ep_size = moe_ep,
      moe_tp_cluster_ep_size = total_moe_size (a_dwdp_size a) cluster moe_tp moe_ep,
      attn_tp_size = attn_tp, attn_cp_size = attn_cp, enable_attention_dp = a_enable_attention_dp a,
      enable_lm_head_tp_in_adp = a_enable_lm_head_tp_in_adp a, dwdp_size = a_dwdp_size a, dwdp_rank = a_dwdp_rank a,
      moe_tp_ep_user_specified = (a_dwdp_size a \<le> 1 \<and> (a_moe_tp_size a \<noteq> -1 \<or> a_moe_ep_size a \<noteq> -1)),
      pp_groups = [], cp_groups = [], tp_groups = [], moe_cluster_groups = [], moe_tp_groups = [], moe_ep_groups = []\<rparr>"

definition mapping_init :: "mapping_args \<Rightarrow> par_mapping res" where
  "mapping_init a =
     bindR (check_dwdp (a_dwdp_size a) (a_dwdp_rank a)) (\<lambda>_.
     bindR (resolve_cp_type (a_cp_config a)) (\<lambda>(config, cp_ty).
     bindR (resolve_moe_sizes (a_dwdp_size a) (moe_world_size cp_ty (a_tp_size a) (a_cp_size a))
              (default_moe_cluster (a_moe_cluster_size a)) (a_moe_tp_size a) (a_moe_ep_size a)) (\<lambda>(cluster, moe_tp, moe_ep).
     bindR (resolve_attn_sizes cp_ty (a_tp_size a) (a_cp_size a) (a_attn_tp_size a) (a_attn_cp_size a)) (\<lambda>(attn_tp, attn_cp).
     bindR (check_sizes a cp_ty cluster moe_tp moe_ep attn_tp attn_cp) (\<lambda>_.
       Inr (mapping_fields a config cluster moe_tp moe_ep attn_tp attn_cp))))))"

definition mapping_eq :: "par_mapping \<Rightarrow> par_mapping \<Rightarrow> bool" where
  "mapping_eq m n \<longleftrightarrow> world_size m = world_size n \<and> rank m = rank n \<and> gpus_per_node m = gpus_per_node n \<and> cp_size m = cp_size n
     \<and> tp_size m = tp_size n \<and> moe_cluster_size m = moe_cluster_size n \<and> pp_size m = pp_size n \<and> pp_partition m = pp_partition n
     \<and> moe_tp_size m = moe_tp_size n \<and> moe_ep_size m = moe_ep_size n \<and> attn_tp_size m = attn_tp_size n \<and> attn_cp_size m = attn_cp_size n
     \<and> map_of (cp_config m) = map_of (cp_config n) \<and> dwdp_size m = dwdp_size n \<and> dwdp_rank m = dwdp_rank n"

definition set_rank :: "par_mapping \<Rightarrow> int \<Rightarrow> par_mapping res" where
  "set_rank m r = bindR (check_rank (enable_attention_dp m) r (world_size m)) (\<lambda>_. Inr (m\<lparr>rank := r\<rparr>))"

section \<open>Coordinates and groups of a rank\<close>

definition floormod :: "int \<Rightarrow> int \<Rightarrow> int res" where
  "floormod a b = guardR (b \<noteq> 0) ZeroDivisionError (Inr (a mod b))"

text \<open>\<open>range(a, b, s)\<close> for a positive step.\<close>

definition py_range :: "int \<Rightarrow> int \<Rightarrow> int \<Rightarrow> int list" where
  "py_range a b s = map (\<lambda>k. a + int k * s) [0..<nat ((b - a + s - 1) div s)]"

definition tp_rank :: "par_mapping \<Rightarrow> int res" where
  "tp_rank m = bindR (floormod (rank m) (tp_size m * cp_size m)) (\<lambda>r. floordiv r (cp_size m))"

definition pp_rank :: "par_mapping \<Rightarrow> int res" where
  "pp_rank m = floordiv (rank m) (tp_size m * cp_size m)"

definition cp_rank :: "par_mapping \<Rightarrow> int res" where
  "cp_rank m = floormod (rank m) (cp_size m)"

definition moe_tp_rank :: "par_mapping \<Rightarrow> int res" where
  "moe_tp_rank m = bindR (tp_rank m) (\<lambda>t. floordiv t (moe_ep_size m * moe_cluster_size m))"

definition moe_cluster_rank :: "par_mapping \<Rightarrow> int res" where
  "moe_cluster_rank m = bindR (tp_rank m) (\<lambda>t. floormod t (moe_cluster_size m))"

definition moe_ep_rank :: "par_mapping \<Rightarrow> int res" where
  "moe_ep_rank m = (if 1 < dwdp_size m then Inr 0 else bindR (tp_rank m) (\<lambda>t. floormod t (moe_ep_size m)))"

definition init_pp_groups :: "par_mapping \<Rightarrow> int list list" where
  "init_pp_groups m = map (\<lambda>i. py_range i (world_size m) (tp_size m * cp_size m)) [0..tp_size m * cp_size m - 1]"

definition init_cp_groups :: "par_mapping \<Rightarrow> int list list" where
  "init_cp_groups m = concat (map (\<lambda>i. map (\<lambda>j.
     [i * tp_size m * cp_size m + j * cp_size m .. i * tp_size m * cp_size m + (j + 1) * cp_size m - 1]) [0..tp_size m - 1]) [0..pp_size m - 1])"

definition init_tp_groups :: "par_mapping \<Rightarrow> int list list" where
  "init_tp_groups m = concat (map (\<lambda>i. map (\<lambda>j.
     py_range (i * tp_size m * cp_size m + j) ((i + 1) * tp_size m * cp_size m + j) (cp_size m)) [0..cp_size m - 1]) [0..pp_size m - 1])"

definition init_moe_tp_groups :: "par_mapping \<Rightarrow> int list list" where
  "init_moe_tp_groups m = concat (map (\<lambda>i. map (\<lambda>j.
     py_range (i * moe_tp_cluster_ep_size m + j) ((i + 1) * moe_tp_cluster_ep_size m) (moe_cluster_size m * moe_ep_size m))
       [0..moe_cluster_size m * moe_ep_size m - 1]) [0..pp_size m - 1])"

definition init_moe_cluster_groups :: "par_mapping \<Rightarrow> int list list" where
  "init_moe_cluster_groups m = concat (map (\<lambda>i. map (\<lambda>j.
     [i * moe_tp_cluster_ep_size m + j * moe_cluster_size m * moe_ep_size m ..
      i * moe_tp_cluster_ep_size m + (j + 1) * moe_cluster_size m * moe_ep_size m - 1]) [0..moe_tp_size m - 1]) [0..pp_size m - 1])"

definition init_moe_ep_groups :: "par_mapping \<Rightarrow> int list list" where
  "init_moe_ep_groups m = concat (map (\<lambda>i. concat (map (\<lambda>j. map (\<lambda>k.
     [i * moe_tp_cluster_ep_size m + j * moe_cluster_size m * moe_ep_size m + k * moe_ep_size m ..
      i * moe_tp_cluster_ep_size m + j * moe_cluster_size m * moe_ep_size m + (k + 1) * moe_ep_size m - 1])
       [0..moe_cluster_size m - 1]) [0..moe_tp_size m - 1])) [0..pp_size m - 1])"

definition init_parallel_groups :: "par_mapping \<Rightarrow> par_mapping" where
  "init_parallel_groups m = m\<lparr>pp_groups := pp_groups m @ init_pp_groups m, cp_groups := cp_groups m @ init_cp_groups m,
     tp_groups := tp_groups m @ init_tp_groups m, moe_tp_groups := moe_tp_groups m @ init_moe_tp_groups m,
     moe_cluster_groups := moe_cluster_groups m @ init_moe_cluster_groups m, moe_ep_groups := moe_ep_groups m @ init_moe_ep_groups m\<rparr>"

definition mpi_topology :: "mapping_args \<Rightarrow> par_mapping res" where
  "mpi_topology a = bindR (mapping_init a) (\<lambda>m. Inr (init_parallel_groups m))"

definition tp_group :: "par_mapping \<Rightarrow> int list res" where
  "tp_group m = bindR (pp_rank m) (\<lambda>p. bindR (cp_rank m) (\<lambda>c. py_index (tp_groups m) (p * cp_size m + c)))"

definition pp_group :: "par_mapping \<Rightarrow> int list res" where
  "pp_group m = bindR (tp_rank m) (\<lambda>t. bindR (cp_rank m) (\<lambda>c. py_index (pp_groups m) (t * cp_size m + c)))"

definition cp_group :: "par_mapping \<Rightarrow> int list res" where
  "cp_group m = bindR (pp_rank m) (\<lambda>p. bindR (tp_rank m) (\<lambda>t. py_index (cp_groups m) (p * tp_size m + t)))"

definition moe_tp_group :: "par_mapping \<Rightarrow> int list res" where
  "moe_tp_group m = bindR (pp_rank m) (\<lambda>p. bindR (moe_cluster_rank m) (\<lambda>c. bindR (moe_ep_rank m) (\<lambda>e.
     py_index (moe_tp_groups m) (p * moe_cluster_size m * moe_ep_size m + c * moe_ep_size m + e))))"

definition moe_ep_group :: "par_mapping \<Rightarrow> int list res" where
  "moe_ep_group m = bindR (pp_rank m) (\<lambda>p. bindR (moe_tp_rank m) (\<lambda>t. bindR (moe_cluster_rank m) (\<lambda>c.
     py_index (moe_ep_groups m) (p * moe_tp_size m * moe_cluster_size m + t * moe_cluster_size m + c))))"

definition moe_cluster_group :: "par_mapping \<Rightarrow> int list res" where
  "moe_cluster_group m = bindR (pp_rank m) (\<lambda>p. bindR (moe_tp_rank m) (\<lambda>t.
     py_index (moe_cluster_groups m) (p * moe_tp_size m + t)))"

definition get_node_rank :: "par_mapping \<Rightarrow> int \<Rightarrow> int res" where
  "get_node_rank m r = floordiv r (gpus_per_node m)"

definition get_local_rank :: "par_mapping \<Rightarrow> int \<Rightarrow> int res" where
  "get_local_rank m r = floormod r (gpus_per_node m)"

definition dp_size :: "par_mapping \<Rightarrow> int" where
  "dp_size m = (if enable_attention_dp m then tp_size m else 1)"

definition has_pp :: "par_mapping \<Rightarrow> bool" where
  "has_pp m \<longleftrightarrow> 1 < pp_size m"

definition is_last_pp_rank :: "par_mapping \<Rightarrow> bool res" where
  "is_last_pp_rank m = bindR (pp_rank m) (\<lambda>p. Inr (p = pp_size m - 1))"

definition is_first_pp_rank :: "par_mapping \<Rightarrow> bool res" where
  "is_first_pp_rank m = bindR (pp_rank m) (\<lambda>p. Inr (p = 0))"

definition is_second_last_pp_rank :: "par_mapping \<Rightarrow> bool res" where
  "is_second_last_pp_rank m = bindR (pp_rank m) (\<lambda>p. Inr (p = pp_size m - 2))"

definition node_rank :: "par_mapping \<Rightarrow> int res" where
  "node_rank m = floordiv (rank m) (gpus_per_node m)"

definition local_rank :: "par_mapping \<Rightarrow> int res" where
  "local_rank m = floormod (rank m) (gpus_per_node m)"

definition is_multi_node :: "par_mapping \<Rightarrow> bool" where
  "is_multi_node m \<longleftrightarrow> gpus_per_node m < world_size m"

definition is_last_cp_rank :: "par_mapping \<Rightarrow> bool res" where
  "is_last_cp_rank m = bindR (cp_rank m) (\<lambda>c. Inr (c = cp_size m - 1))"

definition is_first_cp_rank :: "par_mapping \<Rightarrow> bool res" where
  "is_first_cp_rank m = bindR (cp_rank m) (\<lambda>c. Inr (c = 0))"

definition prev_pp_rank :: "par_mapping \<Rightarrow> int" where
  "prev_pp_rank m = (let p = rank m - tp_size m * cp_size m in if p < 0 then p + world_size m else p)"

definition next_pp_rank :: "par_mapping \<Rightarrow> int" where
  "next_pp_rank m = (let p = rank m + tp_size m * cp_size m in if world_size m \<le> p then p - world_size m else p)"

definition prev_cp_rank :: "par_mapping \<Rightarrow> int res" where
  "prev_cp_rank m = bindR (cp_rank m) (\<lambda>c. Inr (if c = 0 then rank m + cp_size m - 1 else rank m - 1))"

definition next_cp_rank :: "par_mapping \<Rightarrow> int res" where
  "next_cp_rank m = bindR (cp_rank m) (\<lambda>c. Inr (if c = cp_size m - 1 then rank m - cp_size m + 1 else rank m + 1))"

section \<open>Layers and experts\<close>

text \<open>The tensor operations used on the list of layers.\<close>

record torch_ops =
  arange :: "int \<Rightarrow> int list res"
  torch_split :: "int list \<Rightarrow> int list \<Rightarrow> int list list res"
  tensor_split :: "int list \<Rightarrow> int \<Rightarrow> int list list res"

definition check_partition :: "par_mapping \<Rightarrow> int list \<Rightarrow> int \<Rightarrow> unit res" where
  "check_partition m ps n = guardR (int (length ps) = pp_size m) ValueError (guardR (sum_list ps = n) ValueError (Inr ()))"

definition pp_layers :: "torch_ops \<Rightarrow> par_mapping \<Rightarrow> int \<Rightarrow> int list res" where
  "pp_layers T m num_layers = (case pp_partition m of
       Some ps \<Rightarrow> bindR (check_partition m ps num_layers) (\<lambda>_. bindR (arange T num_layers) (\<lambda>xs.
         bindR (torch_split T xs ps) (\<lambda>ys. bindR (pp_rank m) (\<lambda>p. py_index ys p))))
     | None \<Rightarrow> bindR (arange T num_layers) (\<lambda>xs. bindR (tensor_split T xs (pp_size m)) (\<lambda>ys. bindR (pp_rank m) (\<lambda>p. py_index ys p))))"

fun partition_rank :: "int \<Rightarrow> int \<Rightarrow> int \<Rightarrow> int list \<Rightarrow> int res" where
  "partition_rank layer_idx pr start [] = Inl RuntimeError"
| "partition_rank layer_idx pr start (n # ns) =
     (let stop = start + n in if layer_idx < stop then Inr pr else partition_rank layer_idx (pr + 1) stop ns)"

definition pp_rank_of_layer :: "par_mapping \<Rightarrow> int \<Rightarrow> int \<Rightarrow> int res" where
  "pp_rank_of_layer m layer_idx num_layers =
     guardR (\<not> (layer_idx < 0 \<or> num_layers \<le> layer_idx)) ValueError (
     if \<not> has_pp m then Inr 0
     else case pp_partition m of
       Some ps \<Rightarrow> bindR (check_partition m ps num_layers) (\<lambda>_. partition_rank layer_idx 0 0 ps)
     | None \<Rightarrow>
         let base = num_layers div pp_size m; rm = num_layers mod pp_size m
         in if base = 0 then Inr layer_idx
            else let cutoff = (base + 1) * rm
              in if layer_idx < cutoff then Inr (layer_idx div (base + 1)) else Inr (rm + (layer_idx - cutoff) div base))"

definition ep_experts :: "par_mapping \<Rightarrow> int \<Rightarrow> int list res" where
  "ep_experts m num_experts = assertR (cp_size m = 1) (
     bindR (floordiv num_experts (moe_ep_size m)) (\<lambda>per_rank.
     bindR (moe_ep_rank m) (\<lambda>e. Inr [e * per_rank .. (e + 1) * per_rank - 1])))"

section \<open>Dictionary form\<close>

definition to_dict :: "par_mapping \<Rightarrow> mapping_args" where
  "to_dict m = default_args\<lparr>a_world_size := world_size m, a_rank := rank m, a_gpus_per_node := gpus_per_node m, a_cp_size := cp_size m,
     a_tp_size := tp_size m, a_pp_size := pp_size m, a_moe_tp_size := moe_tp_size m, a_moe_cluster_size := moe_cluster_size m,
     a_moe_ep_size := moe_ep_size m, a_attn_tp_size := attn_tp_size m, a_attn_cp_size := attn_cp_size m, a_cp_config := Some (cp_config m),
     a_enable_attention_dp := enable_attention_dp m, a_enable_lm_head_tp_in_adp := enable_lm_head_tp_in_adp m,
     a_dwdp_size := dwdp_size m, a_dwdp_rank := dwdp_rank m\<rparr>"

definition from_dict :: "mapping_args \<Rightarrow> par_mapping res" where
  "from_dict d = mpi_topology d"

definition has_cp_type :: "cp_type \<Rightarrow> par_mapping \<Rightarrow> bool" where
  "has_cp_type t m \<longleftrightarrow> 1 < cp_size m \<and> map_of (cp_config m) ''cp_type'' = Some (CfgStr (cp_name t))"

definition has_cp_ulysses :: "par_mapping \<Rightarrow> bool" where
  "has_cp_ulysses m \<longleftrightarrow> has_cp_type ULYSSES m"

definition has_cp_helix :: "par_mapping \<Rightarrow> bool" where
  "has_cp_helix m \<longleftrightarrow> has_cp_type HELIX m"

definition repurpose_helix_cp_to_tp :: "par_mapping \<Rightarrow> par_mapping res" where
  "repurpose_helix_cp_to_tp m = assertR (has_cp_helix m) (
     mpi_topology (default_args\<lparr>a_world_size := world_size m, a_rank := rank m, a_gpus_per_node := gpus_per_node m, a_cp_size := 1,
       a_cp_config := Some [], a_tp_size := tp_size m * cp_size m, a_pp_size := pp_size m, a_pp_partition := pp_partition m,
       a_moe_cluster_size := moe_cluster_size m, a_moe_tp_size := moe_tp_size m, a_moe_ep_size := moe_ep_size m,
       a_enable_attention_dp := enable_attention_dp m, a_enable_lm_head_tp_in_adp := enable_lm_head_tp_in_adp m,
       a_dwdp_size := dwdp_size m, a_dwdp_rank := dwdp_rank m\<rparr>))"

end
