(* ===== verification/Mapping_Laws.thy ===== *)
theory Mapping_Laws
  imports Mapping_Topology
begin

text \<open>
  Laws of the mapping: ranks and their three coordinates are in bijection, the groups of a rank are the lines through
  it, the neighbours along a line form rings, the stages of layers agree with the stage of a layer, and what survives
  the dictionary form.
\<close>

section \<open>Arithmetic of coordinates\<close>

definition rank_at :: "par_mapping \<Rightarrow> int \<Rightarrow> int \<Rightarrow> int \<Rightarrow> int" where
  "rank_at m p t c = (p * tp_size m + t) * cp_size m + c"

definition map_ok :: "par_mapping \<Rightarrow> bool" where
  "map_ok m \<longleftrightarrow> 0 < tp_size m \<and> 0 < cp_size m \<and> 0 < pp_size m \<and> world_size m = tp_size m * pp_size m * cp_size m
     \<and> 0 \<le> rank m \<and> rank m < world_size m"

definition groups_ok :: "par_mapping \<Rightarrow> bool" where
  "groups_ok m \<longleftrightarrow> pp_groups m = init_pp_groups m \<and> cp_groups m = init_cp_groups m \<and> tp_groups m = init_tp_groups m
     \<and> moe_tp_groups m = init_moe_tp_groups m \<and> moe_cluster_groups m = init_moe_cluster_groups m \<and> moe_ep_groups m = init_moe_ep_groups m"

lemma floordiv_ok [simp]: "b \<noteq> 0 \<Longrightarrow> floordiv a b = Inr (a div b)"
  by (simp add: floordiv_def)

lemma floormod_ok [simp]: "b \<noteq> 0 \<Longrightarrow> floormod a b = Inr (a mod b)"
  by (simp add: floormod_def)

lemma less_mult_add_int: "0 \<le> p \<Longrightarrow> p < a \<Longrightarrow> 0 \<le> q \<Longrightarrow> q < b \<Longrightarrow> p * b + q < a * (b::int)"
proof -
  assume *: "0 \<le> p" "p < a" "0 \<le> q" "q < b"
  have "p * b + q < (p + 1) * b" using * by (simp add: algebra_simps)
  also have "\<dots> \<le> a * b" using * by (intro mult_right_mono) auto
  finally show ?thesis .
qed

lemma div_mult_add_int [simp]: "0 \<le> q \<Longrightarrow> q < b \<Longrightarrow> (p * b + q) div b = (p::int)"
  by (metis add.commute add_cancel_left_right div_mult_self3 div_pos_pos_trivial not_less_iff_gr_or_eq order_le_less_trans)

lemma mod_mult_add_int [simp]: "0 \<le> q \<Longrightarrow> q < b \<Longrightarrow> (p * b + q) mod b = (q::int)"
  by (simp add: add.commute)

lemma div_less_int:
  assumes "x < a * b" "0 < (b::int)"
  shows "x div b < a"
proof (rule ccontr)
  assume "\<not> x div b < a"
  then have "a * b \<le> x div b * b" using assms by (intro mult_right_mono) auto
  also have "\<dots> \<le> x" using pos_mod_sign [of b x] minus_mod_eq_div_mult [of x b] assms by linarith
  finally show False using assms by simp
qed

lemma concat_grid_nth:
  "i < length xs \<Longrightarrow> j < length ys \<Longrightarrow> concat (map (\<lambda>x. map (f x) ys) xs) ! (i * length ys + j) = f (xs ! i) (ys ! j)"
  by (induction xs arbitrary: i) (auto simp: nth_append nth_Cons' algebra_simps less_Suc_eq_0_disj split: nat.splits)

lemma length_concat_grid: "length (concat (map (\<lambda>x. map (f x) ys) xs)) = length xs * length ys"
  by (induction xs) auto

lemma py_index_ok: "0 \<le> i \<Longrightarrow> i < int (length xs) \<Longrightarrow> py_index xs i = Inr (xs ! nat i)"
  by (simp add: py_index_def)

lemma py_index_grid:
  assumes "0 \<le> p" "p < a" "0 \<le> q" "q < b"
  shows "py_index (concat (map (\<lambda>i. map (f i) [0..b - 1]) [0..a - 1])) (p * b + q) = Inr (f p q)"
proof -
  have n: "nat (p * b + q) = nat p * length [0..b - 1] + nat q" using assms by (simp add: nat_add_distrib nat_mult_distrib)
  have l: "p * b + q < int (nat a * nat b)" using assms less_mult_add_int [of p a q b] by simp
  show ?thesis
    using assms l concat_grid_nth [of "nat p" "[0..a - 1]" "nat q" "[0..b - 1]" f]
    by (subst py_index_ok) (auto simp: length_concat_grid n nth_upto)
qed

lemma py_range_ok: "0 < s \<Longrightarrow> 0 \<le> k \<Longrightarrow> (b - a + s - 1) div s = k \<Longrightarrow> py_range a b s = map (\<lambda>x. a + x * s) [0..k - 1]"
  unfolding py_range_def by (rule nth_equalityI) (auto simp: nth_upto)

section \<open>Coordinates\<close>

lemma map_okD:
  assumes "map_ok m"
  shows "0 < tp_size m" "0 < cp_size m" "0 < pp_size m" "world_size m = tp_size m * pp_size m * cp_size m" "0 \<le> rank m" "rank m < world_size m"
  using assms by (simp_all add: map_ok_def)

lemma rank_coordinates:
  assumes "map_ok m"
  obtains p t c where "pp_rank m = Inr p" "tp_rank m = Inr t" "cp_rank m = Inr c" "0 \<le> p" "p < pp_size m"
    "0 \<le> t" "t < tp_size m" "0 \<le> c" "c < cp_size m" "rank m = rank_at m p t c"
proof -
  note D = map_okD [OF assms]
  let ?tc = "tp_size m * cp_size m"
  have tc: "0 < ?tc" using D by simp
  have p: "rank m div ?tc < pp_size m" by (rule div_less_int) (use D tc in \<open>simp_all add: algebra_simps\<close>)
  have t: "rank m mod ?tc div cp_size m < tp_size m" by (rule div_less_int) (use D tc in simp_all)
  have c: "rank m mod ?tc mod cp_size m = rank m mod cp_size m" by (simp add: mod_mod_cancel)
  have "rank m = rank m div ?tc * ?tc + rank m mod ?tc" by (rule div_mult_mod_eq [symmetric])
  moreover have "rank m mod ?tc = rank m mod ?tc div cp_size m * cp_size m + rank m mod cp_size m"
    unfolding c [symmetric] by (rule div_mult_mod_eq [symmetric])
  ultimately have r: "rank m = rank_at m (rank m div ?tc) (rank m mod ?tc div cp_size m) (rank m mod cp_size m)"
    unfolding rank_at_def by (metis add.assoc distrib_right mult.assoc)
  show ?thesis
    by (rule that [OF _ _ _ _ p _ t _ _ r])
      (use D tc in \<open>simp_all add: pp_rank_def tp_rank_def cp_rank_def pos_imp_zdiv_nonneg_iff\<close>)
qed

lemma rank_at_bounds:
  assumes "map_ok m" "0 \<le> p" "p < pp_size m" "0 \<le> t" "t < tp_size m" "0 \<le> c" "c < cp_size m"
  shows "0 \<le> rank_at m p t c" "rank_at m p t c < world_size m"
  using map_okD [OF assms(1)] assms less_mult_add_int [of p "pp_size m" t "tp_size m"]
    less_mult_add_int [of "p * tp_size m + t" "pp_size m * tp_size m" c "cp_size m"]
  by (simp_all add: rank_at_def ac_simps)

lemma rank_at_decode:
  assumes "map_ok m" "0 \<le> p" "0 \<le> t" "t < tp_size m" "0 \<le> c" "c < cp_size m"
  shows "pp_rank (m\<lparr>rank := rank_at m p t c\<rparr>) = Inr p" "tp_rank (m\<lparr>rank := rank_at m p t c\<rparr>) = Inr t"
    "cp_rank (m\<lparr>rank := rank_at m p t c\<rparr>) = Inr c"
proof -
  note D = map_okD [OF assms(1)]
  have eq: "rank_at m p t c = p * (tp_size m * cp_size m) + (t * cp_size m + c)" by (simp add: rank_at_def algebra_simps)
  have b: "0 \<le> t * cp_size m + c" "t * cp_size m + c < tp_size m * cp_size m"
    using D assms less_mult_add_int [of t "tp_size m" c "cp_size m"] by simp_all
  show "pp_rank (m\<lparr>rank := rank_at m p t c\<rparr>) = Inr p" using D b by (simp add: pp_rank_def eq)
  show "tp_rank (m\<lparr>rank := rank_at m p t c\<rparr>) = Inr t" using D b assms by (simp add: tp_rank_def eq)
  show "cp_rank (m\<lparr>rank := rank_at m p t c\<rparr>) = Inr c" using D assms by (simp add: cp_rank_def rank_at_def)
qed

section \<open>Groups\<close>

lemma groups_okD:
  assumes "groups_ok m"
  shows "pp_groups m = init_pp_groups m" "cp_groups m = init_cp_groups m" "tp_groups m = init_tp_groups m"
    "moe_tp_groups m = init_moe_tp_groups m" "moe_cluster_groups m = init_moe_cluster_groups m" "moe_ep_groups m = init_moe_ep_groups m"
  using assms by (simp_all add: groups_ok_def)

lemma shift_upto: "map (\<lambda>x. a + x) [0..n - 1] = [a..a + n - (1::int)]"
  by (rule nth_equalityI) (auto simp: nth_upto)

lemma tp_group_line:
  assumes ok: "map_ok m" "groups_ok m" and at: "pp_rank m = Inr p" "cp_rank m = Inr c" "0 \<le> p" "p < pp_size m" "0 \<le> c" "c < cp_size m"
  shows "tp_group m = Inr (map (\<lambda>x. rank_at m p x c) [0..tp_size m - 1])"
proof -
  note D = map_okD [OF ok(1)]
  have "((p + 1) * tp_size m * cp_size m + c - (p * tp_size m * cp_size m + c) + cp_size m - 1) div cp_size m
      = (tp_size m * cp_size m + (cp_size m - 1)) div cp_size m"
    by (simp add: algebra_simps)
  also have "\<dots> = tp_size m" by (rule div_mult_add_int) (use D in auto)
  finally have "py_range (p * tp_size m * cp_size m + c) ((p + 1) * tp_size m * cp_size m + c) (cp_size m) = map (\<lambda>x. rank_at m p x c) [0..tp_size m - 1]"
    using D by (subst py_range_ok [where k = "tp_size m"]) (auto simp: rank_at_def algebra_simps)
  then show ?thesis
    using at py_index_grid [of p "pp_size m" c "cp_size m" "\<lambda>i j. py_range (i * tp_size m * cp_size m + j) ((i + 1) * tp_size m * cp_size m + j) (cp_size m)"]
    by (simp add: tp_group_def groups_okD [OF ok(2)] init_tp_groups_def)
qed

lemma cp_group_line:
  assumes ok: "map_ok m" "groups_ok m" and at: "pp_rank m = Inr p" "tp_rank m = Inr t" "0 \<le> p" "p < pp_size m" "0 \<le> t" "t < tp_size m"
  shows "cp_group m = Inr (map (rank_at m p t) [0..cp_size m - 1])"
proof -
  have "[p * tp_size m * cp_size m + t * cp_size m..p * tp_size m * cp_size m + (t + 1) * cp_size m - 1] = map (rank_at m p t) [0..cp_size m - 1]"
    using shift_upto [of "(p * tp_size m + t) * cp_size m" "cp_size m"] by (simp add: rank_at_def [abs_def] algebra_simps)
  then show ?thesis
    using at py_index_grid [of p "pp_size m" t "tp_size m" "\<lambda>i j. [i * tp_size m * cp_size m + j * cp_size m..i * tp_size m * cp_size m + (j + 1) * cp_size m - 1]"]
    by (simp add: cp_group_def groups_okD [OF ok(2)] init_cp_groups_def)
qed

lemma pp_group_line:
  assumes ok: "map_ok m" "groups_ok m" and at: "tp_rank m = Inr t" "cp_rank m = Inr c" "0 \<le> t" "t < tp_size m" "0 \<le> c" "c < cp_size m"
  shows "pp_group m = Inr (map (\<lambda>x. rank_at m x t c) [0..pp_size m - 1])"
proof -
  note D = map_okD [OF ok(1)]
  define i where "i = t * cp_size m + c"
  have i: "0 \<le> i" "i < tp_size m * cp_size m" using D at less_mult_add_int [of t "tp_size m" c "cp_size m"] by (simp_all add: i_def)
  have "world_size m - i + tp_size m * cp_size m - 1 = pp_size m * (tp_size m * cp_size m) + (tp_size m * cp_size m - 1 - i)"
    using D by (simp add: algebra_simps)
  then have "(world_size m - i + tp_size m * cp_size m - 1) div (tp_size m * cp_size m) = pp_size m"
    using i by (simp only:) (rule div_mult_add_int; simp)
  then have "py_range i (world_size m) (tp_size m * cp_size m) = map (\<lambda>x. rank_at m x t c) [0..pp_size m - 1]"
    using D by (subst py_range_ok [where k = "pp_size m"]) (auto simp: rank_at_def i_def algebra_simps)
  then show ?thesis
    using i at by (simp add: pp_group_def groups_okD [OF ok(2)] init_pp_groups_def py_index_ok nth_upto flip: i_def)
qed

text \<open>What a successful construction has checked and stored.\<close>

lemma mapping_init_fields:
  assumes "mapping_init a = Inr m"
  shows "tp_size m = a_tp_size a \<and> cp_size m = a_cp_size a \<and> pp_size m = a_pp_size a \<and> world_size m = a_world_size a
    \<and> rank m = a_rank a \<and> pp_partition m = a_pp_partition a \<and> dwdp_size m = a_dwdp_size a \<and> a_tp_size a * a_pp_size a * a_cp_size a = a_world_size a
    \<and> (1 < moe_cluster_size m \<longrightarrow> moe_ep_size m = 1)
    \<and> pp_groups m = [] \<and> cp_groups m = [] \<and> tp_groups m = [] \<and> moe_cluster_groups m = [] \<and> moe_tp_groups m = [] \<and> moe_ep_groups m = []"
  using assms unfolding mapping_init_def
  by (clarsimp simp: bindR_eq_Inr_iff guardR_eq_Inr_iff check_sizes_def mapping_fields_def)

lemma mpi_topology_ok:
  assumes "mpi_topology a = Inr m" "0 < a_tp_size a" "0 < a_cp_size a" "0 < a_pp_size a" "0 \<le> a_rank a" "a_rank a < a_world_size a"
  shows "map_ok m" "groups_ok m"
proof -
  obtain m0 where m0: "mapping_init a = Inr m0" "m = init_parallel_groups m0"
    using assms(1) by (auto simp: mpi_topology_def bindR_eq_Inr_iff)
  note F = mapping_init_fields [OF m0(1)]
  show "map_ok m" using F assms(2-) by (simp add: m0(2) map_ok_def init_parallel_groups_def)
  show "groups_ok m" using F
    by (simp add: m0(2) groups_ok_def init_parallel_groups_def init_pp_groups_def init_cp_groups_def init_tp_groups_def
        init_moe_tp_groups_def init_moe_cluster_groups_def init_moe_ep_groups_def)
qed

section \<open>Rings\<close>

lemma succ_mod_int: "0 \<le> p \<Longrightarrow> p < n \<Longrightarrow> (p + 1) mod n = (if p = n - 1 then 0 else p + (1::int))"
  by auto

lemma pred_mod_int: "0 \<le> p \<Longrightarrow> p < n \<Longrightarrow> (p - 1) mod n = (if p = 0 then n - 1 else p - (1::int))"
  by (auto simp: zmod_minus1)

lemma rank_at_set_rank [simp]: "rank_at (m\<lparr>rank := r\<rparr>) = rank_at m"
  by (intro ext) (simp add: rank_at_def)

lemma map_ok_set_rank: "map_ok m \<Longrightarrow> 0 \<le> r \<Longrightarrow> r < world_size m \<Longrightarrow> map_ok (m\<lparr>rank := r\<rparr>)"
  by (simp add: map_ok_def)

lemma pp_neighbours:
  assumes ok: "map_ok m" and at: "rank m = rank_at m p t c" "0 \<le> p" "p < pp_size m" "0 \<le> t" "t < tp_size m" "0 \<le> c" "c < cp_size m"
  shows "next_pp_rank m = rank_at m ((p + 1) mod pp_size m) t c" "prev_pp_rank m = rank_at m ((p - 1) mod pp_size m) t c"
proof -
  note D = map_okD [OF ok]
  let ?s = "tp_size m * cp_size m"
  have i: "0 \<le> t * cp_size m + c" "t * cp_size m + c < ?s" using D at less_mult_add_int [of t "tp_size m" c "cp_size m"] by simp_all
  have r: "rank_at m x t c = x * ?s + (t * cp_size m + c)" for x by (simp add: rank_at_def algebra_simps)
  have w: "world_size m = pp_size m * ?s" using D by simp
  have step: "world_size m = p * ?s + ?s" if "p = pp_size m - 1" using w that by (simp add: left_diff_distrib)
  have up: "world_size m \<le> rank m + ?s \<longleftrightarrow> p = pp_size m - 1"
  proof
    assume "world_size m \<le> rank m + ?s"
    then have "\<not> (p + 1) * ?s + (t * cp_size m + c) < pp_size m * ?s" using at(1) w r by (simp add: algebra_simps)
    then show "p = pp_size m - 1" using less_mult_add_int [of "p + 1" "pp_size m" "t * cp_size m + c" ?s] i at by linarith
  next
    assume "p = pp_size m - 1"
    from step [OF this] show "world_size m \<le> rank m + ?s" using at(1) r [of p] i by simp
  qed
  have down: "rank m - ?s < 0 \<longleftrightarrow> p = 0"
  proof
    assume "rank m - ?s < 0"
    then have "p * ?s < 1 * ?s" using at(1) r [of p] i by simp
    then have "p < 1" using D by (meson mult_less_cancel_right_pos mult_pos_pos)
    then show "p = 0" using at(2) by simp
  qed (use at(1) r [of p] i in simp)
  show "next_pp_rank m = rank_at m ((p + 1) mod pp_size m) t c"
    unfolding next_pp_rank_def Let_def up succ_mod_int [OF at(2,3)] using at(1) r step by (auto simp: distrib_right)
  show "prev_pp_rank m = rank_at m ((p - 1) mod pp_size m) t c"
    unfolding prev_pp_rank_def Let_def down pred_mod_int [OF at(2,3)] using at(1) r w by (simp add: algebra_simps)
qed

lemma cp_neighbours:
  assumes "rank m = rank_at m p t c" "cp_rank m = Inr c" "0 \<le> c" "c < cp_size m"
  shows "next_cp_rank m = Inr (rank_at m p t ((c + 1) mod cp_size m))" "prev_cp_rank m = Inr (rank_at m p t ((c - 1) mod cp_size m))"
  using assms by (simp_all add: next_cp_rank_def prev_cp_rank_def succ_mod_int pred_mod_int rank_at_def)

section \<open>Groups for mixtures of experts\<close>

lemma moe_rank_coordinates:
  assumes "0 \<le> t" "0 < cl" "0 < ep" "1 < cl \<longrightarrow> ep = 1"
  shows "t mod cl * ep + t mod ep = t mod (cl * (ep::int))" "t div (ep * cl) * cl * ep + t mod cl * ep = t div ep * ep"
proof -
  have "cl = 1 \<or> ep = 1" using assms by linarith
  then show "t mod cl * ep + t mod ep = t mod (cl * ep)" "t div (ep * cl) * cl * ep + t mod cl * ep = t div ep * ep" by auto
qed

definition moe_ok :: "par_mapping \<Rightarrow> bool" where
  "moe_ok m \<longleftrightarrow> cp_size m = 1 \<and> dwdp_size m \<le> 1 \<and> 0 < moe_tp_size m \<and> 0 < moe_cluster_size m \<and> 0 < moe_ep_size m
     \<and> moe_tp_cluster_ep_size m = tp_size m \<and> moe_tp_size m * moe_ep_size m * moe_cluster_size m = tp_size m
     \<and> (1 < moe_cluster_size m \<longrightarrow> moe_ep_size m = 1)"

lemma moe_okD:
  assumes "moe_ok m"
  shows "cp_size m = 1" "dwdp_size m \<le> 1" "0 < moe_tp_size m" "0 < moe_cluster_size m" "0 < moe_ep_size m"
    "moe_tp_cluster_ep_size m = tp_size m" "tp_size m = moe_tp_size m * (moe_cluster_size m * moe_ep_size m)"
    "1 < moe_cluster_size m \<longrightarrow> moe_ep_size m = 1"
  using assms by (simp_all add: moe_ok_def ac_simps)

lemma moe_tp_group_line:
  assumes ok: "groups_ok m" "moe_ok m" and at: "pp_rank m = Inr p" "tp_rank m = Inr t" "0 \<le> p" "p < pp_size m" "0 \<le> t" "t < tp_size m"
  shows "moe_tp_group m = Inr (map (\<lambda>x. p * tp_size m + t mod (moe_cluster_size m * moe_ep_size m) + x * (moe_cluster_size m * moe_ep_size m)) [0..moe_tp_size m - 1])"
proof -
  note D = moe_okD [OF ok(2)]
  let ?s = "moe_cluster_size m * moe_ep_size m"
  have s: "0 < ?s" using D by simp
  define j where "j = t mod ?s"
  have j: "0 \<le> j" "j < ?s" using s by (simp_all add: j_def)
  have idx: "p * moe_cluster_size m * moe_ep_size m + t mod moe_cluster_size m * moe_ep_size m + t mod moe_ep_size m = p * ?s + j"
    using moe_rank_coordinates(1) [of t "moe_cluster_size m" "moe_ep_size m"] D at by (simp add: j_def)
  have "((p + 1) * tp_size m - (p * tp_size m + j) + ?s - 1) = moe_tp_size m * ?s + (?s - 1 - j)" using D(7) by (simp add: algebra_simps)
  then have "((p + 1) * tp_size m - (p * tp_size m + j) + ?s - 1) div ?s = moe_tp_size m" using j by (simp only:) (rule div_mult_add_int; simp)
  then have "py_range (p * tp_size m + j) ((p + 1) * tp_size m) ?s = map (\<lambda>x. p * tp_size m + j + x * ?s) [0..moe_tp_size m - 1]"
    using D s by (intro py_range_ok) auto
  then show ?thesis
    using at D j py_index_grid [of p "pp_size m" j ?s "\<lambda>i j. py_range (i * tp_size m + j) ((i + 1) * tp_size m) ?s"]
    by (simp add: moe_tp_group_def moe_cluster_rank_def moe_ep_rank_def groups_okD [OF ok(1)] init_moe_tp_groups_def idx flip: j_def)
qed

lemma moe_cluster_group_line:
  assumes ok: "groups_ok m" "moe_ok m" and at: "pp_rank m = Inr p" "tp_rank m = Inr t" "0 \<le> p" "p < pp_size m" "0 \<le> t" "t < tp_size m"
  defines "s \<equiv> moe_cluster_size m * moe_ep_size m"
  shows "moe_cluster_group m = Inr (map (\<lambda>x. p * tp_size m + t div s * s + x) [0..s - 1])"
proof -
  note D = moe_okD [OF ok(2)]
  have j: "0 \<le> t div s" "t div s < moe_tp_size m" using D at div_less_int [of t "moe_tp_size m" s] by (simp_all add: s_def pos_imp_zdiv_nonneg_iff)
  have "[p * tp_size m + t div s * moe_cluster_size m * moe_ep_size m..p * tp_size m + (t div s + 1) * moe_cluster_size m * moe_ep_size m - 1]
      = map (\<lambda>x. p * tp_size m + t div s * s + x) [0..s - 1]"
    unfolding shift_upto by (simp add: s_def algebra_simps)
  then show ?thesis
    using at D j py_index_grid [of p "pp_size m" "t div s" "moe_tp_size m" "\<lambda>i j. [i * tp_size m + j * moe_cluster_size m * moe_ep_size m..i * tp_size m + (j + 1) * moe_cluster_size m * moe_ep_size m - 1]"]
    by (simp add: moe_cluster_group_def moe_tp_rank_def groups_okD [OF ok(1)] init_moe_cluster_groups_def s_def ac_simps)
qed

lemma concat_blocks_nth:
  "\<forall>x \<in> set xs. length (f x) = n \<Longrightarrow> i < length xs \<Longrightarrow> j < n \<Longrightarrow> concat (map f xs) ! (i * n + j) = f (xs ! i) ! j"
  by (induction xs arbitrary: i) (auto simp: nth_append nth_Cons' algebra_simps less_Suc_eq_0_disj split: nat.splits)

lemma py_index_blocks:
  assumes "\<And>i. length (f i) = nat b" "0 \<le> p" "p < a" "0 \<le> q" "q < b"
  shows "py_index (concat (map f [0..a - 1])) (p * b + q) = Inr (f p ! nat q)"
proof -
  have n: "nat (p * b + q) = nat p * nat b + nat q" using assms by (simp add: nat_add_distrib nat_mult_distrib)
  have "p * b + q < int (nat a * nat b)" using assms less_mult_add_int [of p a q b] by simp
  then show ?thesis
    using assms concat_blocks_nth [of "[0..a - 1]" f "nat b" "nat p" "nat q"]
    by (subst py_index_ok) (auto simp: length_concat comp_def n nth_upto sum_list_triv)
qed

lemma moe_ep_group_line:
  assumes ok: "groups_ok m" "moe_ok m" and at: "pp_rank m = Inr p" "tp_rank m = Inr t" "0 \<le> p" "p < pp_size m" "0 \<le> t" "t < tp_size m"
  defines "ep \<equiv> moe_ep_size m"
  shows "moe_ep_group m = Inr (map (\<lambda>x. p * tp_size m + t div ep * ep + x) [0..ep - 1])"
proof -
  note D = moe_okD [OF ok(2)]
  define cl mt where "cl = moe_cluster_size m" and "mt = moe_tp_size m"
  define g where "g i j k = [i * tp_size m + j * cl * ep + k * ep..i * tp_size m + j * cl * ep + (k + 1) * ep - 1]" for i j k
  define f where "f i = concat (map (\<lambda>j. map (g i j) [0..cl - 1]) [0..mt - 1])" for i
  have pos: "0 < cl" "0 < ep" "0 < mt" "1 < cl \<longrightarrow> ep = 1" using D by (simp_all add: cl_def ep_def mt_def)
  define a c where "a = t div (ep * cl)" and "c = t mod cl"
  have ac: "0 \<le> a" "a < mt" "0 \<le> c" "c < cl"
    using D at pos div_less_int [of t mt "ep * cl"] by (simp_all add: a_def c_def pos_imp_zdiv_nonneg_iff cl_def mt_def ep_def ac_simps)
  then have q: "0 \<le> a * cl + c" "a * cl + c < mt * cl" using pos less_mult_add_int [of a mt c cl] by simp_all
  have len: "length (f i) = nat (mt * cl)" for i using pos by (simp add: f_def length_concat_grid nat_mult_distrib)
  have "Inr (f p ! nat (a * cl + c)) = py_index (f p) (a * cl + c)" using q by (simp add: py_index_ok len)
  also have "\<dots> = Inr (g p a c)" unfolding f_def by (rule py_index_grid [OF ac])
  finally have e: "f p ! nat (a * cl + c) = g p a c" by simp
  have "moe_ep_group m = py_index (concat (map f [0..pp_size m - 1])) (p * (mt * cl) + (a * cl + c))"
    using at D pos by (simp add: moe_ep_group_def moe_tp_rank_def moe_cluster_rank_def groups_okD [OF ok(1)] init_moe_ep_groups_def
        f_def [abs_def] g_def [abs_def] a_def c_def cl_def mt_def ep_def mult.assoc add.assoc)
  also have "\<dots> = Inr (g p a c)" using py_index_blocks [of f "mt * cl" p "pp_size m" "a * cl + c"] len q at e by simp
  also have "g p a c = map (\<lambda>x. p * tp_size m + t div ep * ep + x) [0..ep - 1]"
    unfolding shift_upto g_def moe_rank_coordinates(2) [OF at(5) pos(1,2,4), folded a_def c_def, symmetric] by (simp add: algebra_simps)
  finally show ?thesis .
qed

lemma mapping_init_moe:
  assumes "mapping_init a = Inr m" "a_cp_size a = 1" "a_dwdp_size a \<le> 1"
  shows "moe_tp_cluster_ep_size m = tp_size m \<and> moe_tp_size m * moe_ep_size m * moe_cluster_size m = tp_size m"
  using assms unfolding mapping_init_def
  by (clarsimp simp: bindR_eq_Inr_iff guardR_eq_Inr_iff check_sizes_def mapping_fields_def total_moe_size_def moe_world_size_def)

lemma mpi_topology_moe_ok:
  assumes "mpi_topology a = Inr m" "a_cp_size a = 1" "a_dwdp_size a \<le> 1" "0 < moe_tp_size m" "0 < moe_cluster_size m" "0 < moe_ep_size m"
  shows "moe_ok m"
proof -
  obtain m0 where m0: "mapping_init a = Inr m0" "m = init_parallel_groups m0"
    using assms(1) by (auto simp: mpi_topology_def bindR_eq_Inr_iff)
  show ?thesis
    using mapping_init_moe [OF m0(1) assms(2,3)] mapping_init_fields [OF m0(1)] assms(2-)
    by (simp add: moe_ok_def m0(2) init_parallel_groups_def)
qed

section \<open>Layers\<close>

text \<open>
  What the tensor library documents: \<open>arange\<close> lists the numbers below its argument; \<open>split\<close> cuts a list into
  consecutive pieces of the given sizes; \<open>tensor_split\<close> cuts it into the given number of consecutive pieces, of
  which the first \<open>n mod k\<close> have one element more.
\<close>

definition arange_documented :: "torch_ops \<Rightarrow> bool" where
  "arange_documented T \<longleftrightarrow> (\<forall>n. 0 \<le> n \<longrightarrow> arange T n = Inr [0..n - 1])"

definition split_documented :: "torch_ops \<Rightarrow> bool" where
  "split_documented T \<longleftrightarrow> (\<forall>xs sizes. (\<forall>n \<in> set sizes. 0 \<le> n) \<longrightarrow> sum_list sizes = int (length xs) \<longrightarrow>
     (\<exists>ys. torch_split T xs sizes = Inr ys \<and> concat ys = xs \<and> map (\<lambda>y. int (length y)) ys = sizes))"

definition tensor_split_documented :: "torch_ops \<Rightarrow> bool" where
  "tensor_split_documented T \<longleftrightarrow> (\<forall>xs k. 0 < k \<longrightarrow>
     (\<exists>ys. tensor_split T xs k = Inr ys \<and> concat ys = xs
        \<and> map (\<lambda>y. int (length y)) ys = map (\<lambda>i. int (length xs) div k + (if i < int (length xs) mod k then 1 else 0)) [0..k - 1]))"

lemma upto_append: "i \<le> j \<Longrightarrow> j \<le> k + 1 \<Longrightarrow> [i..j - 1] @ [j..k] = [i..(k::int)]"
  by (rule nth_equalityI) (auto simp: nth_append nth_upto)

text \<open>Piece \<open>p\<close> of a list of consecutive pieces of \<open>[0..n - 1]\<close> holds the numbers between two partial sums.\<close>

lemma piece_members:
  "concat ys = [s..n - (1::int)] \<Longrightarrow> p < length ys \<Longrightarrow> s \<le> n \<Longrightarrow>
     l \<in> set (ys ! p) \<longleftrightarrow> s + sum_list (map (\<lambda>y. int (length y)) (take p ys)) \<le> l
       \<and> l < s + sum_list (map (\<lambda>y. int (length y)) (take (Suc p) ys))"
proof (induction ys arbitrary: s p)
  case (Cons y ys)
  have le: "int (length y) \<le> n - s"
    using arg_cong [OF Cons.prems(1), of length] Cons.prems(3) by simp
  then have "y @ concat ys = [s..s + int (length y) - 1] @ [s + int (length y)..n - 1]"
    using Cons.prems(1) upto_append [of s "s + int (length y)" "n - 1"] by simp
  then have y: "y = [s..s + int (length y) - 1]" "concat ys = [s + int (length y)..n - 1]"
    using append_eq_append_conv [of y "[s..s + int (length y) - 1]" "concat ys" "[s + int (length y)..n - 1]"] by (simp_all only: length_upto) simp_all
  have sety: "set y = {s..s + int (length y) - 1}" by (metis y(1) set_upto)
  have y3: "s + int (length y) \<le> n" using le by simp
  show ?case
  proof (cases p)
    case 0
    then show ?thesis using sety by auto
  next
    case (Suc q)
    then show ?thesis using Cons.IH [OF y(2) _ y3, of q] Cons.prems(2) by (simp add: add.assoc)
  qed
qed simp

text \<open>The loop over a partition stops at the piece whose bounds hold the layer.\<close>

lemma partition_rank_spec:
  "\<forall>n \<in> set ps. 0 \<le> n \<Longrightarrow> start \<le> l \<Longrightarrow> l < start + sum_list ps \<Longrightarrow>
     \<exists>p < length ps. partition_rank l pr start ps = Inr (pr + int p)
       \<and> start + sum_list (take p ps) \<le> l \<and> l < start + sum_list (take (Suc p) ps)"
proof (induction ps arbitrary: pr start)
  case (Cons n ns)
  show ?case
  proof (cases "l < start + n")
    case True
    then show ?thesis using Cons.prems by (intro exI [of _ 0]) simp
  next
    case False
    then obtain p where "p < length ns" "partition_rank l (pr + 1) (start + n) ns = Inr (pr + 1 + int p)"
      "start + n + sum_list (take p ns) \<le> l" "l < start + n + sum_list (take (Suc p) ns)"
      using Cons.IH [of "start + n" "pr + 1"] Cons.prems by (auto simp: add.assoc)
    with False show ?thesis by (intro exI [of _ "Suc p"]) (simp add: add.assoc)
  qed
qed simp

text \<open>At most one piece holds a given number.\<close>

lemma piece_unique:
  assumes "\<forall>n \<in> set ps. (0::int) \<le> n" "sum_list (take p ps) \<le> l" "l < sum_list (take (Suc p) ps)"
    "sum_list (take q ps) \<le> l" "l < sum_list (take (Suc q) ps)"
  shows "p = q"
proof -
  have mono: "sum_list (take i ps) \<le> sum_list (take j ps)" if "i \<le> j" for i j
  proof -
    have "take j ps = take i ps @ take (j - i) (drop i ps)" using that take_add [of i "j - i" ps] by simp
    moreover have "0 \<le> sum_list (take (j - i) (drop i ps))"
      using assms(1) by (intro sum_list_nonneg) (meson in_set_dropD in_set_takeD)
    ultimately show ?thesis by simp
  qed
  show ?thesis
    using mono [of "Suc p" q] mono [of "Suc q" p] assms by (cases p q rule: linorder_cases) auto
qed

text \<open>The sizes of an even split and the bounds of its pieces.\<close>

definition even_sizes :: "int \<Rightarrow> int \<Rightarrow> int list" where
  "even_sizes n k = map (\<lambda>i. n div k + (if i < n mod k then 1 else 0)) [0..k - 1]"

lemma sum_even_sizes:
  "0 < k \<Longrightarrow> int p \<le> k \<Longrightarrow> sum_list (take p (even_sizes n k)) = int p * (n div k) + min (int p) (n mod k)"
proof (induction p)
  case (Suc p)
  then have "take (Suc p) (even_sizes n k) = take p (even_sizes n k) @ [n div k + (if int p < n mod k then 1 else 0)]"
    by (simp add: take_Suc_conv_app_nth even_sizes_def nth_upto)
  then show ?case using Suc by (auto simp: algebra_simps min_def)
qed simp

lemma even_sizes_props:
  assumes "0 < k" "0 \<le> n"
  shows "int (length (even_sizes n k)) = k" "sum_list (even_sizes n k) = n" "\<forall>x \<in> set (even_sizes n k). 0 \<le> x"
proof -
  have "min k (n mod k) = n mod k" using assms(1) by (simp add: min_absorb2 less_imp_le)
  then show "sum_list (even_sizes n k) = n" using sum_even_sizes [of k "nat k" n] assms by (simp add: even_sizes_def)
  show "int (length (even_sizes n k)) = k" "\<forall>x \<in> set (even_sizes n k). 0 \<le> x"
    using assms by (auto simp: even_sizes_def pos_imp_zdiv_nonneg_iff)
qed

text \<open>The closed form of the stage of a layer meets those bounds.\<close>

definition even_rank :: "int \<Rightarrow> int \<Rightarrow> int \<Rightarrow> int" where
  "even_rank n k l = (let base = n div k; rm = n mod k in if base = 0 then l
     else if l < (base + 1) * rm then l div (base + 1) else rm + (l - (base + 1) * rm) div base)"

lemma even_rank_bounds:
  assumes "0 < k" "0 \<le> l" "l < n"
  defines "r \<equiv> even_rank n k l" and "b \<equiv> n div k" and "m \<equiv> n mod k"
  shows "0 \<le> r \<and> r < k \<and> r * b + min r m \<le> l \<and> l < (r + 1) * b + min (r + 1) m"
proof -
  have n: "n = b * k + m" "0 \<le> m" "m < k" "0 \<le> b" using assms by (simp_all add: b_def m_def pos_imp_zdiv_nonneg_iff)
  consider "b = 0" | "0 < b" "l < (b + 1) * m" | "0 < b" "(b + 1) * m \<le> l" using n by linarith
  then show ?thesis
  proof cases
    case 1
    then show ?thesis using n assms(2,3) by (simp add: r_def even_rank_def flip: b_def m_def)
  next
    case 2
    then have r: "r = l div (b + 1)" by (simp add: r_def even_rank_def Let_def flip: b_def m_def)
    have "r < m" unfolding r using 2 by (intro div_less_int) (simp_all add: mult.commute)
    moreover have "0 \<le> r" using 2 assms(2) by (simp add: r pos_imp_zdiv_nonneg_iff)
    moreover have "r * (b + 1) \<le> l" "l < r * (b + 1) + (b + 1)"
      using 2 pos_mod_sign [of "b + 1" l] pos_mod_bound [of "b + 1" l] minus_mod_eq_div_mult [of l "b + 1"] unfolding r by linarith+
    ultimately show ?thesis using n by (simp add: algebra_simps min_def)
  next
    case 3
    define d where "d = l - (b + 1) * m"
    have r: "r = m + d div b" using 3 by (simp add: r_def even_rank_def Let_def d_def flip: b_def m_def)
    have "d < (k - m) * b" using n(1) assms(3) by (simp add: d_def algebra_simps)
    then have "d div b < k - m" using 3 by (intro div_less_int)
    moreover have "0 \<le> d div b" using 3 by (simp add: d_def pos_imp_zdiv_nonneg_iff)
    moreover have "d div b * b \<le> d" "d < d div b * b + b"
      using 3 pos_mod_sign [of b d] pos_mod_bound [of b d] minus_mod_eq_div_mult [of d b] by linarith+
    ultimately show ?thesis using n 3(2) by (simp add: r d_def algebra_simps min_def)
  qed
qed

definition stage_sizes :: "par_mapping \<Rightarrow> int \<Rightarrow> int list" where
  "stage_sizes m n = (case pp_partition m of Some ps \<Rightarrow> ps | None \<Rightarrow> even_sizes n (pp_size m))"

definition partition_ok :: "par_mapping \<Rightarrow> int \<Rightarrow> bool" where
  "partition_ok m n \<longleftrightarrow> (case pp_partition m of None \<Rightarrow> True
     | Some ps \<Rightarrow> int (length ps) = pp_size m \<and> sum_list ps = n \<and> (\<forall>x \<in> set ps. 0 \<le> x))"

lemma stage_sizes_props:
  assumes "0 < pp_size m" "0 \<le> n" "partition_ok m n"
  shows "int (length (stage_sizes m n)) = pp_size m" "sum_list (stage_sizes m n) = n" "\<forall>x \<in> set (stage_sizes m n). 0 \<le> x"
proof -
  show "int (length (stage_sizes m n)) = pp_size m" "sum_list (stage_sizes m n) = n" "\<forall>x \<in> set (stage_sizes m n). 0 \<le> x"
    using assms even_sizes_props [of "pp_size m" n] by (auto simp: stage_sizes_def partition_ok_def split: option.splits)
qed

lemma pp_layers_piece:
  assumes T: "arange_documented T" "split_documented T" "tensor_split_documented T"
    and m: "0 < pp_size m" "0 \<le> n" "partition_ok m n" and p: "pp_rank m = Inr p" "0 \<le> p" "p < pp_size m"
  obtains ys where "pp_layers T m n = Inr (ys ! nat p)" "concat ys = [0..n - 1]" "map (\<lambda>y. int (length y)) ys = stage_sizes m n"
proof (cases "pp_partition m")
  case None
  obtain ys where ys: "tensor_split T [0..n - 1] (pp_size m) = Inr ys" "concat ys = [0..n - 1]" "map (\<lambda>y. int (length y)) ys = even_sizes n (pp_size m)"
    using T(3) [unfolded tensor_split_documented_def, rule_format, OF m(1), of "[0..n - 1]"] m(2) by (auto simp: even_sizes_def)
  have "int (length ys) = pp_size m" using arg_cong [OF ys(3), of length] m by (simp add: even_sizes_def)
  then show thesis
    using that [of ys] ys T(1) m p None by (simp add: pp_layers_def arange_documented_def stage_sizes_def py_index_ok)
next
  case (Some ps)
  with m have ps: "int (length ps) = pp_size m" "sum_list ps = n" "\<forall>x \<in> set ps. 0 \<le> x" by (auto simp: partition_ok_def)
  obtain ys where ys: "torch_split T [0..n - 1] ps = Inr ys" "concat ys = [0..n - 1]" "map (\<lambda>y. int (length y)) ys = ps"
    using T(2) [unfolded split_documented_def, rule_format, of ps "[0..n - 1]"] ps m(2) by auto
  have "int (length ys) = pp_size m" using arg_cong [OF ys(3), of length] ps by simp
  then show thesis
    using that [of ys] ys T(1) m p Some ps by (simp add: pp_layers_def arange_documented_def stage_sizes_def py_index_ok check_partition_def)
qed

lemma pp_rank_of_layer_piece:
  assumes "0 < pp_size m" "partition_ok m n" "0 \<le> l" "l < n"
  shows "\<exists>p. pp_rank_of_layer m l n = Inr (int p) \<and> int p < pp_size m
    \<and> sum_list (take p (stage_sizes m n)) \<le> l \<and> l < sum_list (take (Suc p) (stage_sizes m n))"
proof -
  have n: "0 \<le> n" using assms by simp
  note S = stage_sizes_props [OF assms(1) n assms(2)]
  show ?thesis
  proof (cases "has_pp m")
    case False
    then have "pp_size m = 1" using assms(1) by (simp add: has_pp_def)
    then have "length (stage_sizes m n) = Suc 0" using S(1) by simp
    then show ?thesis using False assms S(2) by (intro exI [of _ 0]) (simp add: pp_rank_of_layer_def \<open>pp_size m = 1\<close>)
  next
    case True
    show ?thesis
    proof (cases "pp_partition m")
      case None
      have r: "pp_rank_of_layer m l n = Inr (even_rank n (pp_size m) l)"
        using True None assms by (simp add: pp_rank_of_layer_def even_rank_def Let_def)
      note E = even_rank_bounds [OF assms(1,3,4)]
      show ?thesis
        using E sum_even_sizes [of "pp_size m" "nat (even_rank n (pp_size m) l)" n]
          sum_even_sizes [of "pp_size m" "Suc (nat (even_rank n (pp_size m) l))" n] assms(1) None
        by (intro exI [of _ "nat (even_rank n (pp_size m) l)"]) (simp add: r stage_sizes_def add.commute)
    next
      case (Some ps)
      then show ?thesis
        using True assms S partition_rank_spec [of ps 0 l 0]
        by (auto simp: pp_rank_of_layer_def stage_sizes_def check_partition_def)
    qed
  qed
qed

lemma pp_stage_agreement:
  assumes T: "arange_documented T" "split_documented T" "tensor_split_documented T"
    and m: "map_ok m" "partition_ok m n" and l: "0 \<le> l" "l < n"
  shows "\<exists>p. pp_rank_of_layer m l n = Inr p \<and> 0 \<le> p \<and> p < pp_size m
    \<and> (\<exists>layers. pp_layers T m n = Inr layers \<and> (l \<in> set layers \<longleftrightarrow> pp_rank m = Inr p))"
proof -
  note D = map_okD [OF m(1)]
  obtain p where p: "pp_rank_of_layer m l n = Inr (int p)" "int p < pp_size m"
    "sum_list (take p (stage_sizes m n)) \<le> l" "l < sum_list (take (Suc p) (stage_sizes m n))"
    using pp_rank_of_layer_piece [OF D(3) m(2) l] by (elim exE conjE)
  obtain q t c where q: "pp_rank m = Inr q" "0 \<le> q" "q < pp_size m" by (rule rank_coordinates [OF m(1)])
  obtain ys where ys: "pp_layers T m n = Inr (ys ! nat q)" "concat ys = [0..n - 1]" "map (\<lambda>y. int (length y)) ys = stage_sizes m n"
    by (rule pp_layers_piece [OF T D(3) _ m(2) q]) (use l in simp)
  note S = stage_sizes_props [OF D(3) _ m(2)]
  have len: "nat q < length ys" using arg_cong [OF ys(3), of length] S(1) q l by simp
  have mem: "l \<in> set (ys ! nat q) \<longleftrightarrow> sum_list (take (nat q) (stage_sizes m n)) \<le> l \<and> l < sum_list (take (Suc (nat q)) (stage_sizes m n))"
    using piece_members [OF ys(2) len, of l] l by (simp add: take_map flip: ys(3))
  have "l \<in> set (ys ! nat q) \<longleftrightarrow> q = int p"
    unfolding mem using piece_unique [OF S(3) p(3,4), of "nat q"] p(3,4) q l by auto
  then show ?thesis using p ys(1) q by (intro exI [of _ "int p"]) auto
qed

section \<open>Dictionary form\<close>

lemma dict_set_twice: "dict_set k v (dict_set k v d) = dict_set k v d"
  by (induction d) auto

lemma upper_cp_name: "map upper_char (cp_name t) = cp_name t"
  by (cases t) (simp_all add: upper_char_def)

lemma resolve_cp_type_again:
  assumes "resolve_cp_type c = Inr (config, ty)"
  defines "d \<equiv> (case config of None \<Rightarrow> [] | Some d \<Rightarrow> d)"
  shows "resolve_cp_type (Some d) = Inr (Some d, ty)"
proof (cases c)
  case None
  then show ?thesis using assms by (simp add: resolve_cp_type_def)
next
  case (Some e)
  show ?thesis
  proof (cases "map_of e ''cp_type''")
    case None
    then show ?thesis using assms Some by (auto simp: resolve_cp_type_def)
  next
    case (Some v)
    show ?thesis
    proof (cases v)
      case (CfgStr x)
      then obtain t where "map upper_char x = cp_name t" "d = dict_set ''cp_type'' (CfgStr (cp_name t)) e" "ty = CfgStr (cp_name t)"
        using assms \<open>c = Some e\<close> Some by (auto simp: resolve_cp_type_def Let_def guardR_eq_Inr_iff simp del: cp_name.simps)
      then show ?thesis
        by (cases t) (simp_all add: resolve_cp_type_def Let_def dict_set_twice upper_char_def)
    next
      case (CfgInt x)
      then show ?thesis using assms \<open>c = Some e\<close> Some by (auto simp: resolve_cp_type_def)
    qed
  qed
qed

lemma resolve_moe_sizes_again:
  assumes "resolve_moe_sizes dwdp w cl tp ep = Inr (cl', tp', ep')" "cl \<noteq> -1"
  shows "resolve_moe_sizes dwdp w cl' tp' ep' = Inr (cl', tp', ep') \<and> (tp' \<noteq> -1 \<or> ep' \<noteq> -1) \<and> cl' \<noteq> -1"
  using assms by (auto simp: resolve_moe_sizes_def floordiv_def guardR_eq_Inr_iff bindR_eq_Inr_iff split: if_splits)

lemma resolve_attn_sizes_again:
  assumes "resolve_attn_sizes ty tp cp a b = Inr (a', b')" "0 < tp" "0 < cp"
  shows "resolve_attn_sizes ty tp cp a' b' = Inr (a', b')"
proof -
  have "0 < tp * cp" using assms by simp
  then have "tp * cp \<noteq> -1" "tp \<noteq> -1" "cp \<noteq> -1" using assms by linarith+
  with assms(1) show ?thesis
    by (auto simp: resolve_attn_sizes_def floordiv_def guardR_eq_Inr_iff bindR_eq_Inr_iff split: if_splits)
qed

lemma default_cluster: "default_moe_cluster c \<noteq> -1"
  by (simp add: default_moe_cluster_def)

lemma mapping_init_again:
  assumes "mapping_init a = Inr m" "0 < a_tp_size a" "0 < a_cp_size a"
  shows "mapping_init (to_dict m) = Inr (m\<lparr>pp_partition := None, moe_tp_ep_user_specified := dwdp_size m \<le> 1\<rparr>)"
  using assms(1) unfolding mapping_init_def [of a]
proof (clarsimp simp: bindR_eq_Inr_iff, goal_cases)
  case (1 config ty cl tp ep attn_tp attn_cp)
  note cp = resolve_cp_type_again [OF 1(2)]
  note moe = resolve_moe_sizes_again [OF 1(3) default_cluster]
  note attn = resolve_attn_sizes_again [OF 1(4) assms(2,3)]
  have d: "default_moe_cluster cl = cl" using moe by (simp add: default_moe_cluster_def)
  let ?b = "to_dict (mapping_fields a config cl tp ep attn_tp attn_cp)"
  have "check_sizes ?b = check_sizes a"
    by (intro ext) (simp add: check_sizes_def to_dict_def default_args_def mapping_fields_def)
  then have "mapping_init ?b = Inr (mapping_fields ?b (Some (case config of None \<Rightarrow> [] | Some d \<Rightarrow> d)) cl tp ep attn_tp attn_cp)"
    unfolding mapping_init_def using 1 cp moe attn d by (simp add: to_dict_def default_args_def mapping_fields_def)
  then show ?case using moe by (auto simp: to_dict_def default_args_def mapping_fields_def)
qed

section \<open>Properties\<close>

text \<open>Eight ranks in two pipeline stages of two tensor and two helix context ranks; this is rank five.\<close>

definition helix_args :: mapping_args where
  "helix_args = default_args\<lparr>a_world_size := 8, a_rank := 5, a_cp_size := 2, a_cp_config := Some [(''cp_type'', CfgStr ''helix'')],
     a_tp_size := 2, a_pp_size := 2, a_pp_partition := Some [3, 2]\<rparr>"

text \<open>Eight ranks in one pipeline of two stages, the experts over two groups of two.\<close>

definition moe_args :: mapping_args where
  "moe_args = default_args\<lparr>a_world_size := 8, a_rank := 6, a_tp_size := 4, a_pp_size := 2, a_moe_ep_size := 2\<rparr>"

lemmas mapping_eval = mpi_topology_def mapping_init_def check_dwdp_def resolve_cp_type_def resolve_moe_sizes_def resolve_attn_sizes_def
  check_sizes_def check_rank_def default_args_def default_moe_cluster_def moe_world_size_def total_moe_size_def

lemma upper_helix: "map upper_char ''helix'' = ''HELIX''"
  by code_simp

lemma helix_config: "resolve_cp_type (Some [(''cp_type'', CfgStr ''helix'')]) = Inr (Some [(''cp_type'', CfgStr ''HELIX'')], CfgStr ''HELIX'')"
  unfolding resolve_cp_type_def by (simp add: upper_helix Let_def del: list.map)

lemma helix_built: "\<exists>m. mpi_topology helix_args = Inr m"
  using helix_config by (simp add: helix_args_def mpi_topology_def mapping_init_def check_dwdp_def resolve_moe_sizes_def resolve_attn_sizes_def
    check_sizes_def check_rank_def default_args_def default_moe_cluster_def moe_world_size_def total_moe_size_def)

lemma moe_built: "\<exists>m. mpi_topology moe_args = Inr m \<and> moe_tp_size m = 2 \<and> moe_cluster_size m = 1 \<and> moe_ep_size m = 2"
  by (simp add: moe_args_def mapping_eval mapping_fields_def init_parallel_groups_def)

text \<open>C21: a rank has one pipeline, one tensor and one context coordinate, each in range, and is the only rank with
  them; its tensor, pipeline and context groups are the lines through it along that coordinate, in order.\<close>

theorem mpi_groups_are_lines:
  assumes "mpi_topology a = Inr m" "0 < a_tp_size a" "0 < a_cp_size a" "0 < a_pp_size a" "0 \<le> a_rank a" "a_rank a < a_world_size a"
  shows "\<exists>p t c. pp_rank m = Inr p \<and> tp_rank m = Inr t \<and> cp_rank m = Inr c
    \<and> 0 \<le> p \<and> p < pp_size m \<and> 0 \<le> t \<and> t < tp_size m \<and> 0 \<le> c \<and> c < cp_size m \<and> rank m = (p * tp_size m + t) * cp_size m + c
    \<and> tp_group m = Inr (map (\<lambda>x. (p * tp_size m + x) * cp_size m + c) [0..tp_size m - 1])
    \<and> pp_group m = Inr (map (\<lambda>x. (x * tp_size m + t) * cp_size m + c) [0..pp_size m - 1])
    \<and> cp_group m = Inr (map (\<lambda>x. (p * tp_size m + t) * cp_size m + x) [0..cp_size m - 1])"
proof -
  note ok = mpi_topology_ok [OF assms]
  obtain p t c where at: "pp_rank m = Inr p" "tp_rank m = Inr t" "cp_rank m = Inr c" "0 \<le> p" "p < pp_size m"
    "0 \<le> t" "t < tp_size m" "0 \<le> c" "c < cp_size m" "rank m = rank_at m p t c" by (rule rank_coordinates [OF ok(1)])
  show ?thesis
    using at tp_group_line [OF ok at(1,3,4,5,8,9)] pp_group_line [OF ok at(2,3,6-9)] cp_group_line [OF ok at(1,2,4-7)]
    by (intro exI [of _ p] exI [of _ t] exI [of _ c]) (simp add: rank_at_def [abs_def])
qed

theorem mpi_groups_are_lines_witness:
  "\<exists>m. mpi_topology helix_args = Inr m \<and> (\<exists>p t c. pp_rank m = Inr p \<and> tp_rank m = Inr t \<and> cp_rank m = Inr c
    \<and> tp_group m = Inr (map (\<lambda>x. (p * tp_size m + x) * cp_size m + c) [0..tp_size m - 1]))"
proof -
  obtain m where m: "mpi_topology helix_args = Inr m" by (rule exE [OF helix_built])
  show ?thesis using mpi_groups_are_lines [OF m] m by (auto simp: helix_args_def default_args_def)
qed

text \<open>C22: the next and previous pipeline rank of a rank keep its other coordinates and move one stage around the ring
  of stages, the next and previous context rank move one step around its context group, and each undoes the other.\<close>

theorem neighbour_rings:
  assumes "map_ok m" "rank m = rank_at m p t c" "0 \<le> p" "p < pp_size m" "0 \<le> t" "t < tp_size m" "0 \<le> c" "c < cp_size m"
  shows "next_pp_rank m = rank_at m ((p + 1) mod pp_size m) t c \<and> prev_pp_rank m = rank_at m ((p - 1) mod pp_size m) t c
    \<and> prev_pp_rank (m\<lparr>rank := next_pp_rank m\<rparr>) = rank m \<and> next_pp_rank (m\<lparr>rank := prev_pp_rank m\<rparr>) = rank m
    \<and> next_cp_rank m = Inr (rank_at m p t ((c + 1) mod cp_size m)) \<and> prev_cp_rank m = Inr (rank_at m p t ((c - 1) mod cp_size m))
    \<and> prev_cp_rank (m\<lparr>rank := rank_at m p t ((c + 1) mod cp_size m)\<rparr>) = Inr (rank m)
    \<and> next_cp_rank (m\<lparr>rank := rank_at m p t ((c - 1) mod cp_size m)\<rparr>) = Inr (rank m)"
proof -
  let ?p1 = "(p + 1) mod pp_size m" and ?p2 = "(p - 1) mod pp_size m" and ?c1 = "(c + 1) mod cp_size m" and ?c2 = "(c - 1) mod cp_size m"
  note D = map_okD [OF assms(1)]
  have P: "0 \<le> ?p1" "?p1 < pp_size m" "0 \<le> ?p2" "?p2 < pp_size m" "0 \<le> ?c1" "?c1 < cp_size m" "0 \<le> ?c2" "?c2 < cp_size m"
    using D by simp_all
  have inv: "(?p1 - 1) mod pp_size m = p" "(?p2 + 1) mod pp_size m = p" "(?c1 - 1) mod cp_size m = c" "(?c2 + 1) mod cp_size m = c"
    using assms by (simp_all add: mod_simps)
  have N: "next_pp_rank m = rank_at m ?p1 t c" "prev_pp_rank m = rank_at m ?p2 t c" by (rule pp_neighbours [OF assms])+
  note ok = map_ok_set_rank [OF assms(1) rank_at_bounds [OF assms(1)]]
  have "prev_pp_rank (m\<lparr>rank := next_pp_rank m\<rparr>) = rank m" "next_pp_rank (m\<lparr>rank := prev_pp_rank m\<rparr>) = rank m"
    unfolding N assms(2)
    using pp_neighbours(2) [OF ok [OF P(1,2) assms(5-8) P(1,2) assms(5-8)], of ?p1 t c] pp_neighbours(1) [OF ok [OF P(3,4) assms(5-8) P(3,4) assms(5-8)], of ?p2 t c]
      P(1-4) inv(1,2) assms(5-8) by simp_all
  moreover have cp: "cp_rank (m\<lparr>rank := rank_at m p t x\<rparr>) = Inr x" if "0 \<le> x" "x < cp_size m" for x
    using rank_at_decode(3) [OF assms(1,3,5,6) that] .
  moreover have "prev_cp_rank (m\<lparr>rank := rank_at m p t ?c1\<rparr>) = Inr (rank m)" "next_cp_rank (m\<lparr>rank := rank_at m p t ?c2\<rparr>) = Inr (rank m)"
    using cp_neighbours(2) [of "m\<lparr>rank := rank_at m p t ?c1\<rparr>" p t ?c1] cp_neighbours(1) [of "m\<lparr>rank := rank_at m p t ?c2\<rparr>" p t ?c2] cp P inv assms(2) by simp_all
  moreover have "cp_rank m = Inr c" using cp [OF assms(7,8)] assms(2) by (simp add: cp_rank_def)
  ultimately show ?thesis using N cp_neighbours [OF assms(2) _ assms(7,8)] by simp
qed

lemma helix_mapping:
  assumes "mpi_topology helix_args = Inr m"
  shows "map_ok m" "tp_size m = 2" "cp_size m = 2" "pp_size m = 2" "rank m = 5" "pp_partition m = Some [3, 2]"
proof -
  show "map_ok m" by (rule mpi_topology_ok [OF assms]) (simp_all add: helix_args_def default_args_def)
  obtain m0 where "mapping_init helix_args = Inr m0" "m = init_parallel_groups m0"
    using assms by (auto simp: mpi_topology_def bindR_eq_Inr_iff)
  then show "tp_size m = 2" "cp_size m = 2" "pp_size m = 2" "rank m = 5" "pp_partition m = Some [3, 2]"
    using mapping_init_fields [of helix_args m0] by (simp_all add: init_parallel_groups_def helix_args_def default_args_def)
qed

theorem neighbour_rings_witness:
  "\<exists>m. mpi_topology helix_args = Inr m \<and> rank m = 5 \<and> next_pp_rank m = 1 \<and> prev_pp_rank m = 1 \<and> next_cp_rank m = Inr 4 \<and> prev_cp_rank m = Inr 4"
proof -
  obtain m where m: "mpi_topology helix_args = Inr m" by (rule exE [OF helix_built])
  note H = helix_mapping [OF m]
  show ?thesis using neighbour_rings [OF H(1), of 1 0 1] m H by (simp add: rank_at_def)
qed

lemma div_mod_block:
  assumes "r div (k * s) = (p::int)"
  shows "r = p * (k * s) + (r mod (k * s) div s * s + r mod (k * s) mod s)"
proof -
  have "r = r div (k * s) * (k * s) + r mod (k * s)" "r mod (k * s) = r mod (k * s) div s * s + r mod (k * s) mod s"
    by (rule div_mult_mod_eq [symmetric])+
  then show ?thesis unfolding assms by linarith
qed

lemma block_set:
  assumes "0 < (s::int)" "0 \<le> j" "j < k"
  shows "(\<lambda>x. p * (k * s) + j * s + x) ` {0..s - 1} = {r. r div (k * s) = p \<and> r mod (k * s) div s = j}" (is "?A = ?B")
proof (rule set_eqI, rule iffI)
  fix r assume "r \<in> ?A"
  then obtain x where "x \<in> {0..s - 1}" "r = p * (k * s) + j * s + x" by (rule imageE)
  then have x: "0 \<le> x" "x < s" "r = p * (k * s) + (j * s + x)" by simp_all
  show "r \<in> ?B" using less_mult_add_int [OF assms(2,3) x(1,2)] assms x by simp
next
  fix r assume r: "r \<in> ?B"
  then have "r = p * (k * s) + j * s + r mod (k * s) mod s" using div_mod_block [of r k s p] by (simp only: mem_Collect_eq add.assoc)
  moreover have "r mod (k * s) mod s \<in> {0..s - 1}" using assms(1) by simp
  ultimately show "r \<in> ?A" by (rule image_eqI)
qed

lemma stride_set:
  assumes "0 < (s::int)" "0 \<le> j" "j < s"
  shows "(\<lambda>x. p * (k * s) + j + x * s) ` {0..k - 1} = {r. r div (k * s) = p \<and> r mod (k * s) mod s = j \<and> 0 < k}" (is "?A = ?B")
proof (rule set_eqI, rule iffI)
  fix r assume "r \<in> ?A"
  then obtain x where "x \<in> {0..k - 1}" "r = p * (k * s) + j + x * s" by (rule imageE)
  then have x: "0 \<le> x" "x < k" "r = p * (k * s) + (x * s + j)" by simp_all
  show "r \<in> ?B" using less_mult_add_int [OF x(1,2) assms(2,3)] assms x by simp
next
  fix r assume r: "r \<in> ?B"
  then have rj: "r mod (k * s) mod s = j" and rp: "r div (k * s) = p" by simp_all
  have "r = p * (k * s) + j + r mod (k * s) div s * s" using div_mod_block [OF rp] unfolding rj by linarith
  moreover have "r mod (k * s) div s \<in> {0..k - 1}"
    using r assms(1) div_less_int [of "r mod (k * s)" k s] by (simp add: pos_imp_zdiv_nonneg_iff)
  ultimately show "r \<in> ?A" by (rule image_eqI)
qed

text \<open>C24: without context parallelism (\<open>cp_size = 1\<close>), with distributed weight data parallelism switched off
  (\<open>dwdp_size \<le> 1\<close>) and positive sizes, the three expert groups of a rank are the ranks of its stage that agree with it
  on the other expert coordinates, and each of them holds the rank itself. With \<open>dwdp_size > 1\<close> this does not hold: the
  expert sizes are forced to one, and a group is no longer found by the coordinates of the rank.\<close>

theorem moe_groups_hold_rank:
  assumes "mpi_topology a = Inr m" "a_cp_size a = 1" "a_dwdp_size a \<le> 1" "0 < a_tp_size a" "0 < a_pp_size a" "0 \<le> a_rank a" "a_rank a < a_world_size a"
    "0 < moe_tp_size m" "0 < moe_cluster_size m" "0 < moe_ep_size m"
  shows "\<exists>p t gt ge gc. pp_rank m = Inr p \<and> tp_rank m = Inr t
    \<and> moe_tp_group m = Inr gt \<and> set gt = {r. r div tp_size m = p \<and> r mod tp_size m mod (moe_cluster_size m * moe_ep_size m) = t mod (moe_cluster_size m * moe_ep_size m)}
    \<and> moe_ep_group m = Inr ge \<and> set ge = {r. r div tp_size m = p \<and> r mod tp_size m div moe_ep_size m = t div moe_ep_size m}
    \<and> moe_cluster_group m = Inr gc \<and> set gc = {r. r div tp_size m = p \<and> r mod tp_size m div (moe_cluster_size m * moe_ep_size m) = t div (moe_cluster_size m * moe_ep_size m)}
    \<and> rank m \<in> set gt \<and> rank m \<in> set ge \<and> rank m \<in> set gc"
proof -
  note ok = mpi_topology_ok [OF assms(1,4) _ assms(5-7)]
  have ok': "map_ok m" "groups_ok m" "moe_ok m" using ok mpi_topology_moe_ok [OF assms(1-3,8-10)] assms(2) by simp_all
  note D = moe_okD [OF ok'(3)]
  obtain p t c where at: "pp_rank m = Inr p" "tp_rank m = Inr t" "0 \<le> p" "p < pp_size m" "0 \<le> t" "t < tp_size m"
    "0 \<le> c" "c < cp_size m" "rank m = rank_at m p t c" by (rule rank_coordinates [OF ok'(1)])
  define s where "s = moe_cluster_size m * moe_ep_size m"
  have s: "0 < s" "tp_size m = moe_tp_size m * s" using D by (simp_all add: s_def)
  define q where "q = moe_tp_size m * moe_cluster_size m"
  have e: "0 < moe_ep_size m" "tp_size m = q * moe_ep_size m" using D by (simp_all add: q_def)
  have r: "rank m = p * tp_size m + t" using at(7-9) D(1) by (simp add: rank_at_def)
  have rc: "rank m div tp_size m = p" "rank m mod tp_size m = t" using at(5,6) by (simp_all add: r)
  have js: "0 \<le> t div s" "t div s < moe_tp_size m" and je: "0 \<le> t div moe_ep_size m" "t div moe_ep_size m < q"
    using at(5,6) s e div_less_int [of t "moe_tp_size m" s] div_less_int [of t q "moe_ep_size m"] by (simp_all add: pos_imp_zdiv_nonneg_iff)
  have gt: "(\<lambda>x. p * tp_size m + t mod s + x * s) ` {0..moe_tp_size m - 1} = {r. r div tp_size m = p \<and> r mod tp_size m mod s = t mod s}"
    using stride_set [OF s(1), of "t mod s" p "moe_tp_size m"] s D(3) by simp
  have ge: "(\<lambda>x. p * tp_size m + t div moe_ep_size m * moe_ep_size m + x) ` {0..moe_ep_size m - 1} = {r. r div tp_size m = p \<and> r mod tp_size m div moe_ep_size m = t div moe_ep_size m}"
    unfolding e(2) by (rule block_set [OF e(1) je])
  have gc: "(\<lambda>x. p * tp_size m + t div s * s + x) ` {0..s - 1} = {r. r div tp_size m = p \<and> r mod tp_size m div s = t div s}"
    unfolding s(2) by (rule block_set [OF s(1) js])
  show ?thesis unfolding s_def [symmetric]
  proof (intro exI conjI)
    show "pp_rank m = Inr p" "tp_rank m = Inr t" by (fact at)+
    show "moe_tp_group m = Inr (map (\<lambda>x. p * tp_size m + t mod s + x * s) [0..moe_tp_size m - 1])"
      unfolding s_def by (rule moe_tp_group_line [OF ok'(2,3) at(1-6)])
    show "moe_ep_group m = Inr (map (\<lambda>x. p * tp_size m + t div moe_ep_size m * moe_ep_size m + x) [0..moe_ep_size m - 1])"
      by (rule moe_ep_group_line [OF ok'(2,3) at(1-6)])
    show "moe_cluster_group m = Inr (map (\<lambda>x. p * tp_size m + t div s * s + x) [0..s - 1])"
      unfolding s_def by (rule moe_cluster_group_line [OF ok'(2,3) at(1-6)])
  qed (simp_all only: set_map set_upto gt ge gc mem_Collect_eq rc)
qed

theorem moe_groups_hold_rank_witness:
  "\<exists>m gt. mpi_topology moe_args = Inr m \<and> moe_tp_group m = Inr gt \<and> rank m \<in> set gt"
proof -
  obtain m where m: "mpi_topology moe_args = Inr m" "moe_tp_size m = 2" "moe_cluster_size m = 1" "moe_ep_size m = 2"
    using moe_built by (elim exE conjE)
  show ?thesis using moe_groups_hold_rank [OF m(1)] m by (auto simp: moe_args_def default_args_def)
qed

text \<open>With Ulysses context parallelism the expert tensor group of a rank need not hold the rank.\<close>

definition ulysses_args :: mapping_args where
  "ulysses_args = default_args\<lparr>a_world_size := 4, a_rank := 3, a_cp_size := 2, a_tp_size := 2\<rparr>"

lemma ulysses_moe_group_without_rank: "bindR (mpi_topology ulysses_args) moe_tp_group = Inr [0, 1] \<and> bindR (mpi_topology ulysses_args) (\<lambda>m. Inr (rank m)) = Inr 3"
  by code_simp

text \<open>With distributed weight data parallelism the expert groups do not cover the ranks: the tensor group of rank 2 is
  \<open>[0]\<close>, and there is no expert group for it.\<close>

definition dwdp_args :: mapping_args where
  "dwdp_args = default_args\<lparr>a_world_size := 4, a_rank := 2, a_tp_size := 4, a_dwdp_size := 4, a_dwdp_rank := 2\<rparr>"

lemma dwdp_moe_group_without_rank:
  "bindR (mpi_topology dwdp_args) moe_tp_group = Inr [0] \<and> bindR (mpi_topology dwdp_args) moe_ep_group = Inl IndexError"
  by code_simp

text \<open>C23: a layer is on exactly the pipeline stage that \<open>pp_rank_of_layer\<close> names: each rank's list of layers exists, and
  holds the layer if and only if the rank is on that stage, for an even split and for a given partition.\<close>

theorem pp_rank_of_layer_agrees:
  assumes "arange_documented T" "split_documented T" "tensor_split_documented T" "map_ok m" "partition_ok m n" "0 \<le> l" "l < n"
  shows "\<exists>p. pp_rank_of_layer m l n = Inr p \<and> 0 \<le> p \<and> p < pp_size m
    \<and> (\<exists>layers. pp_layers T m n = Inr layers \<and> (l \<in> set layers \<longleftrightarrow> pp_rank m = Inr p))"
  using assms by (rule pp_stage_agreement)

fun cut :: "int list \<Rightarrow> int list \<Rightarrow> int list list" where
  "cut xs [] = []"
| "cut xs (n # ns) = take (nat n) xs # cut (drop (nat n) xs) ns"

definition list_torch :: torch_ops where
  "list_torch = \<lparr>arange = (\<lambda>n. if 0 \<le> n then Inr [0..n - 1] else Inl RuntimeError), torch_split = (\<lambda>xs sizes. Inr (cut xs sizes)),
     tensor_split = (\<lambda>xs k. Inr (cut xs (even_sizes (int (length xs)) k)))\<rparr>"

lemma cut_spec:
  "\<forall>n \<in> set ns. 0 \<le> n \<Longrightarrow> sum_list ns = int (length xs) \<Longrightarrow> concat (cut xs ns) = xs \<and> map (\<lambda>y. int (length y)) (cut xs ns) = ns"
proof (induction ns arbitrary: xs)
  case (Cons n ns)
  have "0 \<le> sum_list ns" using Cons.prems(1) by (intro sum_list_nonneg) simp
  then have "n \<le> int (length xs)" "0 \<le> n" using Cons.prems by auto
  then show ?case using Cons.IH [of "drop (nat n) xs"] Cons.prems by auto
qed simp

lemma list_torch_documented: "arange_documented list_torch" "split_documented list_torch" "tensor_split_documented list_torch"
proof -
  show "arange_documented list_torch" by (simp add: arange_documented_def list_torch_def)
  show "split_documented list_torch" using cut_spec by (simp add: split_documented_def list_torch_def)
  have "concat (cut xs (even_sizes (int (length xs)) k)) = xs \<and> map (\<lambda>y. int (length y)) (cut xs (even_sizes (int (length xs)) k)) = even_sizes (int (length xs)) k"
    if "0 < k" for xs k
    using that even_sizes_props [of k "int (length xs)"] by (intro cut_spec) simp_all
  then show "tensor_split_documented list_torch" by (simp add: tensor_split_documented_def list_torch_def even_sizes_def)
qed

theorem pp_rank_of_layer_agrees_witness:
  "\<exists>m p layers. mpi_topology helix_args = Inr m \<and> pp_rank_of_layer m 3 5 = Inr p \<and> pp_layers list_torch m 5 = Inr layers
     \<and> (3 \<in> set layers \<longleftrightarrow> pp_rank m = Inr p)"
proof -
  obtain m where m: "mpi_topology helix_args = Inr m" by (rule exE [OF helix_built])
  note H = helix_mapping [OF m]
  have "partition_ok m 5" using H by (simp add: partition_ok_def)
  then show ?thesis using pp_rank_of_layer_agrees [OF list_torch_documented H(1), of 5 3] m by auto
qed

text \<open>C25: rebuilding a mapping from its dictionary succeeds and gives the same mapping but for two fields: the layer
  partition, which the dictionary leaves out, is lost, and the mark of explicit expert sizes
  (\<open>moe_tp_ep_user_specified\<close>) becomes true, or false with \<open>dwdp_size > 1\<close>, whatever it was. The comparison of mappings
  does not look at the mark, so the two compare equal exactly when there was no partition.\<close>

theorem dict_round_trip:
  assumes "mpi_topology a = Inr m" "0 < a_tp_size a" "0 < a_cp_size a"
  shows "\<exists>m'. from_dict (to_dict m) = Inr m' \<and> m' = m\<lparr>pp_partition := None, moe_tp_ep_user_specified := dwdp_size m \<le> 1\<rparr>
    \<and> (mapping_eq m m' \<longleftrightarrow> pp_partition m = None)"
proof -
  obtain m0 where m0: "mapping_init a = Inr m0" "m = init_parallel_groups m0"
    using assms(1) by (auto simp: mpi_topology_def bindR_eq_Inr_iff)
  have "to_dict m = to_dict m0" by (simp add: m0(2) to_dict_def init_parallel_groups_def)
  then have "from_dict (to_dict m) = Inr (init_parallel_groups (m0\<lparr>pp_partition := None, moe_tp_ep_user_specified := dwdp_size m0 \<le> 1\<rparr>))"
    using mapping_init_again [OF m0(1) assms(2,3)] by (simp add: from_dict_def mpi_topology_def)
  also have "init_parallel_groups (m0\<lparr>pp_partition := None, moe_tp_ep_user_specified := dwdp_size m0 \<le> 1\<rparr>)
      = m\<lparr>pp_partition := None, moe_tp_ep_user_specified := dwdp_size m \<le> 1\<rparr>"
    by (simp add: m0(2) init_parallel_groups_def init_pp_groups_def init_cp_groups_def init_tp_groups_def
        init_moe_tp_groups_def init_moe_cluster_groups_def init_moe_ep_groups_def)
  finally show ?thesis by (auto simp: mapping_eq_def)
qed

theorem dict_round_trip_witness:
  "\<exists>m m'. mpi_topology helix_args = Inr m \<and> from_dict (to_dict m) = Inr m' \<and> \<not> mapping_eq m m'"
proof -
  obtain m where m: "mpi_topology helix_args = Inr m" by (rule exE [OF helix_built])
  show ?thesis using dict_round_trip [OF m] m helix_mapping(6) [OF m] by (auto simp: helix_args_def default_args_def)
qed

end
