(* ===== verification/Sched_Request.thy ===== *)
theory Sched_Request
  imports KV_Prelude "HOL-Library.Product_Lexorder"
begin

text \<open>
  The request as the schedulers see it (\<^verbatim>\<open>src/cpp/include/tensorrt_llm/batch_manager/llmRequest.h\<close>, bound to Python with
  the attribute names used here) and the helpers at the head of
  \<^verbatim>\<open>src/tensorrt_llm/_torch/pyexecutor/scheduler/scheduler.py\<close>. A failing \<^verbatim>\<open>TLLM_CHECK\<close> is a \<open>RuntimeError\<close>. Of the
  two context cursors of a request, for the target and for the draft model, a record holds the one in use.
\<close>

section \<open>Request states\<close>

datatype llm_state = DISAGG_TRANS_ERROR | UNKNOWN | ENCODER_INIT | DISAGG_CONTEXT_WAIT_SCHEDULER | DISAGG_GENERATION_INIT
  | DISAGG_GENERATION_TRANS_IN_PROGRESS | CONTEXT_INIT | DISAGG_CONTEXT_INIT_AND_TRANS | DISAGG_GENERATION_TRANS_COMPLETE
  | GENERATION_IN_PROGRESS | GENERATION_TO_COMPLETE | GENERATION_COMPLETE | DISAGG_CONTEXT_TRANS_IN_PROGRESS
  | DISAGG_CONTEXT_COMPLETE | DISAGG_GENERATION_WAIT_TOKENS

fun state_value :: "llm_state \<Rightarrow> int" where
  "state_value UNKNOWN = 0"
| "state_value ENCODER_INIT = 1"
| "state_value DISAGG_CONTEXT_WAIT_SCHEDULER = 7"
| "state_value DISAGG_GENERATION_INIT = 8"
| "state_value DISAGG_GENERATION_TRANS_IN_PROGRESS = 9"
| "state_value CONTEXT_INIT = 10"
| "state_value DISAGG_CONTEXT_INIT_AND_TRANS = 11"
| "state_value DISAGG_GENERATION_TRANS_COMPLETE = 12"
| "state_value GENERATION_IN_PROGRESS = 13"
| "state_value GENERATION_TO_COMPLETE = 14"
| "state_value GENERATION_COMPLETE = 20"
| "state_value DISAGG_CONTEXT_TRANS_IN_PROGRESS = 21"
| "state_value DISAGG_CONTEXT_COMPLETE = 22"
| "state_value DISAGG_GENERATION_WAIT_TOKENS = 23"
| "state_value DISAGG_TRANS_ERROR = -1"

text \<open>
  \<open>chunk_field\<close> is the stored chunk size, \<open>num_draft_tokens\<close> the length of the draft token list, \<open>num_tokens\<close> the value of
  \<open>get_num_tokens(0)\<close>, \<open>beam_width\<close> that of \<open>get_beam_width_by_iter\<close>, and \<open>encoder_ready\<close> the answer of the encoder event
  when there is one.
\<close>

record llm_request =
  request_id :: nat
  req_state :: llm_state
  prompt_len :: int
  context_current_position :: int
  prepopulated_prompt_len :: int
  chunk_field :: int
  estimated_reusable_tokens :: int
  expect_snapshot_points :: "int list"
  num_draft_tokens :: nat
  num_tokens :: int
  encoder_length :: "int option"
  beam_width :: int
  lora_task_id :: "int option"
  encoder_ready :: "bool option"

definition is_encoder_init_state :: "llm_request \<Rightarrow> bool" where
  "is_encoder_init_state r \<longleftrightarrow> req_state r = ENCODER_INIT"

definition is_context_init_state :: "llm_request \<Rightarrow> bool" where
  "is_context_init_state r \<longleftrightarrow> req_state r = CONTEXT_INIT \<or> req_state r = DISAGG_CONTEXT_INIT_AND_TRANS"

definition is_generation_in_progress_state :: "llm_request \<Rightarrow> bool" where
  "is_generation_in_progress_state r \<longleftrightarrow> req_state r = GENERATION_IN_PROGRESS \<or> req_state r = GENERATION_TO_COMPLETE
     \<or> req_state r = DISAGG_GENERATION_TRANS_COMPLETE"

definition is_disagg_generation_init_state :: "llm_request \<Rightarrow> bool" where
  "is_disagg_generation_init_state r \<longleftrightarrow> req_state r = DISAGG_GENERATION_INIT"

definition is_disagg_generation_transmission_complete :: "llm_request \<Rightarrow> bool" where
  "is_disagg_generation_transmission_complete r \<longleftrightarrow> req_state r = DISAGG_GENERATION_TRANS_COMPLETE"

section \<open>Context cursor and drafts\<close>

definition encoder_output_len :: "llm_request \<Rightarrow> int res" where
  "encoder_output_len r = (case encoder_length r of Some n \<Rightarrow> Inr n | None \<Rightarrow> Inl RuntimeError)"

definition has_draft_tokens :: "llm_request \<Rightarrow> bool" where
  "has_draft_tokens r \<longleftrightarrow> num_draft_tokens r \<noteq> 0"

definition context_remaining_length :: "llm_request \<Rightarrow> int" where
  "context_remaining_length r = prompt_len r - context_current_position r"

definition chunk_size_defined :: "llm_request \<Rightarrow> bool" where
  "chunk_size_defined r \<longleftrightarrow> is_context_init_state r \<or> is_disagg_generation_init_state r \<or> is_disagg_generation_transmission_complete r"

definition context_chunk_size :: "llm_request \<Rightarrow> int res" where
  "context_chunk_size r = guardR (chunk_size_defined r) RuntimeError (Inr (chunk_field r))"

definition set_context_chunk_size :: "int \<Rightarrow> llm_request \<Rightarrow> llm_request res" where
  "set_context_chunk_size n r = guardR (chunk_size_defined r) RuntimeError (guardR (0 \<le> n) RuntimeError
     (Inr (r\<lparr>chunk_field := min n (context_remaining_length r)\<rparr>)))"

definition is_last_context_chunk :: "llm_request \<Rightarrow> bool res" where
  "is_last_context_chunk r =
     (if is_disagg_generation_init_state r \<or> is_disagg_generation_transmission_complete r then Inr True
      else bindR (context_chunk_size r) (\<lambda>n. Inr (context_current_position r + n = prompt_len r)))"

definition is_first_context_chunk :: "llm_request \<Rightarrow> bool" where
  "is_first_context_chunk r \<longleftrightarrow> context_current_position r = prepopulated_prompt_len r"

definition move_to_next_context_chunk :: "llm_request \<Rightarrow> llm_request res" where
  "move_to_next_context_chunk r = guardR (is_context_init_state r) RuntimeError
     (Inr (r\<lparr>context_current_position := context_current_position r + chunk_field r, chunk_field := 0\<rparr>))"

definition discard_draft_tokens :: "int \<Rightarrow> llm_request \<Rightarrow> llm_request res" where
  "discard_draft_tokens n r = guardR (0 < n) RuntimeError (guardR (n \<le> int (num_draft_tokens r)) RuntimeError
     (Inr (r\<lparr>num_draft_tokens := num_draft_tokens r - nat n\<rparr>)))"

section \<open>Helpers of the schedulers\<close>

definition waiting_for_encoder :: "llm_request \<Rightarrow> bool" where
  "waiting_for_encoder r \<longleftrightarrow> is_context_init_state r \<and> encoder_ready r = Some False"

definition drop_waiting_for_encoder :: "llm_request list \<Rightarrow> llm_request list" where
  "drop_waiting_for_encoder rs = filter (\<lambda>r. \<not> waiting_for_encoder r) rs"

definition split_encoder_from_decoder :: "llm_request list \<Rightarrow> llm_request list \<times> llm_request list" where
  "split_encoder_from_decoder rs = (filter is_encoder_init_state rs, filter (\<lambda>r. \<not> is_encoder_init_state r) rs)"

definition get_lora_task_id :: "llm_request \<Rightarrow> nat \<times> int" where
  "get_lora_task_id r = (case lora_task_id r of None \<Rightarrow> (0, 0) | Some i \<Rightarrow> (1, i))"

definition forced_context_chunk_size :: "llm_request \<Rightarrow> int" where
  "forced_context_chunk_size r =
     (case filter (\<lambda>x. context_current_position r < x) (expect_snapshot_points r) of
        [] \<Rightarrow> context_remaining_length r
      | x # xs \<Rightarrow> max 0 (min (fold min xs x) (prompt_len r) - context_current_position r))"

definition is_forced_context_chunk_boundary :: "llm_request \<Rightarrow> int \<Rightarrow> bool" where
  "is_forced_context_chunk_boundary r n \<longleftrightarrow> (let next = context_current_position r + n
     in prompt_len r \<le> next \<or> next \<in> set (expect_snapshot_points r))"

section \<open>Scheduled requests\<close>

record scheduled_requests =
  encoder_requests :: "llm_request list"
  context_requests_chunking :: "llm_request list"
  context_requests_last_chunk :: "llm_request list"
  generation_requests :: "llm_request list"
  paused_requests :: "llm_request list"

definition empty_scheduled :: scheduled_requests where
  "empty_scheduled = \<lparr>encoder_requests = [], context_requests_chunking = [], context_requests_last_chunk = [], generation_requests = [], paused_requests = []\<rparr>"

definition num_context_requests :: "scheduled_requests \<Rightarrow> nat" where
  "num_context_requests s = length (context_requests_chunking s) + length (context_requests_last_chunk s)"

definition is_generation_only :: "scheduled_requests \<Rightarrow> bool" where
  "is_generation_only s \<longleftrightarrow> num_context_requests s = 0 \<and> (\<forall>r \<in> set (generation_requests s). num_draft_tokens r = 0)"

definition can_run_cuda_graph :: "scheduled_requests \<Rightarrow> bool" where
  "can_run_cuda_graph s \<longleftrightarrow> num_context_requests s = 0"

definition batch_size :: "scheduled_requests \<Rightarrow> nat" where
  "batch_size s = num_context_requests s + length (generation_requests s)"

definition context_requests :: "scheduled_requests \<Rightarrow> llm_request list" where
  "context_requests s = context_requests_chunking s @ context_requests_last_chunk s"

definition all_requests :: "scheduled_requests \<Rightarrow> llm_request list" where
  "all_requests s = context_requests s @ generation_requests s"

definition append_encoder_request :: "llm_request \<Rightarrow> scheduled_requests \<Rightarrow> scheduled_requests" where
  "append_encoder_request r s = s\<lparr>encoder_requests := encoder_requests s @ [r]\<rparr>"

definition append_context_request :: "llm_request \<Rightarrow> scheduled_requests \<Rightarrow> scheduled_requests res" where
  "append_context_request r s = bindR (is_last_context_chunk r) (\<lambda>last_chunk. Inr (
     if last_chunk then s\<lparr>context_requests_last_chunk := context_requests_last_chunk s @ [r]\<rparr>
     else s\<lparr>context_requests_chunking := context_requests_chunking s @ [r]\<rparr>))"

definition append_generation_request :: "llm_request \<Rightarrow> scheduled_requests \<Rightarrow> scheduled_requests" where
  "append_generation_request r s = s\<lparr>generation_requests := generation_requests s @ [r]\<rparr>"

fun append_context_requests :: "llm_request list \<Rightarrow> scheduled_requests \<Rightarrow> scheduled_requests res" where
  "append_context_requests [] s = Inr s"
| "append_context_requests (r # rs) s = bindR (append_context_request r s) (append_context_requests rs)"

definition reset_context_requests :: "llm_request list option \<Rightarrow> scheduled_requests \<Rightarrow> scheduled_requests res" where
  "reset_context_requests given s =
     append_context_requests (case given of Some rs \<Rightarrow> rs | None \<Rightarrow> context_requests s)
       (s\<lparr>context_requests_chunking := [], context_requests_last_chunk := []\<rparr>)"

text \<open>The form sent to other ranks: ids in place of requests.\<close>

record serializable_output =
  so_encoder :: "nat list"
  so_chunking :: "nat list"
  so_last_chunk :: "nat list"
  so_generation :: "nat list"
  so_paused :: "nat list"
  so_disagg_init :: "nat list"
  so_num_fitting :: nat
  so_wait :: bool

definition from_scheduler_result :: "scheduled_requests \<Rightarrow> llm_request list \<Rightarrow> nat \<Rightarrow> bool \<Rightarrow> serializable_output" where
  "from_scheduler_result s disagg n w =
     \<lparr>so_encoder = map request_id (encoder_requests s), so_chunking = map request_id (context_requests_chunking s),
      so_last_chunk = map request_id (context_requests_last_chunk s), so_generation = map request_id (generation_requests s),
      so_paused = map request_id (paused_requests s), so_disagg_init = map request_id disagg, so_num_fitting = n, so_wait = w\<rparr>"

text \<open>The dictionary keeps the last request of an id.\<close>

definition id_to_request :: "llm_request list \<Rightarrow> nat \<Rightarrow> llm_request res" where
  "id_to_request rs i = (case map_of (rev (map (\<lambda>r. (request_id r, r)) rs)) i of Some r \<Rightarrow> Inr r | None \<Rightarrow> Inl KeyError)"

definition to_scheduler_result :: "serializable_output \<Rightarrow> llm_request list \<Rightarrow> (scheduled_requests \<times> llm_request list \<times> nat) res" where
  "to_scheduler_result out active =
     bindR (mapR (id_to_request active) (so_encoder out)) (\<lambda>enc.
     bindR (mapR (id_to_request active) (so_chunking out)) (\<lambda>chunking.
     bindR (mapR (id_to_request active) (so_last_chunk out)) (\<lambda>last_chunk.
     bindR (mapR (id_to_request active) (so_generation out)) (\<lambda>gen.
     bindR (mapR (id_to_request active) (so_paused out)) (\<lambda>paused.
     bindR (mapR (id_to_request active) (so_disagg_init out)) (\<lambda>disagg.
       Inr (\<lparr>encoder_requests = enc, context_requests_chunking = chunking, context_requests_last_chunk = last_chunk,
              generation_requests = gen, paused_requests = paused\<rparr>, disagg, so_num_fitting out)))))))"

end
