(* ===== verification/Sched_Capacity.thy ===== *)
theory Sched_Capacity
  imports Sched_Request
begin

text \<open>
  The capacity scheduler (\<open>PyCapacityScheduler\<close> and its policies in
  \<^verbatim>\<open>src/tensorrt_llm/_torch/pyexecutor/scheduler/scheduler.py\<close>). A cache manager is a record of what the scheduler asks of it;
  nothing is assumed of its answers. \<open>'st\<close> is the state of its trial bookkeeping, which \<open>start_scheduling\<close> resets.
  Dictionaries over window sizes are association lists, sets of block keys and task ids are sets.
\<close>

section \<open>What the scheduler asks\<close>

record prefix_summary =
  reusable_blocks_allocated :: int
  reusable_blocks_all :: int
  first_new_block :: "nat option"

definition zero_prefix_reuse_summary :: prefix_summary where
  "zero_prefix_reuse_summary = \<lparr>reusable_blocks_allocated = 0, reusable_blocks_all = 0, first_new_block = None\<rparr>"

text \<open>\<open>analyze_prefix\<close> is the answer for the tokens of the request, if it has such tokens on that side.\<close>

record 'st kv_manager =
  num_free_blocks_per_window_size :: "(int \<times> int) list"
  remaining_blocks_to_completion :: "llm_request \<Rightarrow> int \<Rightarrow> prefix_summary option \<Rightarrow> int"
  needed_blocks_one_step :: "llm_request \<Rightarrow> bool \<Rightarrow> int \<Rightarrow> prefix_summary option \<Rightarrow> int"
  max_attention_window_vec :: "int list"
  is_variable_window :: bool
  enable_block_reuse :: bool
  analyze_prefix :: "llm_request \<Rightarrow> prefix_summary option"
  start_scheduling :: 'st
  scheduling_has_free_blocks :: "'st \<Rightarrow> int \<Rightarrow> int \<Rightarrow> bool"
  scheduling_remove_sequence :: "nat \<Rightarrow> 'st \<Rightarrow> 'st"

record peft_manager =
  max_device_pages :: int
  determine_num_pages :: "llm_request \<Rightarrow> int"

datatype capacity_policy = MAX_UTILIZATION | GUARANTEED_NO_EVICT | STATIC_BATCH

record 'st capacity_scheduler =
  max_num_requests :: nat
  kv_cache_manager :: "'st kv_manager option"
  peft_cache_manager :: "peft_manager option"
  scheduler_policy :: capacity_policy
  cross_kv_cache_manager :: "'st kv_manager option"
  two_step_lookahead :: bool
  cap_until_state :: llm_state
  cap_after_state :: llm_state
  enable_prefix_aware_scheduling :: bool

section \<open>Shared checks\<close>

definition cap_can_be_scheduled :: "'st capacity_scheduler \<Rightarrow> llm_request \<Rightarrow> bool" where
  "cap_can_be_scheduled s r \<longleftrightarrow> \<not> waiting_for_encoder r
     \<and> state_value (cap_until_state s) \<le> state_value (req_state r) \<and> state_value (req_state r) < state_value (cap_after_state s)"

definition can_be_scheduled_with_disagg_exception :: "'st capacity_scheduler \<Rightarrow> llm_request \<Rightarrow> bool" where
  "can_be_scheduled_with_disagg_exception s r \<longleftrightarrow> is_disagg_generation_init_state r \<or> cap_can_be_scheduled s r"

definition is_skipping_relevant :: "'st capacity_scheduler \<Rightarrow> bool" where
  "is_skipping_relevant s \<longleftrightarrow> (case kv_cache_manager s of None \<Rightarrow> False
     | Some kv \<Rightarrow> enable_prefix_aware_scheduling s \<and> \<not> is_variable_window kv
         \<and> (case cross_kv_cache_manager s of None \<Rightarrow> True | Some cross \<Rightarrow> \<not> is_variable_window cross))"

definition disabled_prefix_summary :: "'st capacity_scheduler \<Rightarrow> llm_request \<Rightarrow> prefix_summary option" where
  "disabled_prefix_summary s r =
     (if enable_prefix_aware_scheduling s then None
      else if is_context_init_state r \<and> is_first_context_chunk r then Some zero_prefix_reuse_summary else None)"

definition get_max_peft_pages :: "'st capacity_scheduler \<Rightarrow> int" where
  "get_max_peft_pages s = (case peft_cache_manager s of None \<Rightarrow> 2 ^ 31 - 1 | Some p \<Rightarrow> max_device_pages p)"

definition get_peft_pages_for_request :: "'st capacity_scheduler \<Rightarrow> llm_request \<Rightarrow> int" where
  "get_peft_pages_for_request s r = (case peft_cache_manager s of None \<Rightarrow> 0 | Some p \<Rightarrow> determine_num_pages p r)"

definition is_new_task :: "llm_request \<Rightarrow> int set \<Rightarrow> bool" where
  "is_new_task r seen \<longleftrightarrow> (case lora_task_id r of None \<Rightarrow> False | Some i \<Rightarrow> i \<notin> seen)"

text \<open>The pages a request needs beyond the tasks already counted, and these tasks with its own.\<close>

definition get_peft_task_info :: "'st capacity_scheduler \<Rightarrow> llm_request \<Rightarrow> int set \<Rightarrow> int \<times> int set" where
  "get_peft_task_info s r seen =
     (if is_new_task r seen then (get_peft_pages_for_request s r, insert (the (lora_task_id r)) seen) else (0, seen))"

section \<open>Skipping requests that can reuse a prefix in flight\<close>

record skip_state =
  new_blocks :: "nat set"
  new_cross_blocks :: "nat set"
  summary_by_req :: "(nat \<times> prefix_summary) list"
  cross_summary_by_req :: "(nat \<times> prefix_summary) list"

definition contributed :: "'st kv_manager option \<Rightarrow> llm_request \<Rightarrow> nat set" where
  "contributed manager r =
     (case manager of None \<Rightarrow> {}
      | Some kv \<Rightarrow> if enable_block_reuse kv
          then (case analyze_prefix kv r of None \<Rightarrow> {} | Some summary \<Rightarrow> set_option (first_new_block summary)) else {})"

definition prefill_contributed_blocks :: "'st capacity_scheduler \<Rightarrow> llm_request list \<Rightarrow> nat set \<times> nat set" where
  "prefill_contributed_blocks s rs =
     (if kv_cache_manager s = None \<or> \<not> enable_prefix_aware_scheduling s then ({}, {})
      else let started = filter (\<lambda>r. is_context_init_state r \<and> \<not> is_first_context_chunk r) rs
        in (\<Union>r \<in> set started. contributed (kv_cache_manager s) r, \<Union>r \<in> set started. contributed (cross_kv_cache_manager s) r))"

text \<open>The summary of a request on one side, from the cache or by a walk that is then cached.\<close>

definition look_up_summary ::
    "'st kv_manager option \<Rightarrow> llm_request \<Rightarrow> (nat \<times> prefix_summary) list \<Rightarrow> prefix_summary option \<times> (nat \<times> prefix_summary) list" where
  "look_up_summary manager r cache =
     (case manager of None \<Rightarrow> (None, cache)
      | Some kv \<Rightarrow> if \<not> enable_block_reuse kv then (None, cache)
          else case map_of cache (request_id r) of
                 Some summary \<Rightarrow> (Some summary, cache)
               | None \<Rightarrow> (case analyze_prefix kv r of
                    None \<Rightarrow> (None, cache)
                  | Some summary \<Rightarrow> (Some summary, dict_set (request_id r) summary cache)))"

definition summary_new_block :: "prefix_summary option \<Rightarrow> nat option" where
  "summary_new_block summary = (case summary of None \<Rightarrow> None | Some x \<Rightarrow> first_new_block x)"

definition beneficial_to_skip :: "'st capacity_scheduler \<Rightarrow> llm_request \<Rightarrow> skip_state \<Rightarrow> bool \<times> skip_state" where
  "beneficial_to_skip s r k =
     (if \<not> enable_prefix_aware_scheduling s \<or> \<not> (is_context_init_state r \<and> is_first_context_chunk r) then (False, k)
      else
        let (summary, sums) = look_up_summary (kv_cache_manager s) r (summary_by_req k);
            k1 = k\<lparr>summary_by_req := sums\<rparr>
        in if set_option (summary_new_block summary) \<inter> new_blocks k \<noteq> {} then (True, k1)
           else let (cross_summary, cross_sums) = look_up_summary (cross_kv_cache_manager s) r (cross_summary_by_req k1);
                    k2 = k1\<lparr>cross_summary_by_req := cross_sums\<rparr>
             in if set_option (summary_new_block cross_summary) \<inter> new_cross_blocks k \<noteq> {} then (True, k2)
                else (False, k2\<lparr>new_blocks := set_option (summary_new_block summary) \<union> new_blocks k,
                                 new_cross_blocks := set_option (summary_new_block cross_summary) \<union> new_cross_blocks k\<rparr>))"

section \<open>Request count only\<close>

fun max_requests_loop :: "'st capacity_scheduler \<Rightarrow> llm_request list \<Rightarrow> llm_request list \<Rightarrow> llm_request list" where
  "max_requests_loop s [] scheduled = scheduled"
| "max_requests_loop s (r # rs) scheduled =
     (if \<not> cap_can_be_scheduled s r then max_requests_loop s rs scheduled
      else if max_num_requests s \<le> length scheduled then scheduled
      else if is_encoder_init_state r \<or> is_context_init_state r \<or> is_generation_in_progress_state r
      then max_requests_loop s rs (scheduled @ [r]) else max_requests_loop s rs scheduled)"

definition max_requests_schedule :: "'st capacity_scheduler \<Rightarrow> llm_request list \<Rightarrow> llm_request list \<times> llm_request list" where
  "max_requests_schedule s rs = (max_requests_loop s rs [], [])"

section \<open>No eviction\<close>

subsection \<open>Blocks reserved to completion\<close>

definition decrement_reserved_blocks :: "'st kv_manager \<Rightarrow> llm_request \<Rightarrow> prefix_summary option \<Rightarrow> (int \<times> int) list \<Rightarrow> (int \<times> int) list" where
  "decrement_reserved_blocks kv r summary available =
     map (\<lambda>(w, n). (w, n - remaining_blocks_to_completion kv r w summary)) available"

definition enough_available_blocks :: "'st kv_manager \<Rightarrow> llm_request \<Rightarrow> prefix_summary option \<Rightarrow> (int \<times> int) list \<Rightarrow> bool" where
  "enough_available_blocks kv r summary available \<longleftrightarrow> list_all (\<lambda>(w, n). remaining_blocks_to_completion kv r w summary \<le> n) available"

text \<open>The blocks of the cache and, in encoder-decoder models, of the cross cache.\<close>

record reservation =
  available_blocks :: "(int \<times> int) list"
  available_cross_blocks :: "(int \<times> int) list option"

definition reserve :: "'st kv_manager \<Rightarrow> 'st capacity_scheduler \<Rightarrow> llm_request \<Rightarrow> prefix_summary option \<Rightarrow> prefix_summary option \<Rightarrow> reservation \<Rightarrow> reservation" where
  "reserve kv s r summary cross_summary b =
     b\<lparr>available_blocks := decrement_reserved_blocks kv r summary (available_blocks b),
       available_cross_blocks := (case cross_kv_cache_manager s of None \<Rightarrow> available_cross_blocks b
         | Some cross \<Rightarrow> map_option (decrement_reserved_blocks cross r cross_summary) (available_cross_blocks b))\<rparr>"

definition enough :: "'st kv_manager \<Rightarrow> 'st capacity_scheduler \<Rightarrow> llm_request \<Rightarrow> prefix_summary option \<Rightarrow> prefix_summary option \<Rightarrow> reservation \<Rightarrow> bool" where
  "enough kv s r summary cross_summary b \<longleftrightarrow> enough_available_blocks kv r summary (available_blocks b)
     \<and> (case cross_kv_cache_manager s of None \<Rightarrow> True
        | Some cross \<Rightarrow> (case available_cross_blocks b of None \<Rightarrow> True | Some n \<Rightarrow> enough_available_blocks cross r cross_summary n))"

definition initial_reservation :: "'st kv_manager \<Rightarrow> 'st capacity_scheduler \<Rightarrow> reservation" where
  "initial_reservation kv s = \<lparr>available_blocks = num_free_blocks_per_window_size kv,
     available_cross_blocks = map_option num_free_blocks_per_window_size (cross_kv_cache_manager s)\<rparr>"

subsection \<open>First pass\<close>

record first_pass =
  f_scheduled :: "llm_request list"
  f_blocks :: reservation
  f_claimed :: int
  f_tasks :: "int set"
  f_disagg :: "llm_request list"
  f_pending :: "llm_request list"

definition first_step :: "'st kv_manager \<Rightarrow> 'st capacity_scheduler \<Rightarrow> llm_request \<Rightarrow> first_pass \<Rightarrow> first_pass" where
  "first_step kv s r f =
     (if is_generation_in_progress_state r
      then let (pages, tasks) = (if peft_cache_manager s = None then (0, f_tasks f) else get_peft_task_info s r (f_tasks f))
        in f\<lparr>f_scheduled := f_scheduled f @ [r], f_blocks := reserve kv s r None None (f_blocks f),
             f_claimed := f_claimed f + pages, f_tasks := tasks\<rparr>
      else if is_disagg_generation_init_state r then f\<lparr>f_disagg := f_disagg f @ [r]\<rparr>
      else f\<lparr>f_pending := f_pending f @ [r]\<rparr>)"

fun first_loop :: "'st kv_manager \<Rightarrow> 'st capacity_scheduler \<Rightarrow> llm_request list \<Rightarrow> first_pass \<Rightarrow> first_pass" where
  "first_loop kv s [] f = f"
| "first_loop kv s (r # rs) f =
     (if \<not> can_be_scheduled_with_disagg_exception s r then first_loop kv s rs f
      else if max_num_requests s \<le> length (f_scheduled f) then f
      else first_loop kv s rs (first_step kv s r f))"

subsection \<open>Second pass\<close>

record second_pass =
  p_scheduled :: "llm_request list"
  p_blocks :: reservation
  p_pages :: int
  p_tasks :: "int set"
  p_skip :: skip_state

datatype visit = Next second_pass | Leave second_pass

text \<open>The pages of a request, when they fit; without a cache for adapters nothing is needed.\<close>

definition claim_pages :: "'st capacity_scheduler \<Rightarrow> llm_request \<Rightarrow> second_pass \<Rightarrow> second_pass option" where
  "claim_pages s r p =
     (if peft_cache_manager s = None then Some p
      else let (pages, tasks) = get_peft_task_info s r (p_tasks p)
        in if p_pages p < pages then None else Some (p\<lparr>p_pages := p_pages p - pages, p_tasks := tasks\<rparr>))"

definition skip_check :: "bool \<Rightarrow> 'st capacity_scheduler \<Rightarrow> llm_request \<Rightarrow> second_pass \<Rightarrow> bool \<times> second_pass" where
  "skip_check static s r p =
     (if \<not> static \<and> is_skipping_relevant s \<and> \<not> is_disagg_generation_init_state r
      then let (skip, k) = beneficial_to_skip s r (p_skip p) in (skip, p\<lparr>p_skip := k\<rparr>)
      else (False, p))"

definition cached_or_disabled :: "'st capacity_scheduler \<Rightarrow> llm_request \<Rightarrow> (nat \<times> prefix_summary) list \<Rightarrow> prefix_summary option" where
  "cached_or_disabled s r cache = (case map_of cache (request_id r) of Some x \<Rightarrow> Some x | None \<Rightarrow> disabled_prefix_summary s r)"

definition admit :: "'st kv_manager \<Rightarrow> 'st capacity_scheduler \<Rightarrow> llm_request \<Rightarrow> second_pass \<Rightarrow> visit" where
  "admit kv s r p =
     (let summary = cached_or_disabled s r (summary_by_req (p_skip p));
          cross_summary = cached_or_disabled s r (cross_summary_by_req (p_skip p))
      in if is_encoder_init_state r
         then (case claim_pages s r p of None \<Rightarrow> Next p | Some p' \<Rightarrow> Next (p'\<lparr>p_scheduled := p_scheduled p' @ [r]\<rparr>))
         else if is_context_init_state r \<or> is_disagg_generation_init_state r
         then if \<not> enough kv s r summary cross_summary (p_blocks p) then Leave p
              else (case claim_pages s r p of None \<Rightarrow> Next p
                    | Some p' \<Rightarrow> Next (p'\<lparr>p_scheduled := p_scheduled p' @ [r], p_blocks := reserve kv s r summary cross_summary (p_blocks p')\<rparr>))
         else Next p)"

definition second_step :: "bool \<Rightarrow> 'st kv_manager \<Rightarrow> 'st capacity_scheduler \<Rightarrow> llm_request \<Rightarrow> second_pass \<Rightarrow> visit res" where
  "second_step static kv s r p =
     guardR (\<not> (is_encoder_init_state r \<and> cross_kv_cache_manager s = None)) RuntimeError (Inr (
       let (skip, p1) = skip_check static s r p
       in if skip then Next p1
          else if max_num_requests s \<le> length (p_scheduled p1) then Leave p1
          else admit kv s r p1))"

fun second_loop :: "bool \<Rightarrow> 'st kv_manager \<Rightarrow> 'st capacity_scheduler \<Rightarrow> llm_request list \<Rightarrow> second_pass \<Rightarrow> second_pass res" where
  "second_loop static kv s [] p = Inr p"
| "second_loop static kv s (r # rs) p =
     bindR (second_step static kv s r p) (\<lambda>v. case v of Leave p' \<Rightarrow> Inr p' | Next p' \<Rightarrow> second_loop static kv s rs p')"

definition no_evict_schedule :: "bool \<Rightarrow> 'st kv_manager \<Rightarrow> 'st capacity_scheduler \<Rightarrow> llm_request list \<Rightarrow> (llm_request list \<times> llm_request list) res" where
  "no_evict_schedule static kv s rs =
     (let contributions = (if \<not> static \<and> is_skipping_relevant s then prefill_contributed_blocks s rs else ({}, {}));
          f = first_loop kv s rs \<lparr>f_scheduled = [], f_blocks = initial_reservation kv s, f_claimed = 0, f_tasks = {}, f_disagg = [], f_pending = []\<rparr>
      in if static \<and> f_scheduled f \<noteq> [] then Inr (f_scheduled f, [])
         else let pages = (if peft_cache_manager s = None then 0 else get_max_peft_pages s - f_claimed f);
                  p = \<lparr>p_scheduled = f_scheduled f, p_blocks = f_blocks f, p_pages = pages, p_tasks = f_tasks f,
                       p_skip = \<lparr>new_blocks = fst contributions, new_cross_blocks = snd contributions, summary_by_req = [], cross_summary_by_req = []\<rparr>\<rparr>
           in bindR (second_loop static kv s (f_disagg f) p) (\<lambda>p1.
              bindR (second_loop static kv s (f_pending f) p1) (\<lambda>p2. Inr (p_scheduled p2, []))))"

section \<open>Maximal utilization\<close>

definition max_util_windows :: "'st kv_manager \<Rightarrow> (int \<times> int) list" where
  "max_util_windows kv = map (\<lambda>w. (w, 0)) (remdups (max_attention_window_vec kv))"

fun prepare_blocks_if_schedulable ::
    "'st kv_manager \<Rightarrow> bool \<Rightarrow> 'st \<Rightarrow> llm_request \<Rightarrow> prefix_summary option \<Rightarrow> (int \<times> int) list \<Rightarrow> (int \<times> int) list option" where
  "prepare_blocks_if_schedulable kv two_steps st r summary [] = Some []"
| "prepare_blocks_if_schedulable kv two_steps st r summary ((w, n) # ws) =
     (let scheduled_total = n + needed_blocks_one_step kv r two_steps w summary
      in if \<not> scheduling_has_free_blocks kv st scheduled_total w then None
         else map_option ((#) (w, scheduled_total)) (prepare_blocks_if_schedulable kv two_steps st r summary ws))"

fun set_all :: "(int \<times> int) list \<Rightarrow> (int \<times> int) list \<Rightarrow> (int \<times> int) list" where
  "set_all [] scheduled = scheduled"
| "set_all ((w, n) # blocks) scheduled = set_all blocks (dict_set w n scheduled)"

definition update_scheduled_blocks :: "(int \<times> int) list \<Rightarrow> (int \<times> int) list \<Rightarrow> (int \<times> int) list res" where
  "update_scheduled_blocks blocks scheduled = assertR (length blocks = length scheduled) (Inr (set_all blocks scheduled))"

record 'st util_state =
  u_scheduled :: "llm_request list"
  u_paused :: "llm_request list"
  u_blocks :: "(int \<times> int) list"
  u_cross_blocks :: "(int \<times> int) list option"
  u_pages :: int
  u_tasks :: "int set"
  u_skip :: skip_state
  u_trial :: 'st
  u_cross_trial :: "'st option"

text \<open>The block counts with a request; \<open>None\<close> when it does not fit in one of the caches.\<close>

definition blocks_with :: "'st kv_manager \<Rightarrow> 'st capacity_scheduler \<Rightarrow> llm_request \<Rightarrow> prefix_summary option \<Rightarrow> 'st util_state
    \<Rightarrow> ((int \<times> int) list \<times> (int \<times> int) list option) option" where
  "blocks_with kv s r summary u =
     (case prepare_blocks_if_schedulable kv (two_step_lookahead s) (u_trial u) r summary (u_blocks u) of
        None \<Rightarrow> None
      | Some blocks \<Rightarrow> (case (cross_kv_cache_manager s, u_cross_blocks u, u_cross_trial u) of
            (Some cross, Some counts, Some trial) \<Rightarrow>
              map_option (\<lambda>cross_blocks. (blocks, Some cross_blocks))
                (prepare_blocks_if_schedulable cross (two_step_lookahead s) trial r None counts)
          | _ \<Rightarrow> Some (blocks, None)))"

definition util_pages :: "'st capacity_scheduler \<Rightarrow> llm_request \<Rightarrow> 'st util_state \<Rightarrow> 'st util_state option" where
  "util_pages s r u =
     (if peft_cache_manager s = None then Some u
      else let (pages, tasks) = get_peft_task_info s r (u_tasks u)
        in if get_max_peft_pages s < pages + u_pages u then None
           else Some (u\<lparr>u_pages := u_pages u + pages, u_tasks := tasks\<rparr>))"

definition commit_blocks :: "((int \<times> int) list \<times> (int \<times> int) list option) option \<Rightarrow> 'st util_state \<Rightarrow> 'st util_state res" where
  "commit_blocks counts u =
     (case counts of None \<Rightarrow> Inr u
      | Some (blocks, cross_blocks) \<Rightarrow>
          bindR (update_scheduled_blocks blocks (u_blocks u)) (\<lambda>b.
          case (cross_blocks, u_cross_blocks u) of
            (Some c, Some old) \<Rightarrow> bindR (update_scheduled_blocks c old) (\<lambda>c'. Inr (u\<lparr>u_blocks := b, u_cross_blocks := Some c'\<rparr>))
          | _ \<Rightarrow> Inr (u\<lparr>u_blocks := b\<rparr>)))"

text \<open>The state with the request scheduled, or \<open>None\<close> when it could not be.\<close>

definition try_scheduling_request ::
    "'st kv_manager \<Rightarrow> 'st capacity_scheduler \<Rightarrow> llm_request \<Rightarrow> prefix_summary option \<Rightarrow> 'st util_state \<Rightarrow> 'st util_state option res" where
  "try_scheduling_request kv s r summary u =
     (if max_num_requests s \<le> length (u_scheduled u) then Inr None
      else let counts = (if is_encoder_init_state r then None else blocks_with kv s r summary u)
        in if \<not> is_encoder_init_state r \<and> counts = None then Inr None
           else case util_pages s r u of
                  None \<Rightarrow> Inr None
                | Some u1 \<Rightarrow> bindR (commit_blocks counts u1) (\<lambda>u2. Inr (Some (u2\<lparr>u_scheduled := u_scheduled u2 @ [r]\<rparr>))))"

definition is_started_request :: "'st capacity_scheduler \<Rightarrow> llm_request \<Rightarrow> bool" where
  "is_started_request s r \<longleftrightarrow> cap_can_be_scheduled s r
     \<and> ((is_context_init_state r \<and> \<not> is_first_context_chunk r) \<or> is_generation_in_progress_state r)"

text \<open>The last started request between the two positions.\<close>

definition last_started :: "'st capacity_scheduler \<Rightarrow> llm_request list \<Rightarrow> nat \<Rightarrow> nat \<Rightarrow> nat option" where
  "last_started s rs i j = (case filter (\<lambda>k. is_started_request s (rs ! k)) (rev [i..<j]) of [] \<Rightarrow> None | k # _ \<Rightarrow> Some k)"

definition pause_request :: "'st kv_manager \<Rightarrow> 'st capacity_scheduler \<Rightarrow> llm_request \<Rightarrow> 'st util_state \<Rightarrow> 'st util_state" where
  "pause_request kv s r u =
     u\<lparr>u_trial := scheduling_remove_sequence kv (request_id r) (u_trial u),
       u_cross_trial := (case cross_kv_cache_manager s of None \<Rightarrow> u_cross_trial u
         | Some cross \<Rightarrow> map_option (scheduling_remove_sequence cross (request_id r)) (u_cross_trial u)),
       u_paused := u_paused u @ [r]\<rparr>"

text \<open>The skip check of this policy passes a fresh cross set and no cross cache.\<close>

definition util_skip :: "'st capacity_scheduler \<Rightarrow> llm_request \<Rightarrow> 'st util_state \<Rightarrow> bool \<times> 'st util_state" where
  "util_skip s r u =
     (if is_skipping_relevant s
      then let (skip, k) = beneficial_to_skip s r ((u_skip u)\<lparr>new_cross_blocks := {}, cross_summary_by_req := []\<rparr>)
        in (skip, u\<lparr>u_skip := k\<rparr>)
      else (False, u))"

datatype 'st move = Advance "'st util_state" | Shrink nat "'st util_state" | Finish "'st util_state"

definition util_step :: "'st kv_manager \<Rightarrow> 'st capacity_scheduler \<Rightarrow> llm_request list \<Rightarrow> nat \<Rightarrow> nat \<Rightarrow> 'st util_state \<Rightarrow> 'st move res" where
  "util_step kv s rs i j u =
     (let r = rs ! i
      in if \<not> can_be_scheduled_with_disagg_exception s r then Inr (Advance u)
         else guardR (\<not> (is_encoder_init_state r \<and> cross_kv_cache_manager s = None)) RuntimeError (
           let (skip, u1) = util_skip s r u
           in if skip then Inr (Advance u1)
              else bindR (try_scheduling_request kv s r (cached_or_disabled s r (summary_by_req (u_skip u1))) u1) (\<lambda>t.
                case t of
                  Some u2 \<Rightarrow> Inr (Advance u2)
                | None \<Rightarrow> (case last_started s rs i j of
                    Some k \<Rightarrow> Inr (Shrink k (pause_request kv s (rs ! k) u1))
                  | None \<Rightarrow> Inr (Finish u1)))))"

lemma last_started_bounds: "last_started s rs i j = Some k \<Longrightarrow> i \<le> k \<and> k < j \<and> is_started_request s (rs ! k)"
proof -
  assume "last_started s rs i j = Some k"
  then obtain ks where "filter (\<lambda>k. is_started_request s (rs ! k)) (rev [i..<j]) = k # ks"
    by (auto simp: last_started_def split: list.splits)
  then have "k \<in> set (filter (\<lambda>k. is_started_request s (rs ! k)) (rev [i..<j]))" by (metis list.set_intros(1))
  then show ?thesis by simp
qed

lemma util_step_shrinks: "util_step kv s rs i j u = Inr (Shrink k u') \<Longrightarrow> i \<le> k \<and> k < j"
  using last_started_bounds [of s rs i j k]
  by (auto simp: util_step_def Let_def guardR_eq_Inr_iff bindR_eq_Inr_iff split: if_splits prod.splits option.splits)

function util_loop :: "'st kv_manager \<Rightarrow> 'st capacity_scheduler \<Rightarrow> llm_request list \<Rightarrow> nat \<Rightarrow> nat \<Rightarrow> 'st util_state \<Rightarrow> 'st util_state res" where
  "util_loop kv s rs i j u =
     (if i < j
      then (case util_step kv s rs i j u of
              Inl e \<Rightarrow> Inl e
            | Inr (Advance u') \<Rightarrow> util_loop kv s rs (i + 1) j u'
            | Inr (Shrink k u') \<Rightarrow> util_loop kv s rs i k u'
            | Inr (Finish u') \<Rightarrow> Inr u')
      else Inr u)"
  by pat_completeness auto

termination util_loop
  by (relation "measure (\<lambda>(kv, s, rs, i, j, u). j - i)") (auto dest: util_step_shrinks)

declare util_loop.simps [simp del]

definition util_start :: "'st kv_manager \<Rightarrow> 'st capacity_scheduler \<Rightarrow> llm_request list \<Rightarrow> 'st util_state" where
  "util_start kv s rs =
     \<lparr>u_scheduled = [], u_paused = [], u_blocks = max_util_windows kv, u_cross_blocks = map_option max_util_windows (cross_kv_cache_manager s),
      u_pages = 0, u_tasks = {},
      u_skip = \<lparr>new_blocks = fst (prefill_contributed_blocks s rs), new_cross_blocks = {}, summary_by_req = [], cross_summary_by_req = []\<rparr>,
      u_trial = start_scheduling kv, u_cross_trial = map_option start_scheduling (cross_kv_cache_manager s)\<rparr>"

definition max_util_schedule :: "'st kv_manager \<Rightarrow> 'st capacity_scheduler \<Rightarrow> llm_request list \<Rightarrow> (llm_request list \<times> llm_request list) res" where
  "max_util_schedule kv s rs = bindR (util_loop kv s rs 0 (length rs) (util_start kv s rs)) (\<lambda>u. Inr (u_scheduled u, u_paused u))"

section \<open>The scheduler\<close>

definition run_policy :: "'st capacity_scheduler \<Rightarrow> llm_request list \<Rightarrow> (llm_request list \<times> llm_request list) res" where
  "run_policy s rs =
     (case kv_cache_manager s of
        None \<Rightarrow> Inr (max_requests_schedule s rs)
      | Some kv \<Rightarrow> (case scheduler_policy s of
            MAX_UTILIZATION \<Rightarrow> max_util_schedule kv s rs
          | GUARANTEED_NO_EVICT \<Rightarrow> no_evict_schedule False kv s rs
          | STATIC_BATCH \<Rightarrow> no_evict_schedule True kv s rs))"

definition classify_output :: "llm_request list \<Rightarrow> llm_request list \<times> llm_request list" where
  "classify_output rs = (filter (\<lambda>r. \<not> is_disagg_generation_init_state r) rs, filter is_disagg_generation_init_state rs)"

definition capacity_schedule_request :: "'st capacity_scheduler \<Rightarrow> llm_request list \<Rightarrow> (llm_request list \<times> llm_request list \<times> llm_request list) res" where
  "capacity_schedule_request s rs =
     bindR (run_policy s rs) (\<lambda>(scheduled, paused). let (fitting, disagg) = classify_output scheduled in Inr (fitting, disagg, paused))"

end
