(* ===== verification/Sched_Micro_Batch.thy ===== *)
theory Sched_Micro_Batch
  imports Sched_Request
begin

text \<open>
  The micro batch scheduler (\<open>PyMicroBatchScheduler\<close> of \<^verbatim>\<open>src/tensorrt_llm/_torch/pyexecutor/scheduler/scheduler.py\<close>): the
  main loop over the active requests, and the three policies that cut contexts into chunks within a token budget.
  Requests are changed in place by the code; a run returns the changed requests. A request occurs at most once among
  the active ones. An unlimited budget, \<open>float('inf')\<close> in the code, is \<open>None\<close>.
\<close>

datatype chunking_policy = EQUAL_PROGRESS | FIRST_COME_FIRST_SERVED | FORCE_CHUNK

record chunking_config =
  policy_of :: chunking_policy
  chunk_unit_size :: int

record micro_batch_scheduler =
  max_batch_size :: int
  max_num_tokens :: "int option"
  ctx_chunk_config :: "chunking_config option"
  max_context_length :: "int option"
  until_state :: llm_state
  after_state :: llm_state

definition micro_batch_init :: "int \<Rightarrow> int option \<Rightarrow> chunking_config option \<Rightarrow> llm_state \<Rightarrow> llm_state \<Rightarrow> micro_batch_scheduler" where
  "micro_batch_init batch tokens config until after = \<lparr>max_batch_size = batch, max_num_tokens = tokens, ctx_chunk_config = config,
     max_context_length = tokens, until_state = until, after_state = after\<rparr>"

definition mb_can_be_scheduled :: "micro_batch_scheduler \<Rightarrow> llm_request \<Rightarrow> bool" where
  "mb_can_be_scheduled s r \<longleftrightarrow> \<not> waiting_for_encoder r
     \<and> state_value (until_state s) \<le> state_value (req_state r) \<and> state_value (req_state r) < state_value (after_state s)"

definition reuse_adjusted_compute :: "int \<Rightarrow> int \<Rightarrow> int \<Rightarrow> int" where
  "reuse_adjusted_compute chunk_size reusable context_remaining =
     (if reusable \<le> 0 then chunk_size
      else if reusable + chunk_size < context_remaining then chunk_size
      else max 0 (context_remaining - reusable))"

definition reusable_tokens :: "llm_request \<Rightarrow> int" where
  "reusable_tokens r = (if is_first_context_chunk r then estimated_reusable_tokens r else 0)"

definition capped_reusable :: "llm_request \<Rightarrow> int" where
  "capped_reusable r = min (reusable_tokens r) (context_remaining_length r)"

definition exceeds :: "int \<Rightarrow> int option \<Rightarrow> bool" where
  "exceeds n limit = (case limit of None \<Rightarrow> False | Some m \<Rightarrow> m < n)"

section \<open>Chunking policies\<close>

subsection \<open>Equal progress\<close>

text \<open>One turn of the inner loop: the request offered a further unit, the compute tokens and the tokens of the pass.\<close>

definition equal_step :: "int option \<Rightarrow> int option \<Rightarrow> int \<Rightarrow> llm_request \<Rightarrow> int \<Rightarrow> int \<Rightarrow> (llm_request \<times> int \<times> int) res" where
  "equal_step max_len capacity unit_size r num_compute single_loop =
     bindR (context_chunk_size r) (\<lambda>past_size.
     let remaining = context_remaining_length r
     in bindR (set_context_chunk_size (min (past_size + unit_size) remaining) r) (\<lambda>r1.
        bindR (context_chunk_size r1) (\<lambda>actual_size.
        let increment = reuse_adjusted_compute actual_size (capped_reusable r1) remaining - reuse_adjusted_compute past_size (capped_reusable r1) remaining
        in if exceeds (num_compute + increment) capacity
           then bindR (set_context_chunk_size past_size r1) (\<lambda>r2. Inr (r2, num_compute, single_loop))
           else if exceeds actual_size max_len
           then bindR (set_context_chunk_size past_size r1) (\<lambda>r2. Inr (r2, num_compute, single_loop))
           else Inr (r1, num_compute + increment, single_loop + (actual_size - past_size)))))"

fun equal_pass :: "int option \<Rightarrow> int option \<Rightarrow> int \<Rightarrow> llm_request list \<Rightarrow> int \<Rightarrow> int \<Rightarrow> (llm_request list \<times> int \<times> int) res" where
  "equal_pass max_len capacity unit_size [] num_compute single_loop = Inr ([], num_compute, single_loop)"
| "equal_pass max_len capacity unit_size (r # rs) num_compute single_loop =
     bindR (equal_step max_len capacity unit_size r num_compute single_loop) (\<lambda>(r', n, s).
     bindR (equal_pass max_len capacity unit_size rs n s) (\<lambda>(rs', n', s'). Inr (r' # rs', n', s')))"

text \<open>The outer loop, which need not end: it returns the requests and their compute tokens.\<close>

definition equal_continues :: "int option \<Rightarrow> int \<Rightarrow> int \<Rightarrow> bool" where
  "equal_continues capacity num_compute single_loop \<longleftrightarrow> (capacity = None \<or> num_compute < the capacity) \<and> 0 < single_loop"

partial_function (option) equal_loop ::
    "int option \<Rightarrow> int option \<Rightarrow> int \<Rightarrow> llm_request list \<Rightarrow> int \<Rightarrow> int \<Rightarrow> (llm_request list \<times> int) res option" where
  "equal_loop max_len capacity unit_size rs num_compute single_loop =
     (if equal_continues capacity num_compute single_loop
      then (case equal_pass max_len capacity unit_size rs num_compute 0 of
              Inl e \<Rightarrow> Some (Inl e)
            | Inr t \<Rightarrow> equal_loop max_len capacity unit_size (fst t) (fst (snd t)) (snd (snd t)))
      else Some (Inr (rs, num_compute)))"

definition chunk_equal_progress :: "int option \<Rightarrow> llm_request list \<Rightarrow> int option \<Rightarrow> int \<Rightarrow> llm_request list res option" where
  "chunk_equal_progress max_len rs capacity unit_size =
     (case equal_loop max_len capacity unit_size rs 0 1 of
        None \<Rightarrow> None
      | Some res \<Rightarrow> Some (bindR res (\<lambda>(rs', _). Inr rs')))"

subsection \<open>First come, first served\<close>

definition fcfs_size :: "int option \<Rightarrow> int \<Rightarrow> llm_request \<Rightarrow> int option \<Rightarrow> int res" where
  "fcfs_size max_len unit_size r capacity =
     (let suggested = context_remaining_length r;
          reusable = capped_reusable r;
          compute_cost = reuse_adjusted_compute suggested reusable suggested;
          size1 = (case capacity of Some c \<Rightarrow> if c < compute_cost then c else suggested | None \<Rightarrow> suggested);
          size2 = (case max_len of None \<Rightarrow> size1
                   | Some m \<Rightarrow> if m < reuse_adjusted_compute size1 reusable suggested then min m suggested else size1)
      in if size2 < suggested
         then guardR (unit_size \<noteq> 0) ZeroDivisionError (Inr (size2 div unit_size * unit_size))
         else Inr size2)"

fun chunk_fcfs :: "int option \<Rightarrow> llm_request list \<Rightarrow> int option \<Rightarrow> int \<Rightarrow> llm_request list res" where
  "chunk_fcfs max_len [] capacity unit_size = Inr []"
| "chunk_fcfs max_len (r # rs) capacity unit_size =
     bindR (fcfs_size max_len unit_size r capacity) (\<lambda>n.
     bindR (set_context_chunk_size n r) (\<lambda>r'.
     bindR (context_chunk_size r') (\<lambda>actual.
     bindR (chunk_fcfs max_len rs
              (map_option (\<lambda>c. c - reuse_adjusted_compute actual (capped_reusable r) (context_remaining_length r)) capacity) unit_size)
       (\<lambda>rs'. Inr (r' # rs')))))"

subsection \<open>Forced chunks\<close>

definition forced_size :: "int option \<Rightarrow> int \<Rightarrow> llm_request \<Rightarrow> int option \<Rightarrow> int \<Rightarrow> int res" where
  "forced_size max_len unit_size r capacity taken =
     bindR (let n = forced_context_chunk_size r
            in if exceeds n max_len
               then guardR (unit_size \<noteq> 0) ZeroDivisionError (Inr (the max_len div unit_size * unit_size))
               else Inr n) (\<lambda>n.
     if exceeds (taken + n) capacity
     then guardR (unit_size \<noteq> 0) ZeroDivisionError (Inr (min n (max 0 (the capacity - taken)) div unit_size * unit_size))
     else Inr n)"

fun forced_loop :: "int option \<Rightarrow> llm_request list \<Rightarrow> int option \<Rightarrow> int \<Rightarrow> int \<Rightarrow> (llm_request list \<times> int) res" where
  "forced_loop max_len [] capacity unit_size taken = Inr ([], taken)"
| "forced_loop max_len (r # rs) capacity unit_size taken =
     bindR (forced_size max_len unit_size r capacity taken) (\<lambda>n.
     bindR (set_context_chunk_size n r) (\<lambda>r'.
     bindR (context_chunk_size r') (\<lambda>actual.
     bindR (forced_loop max_len rs capacity unit_size (taken + actual)) (\<lambda>(rs', t). Inr (r' # rs', t)))))"

definition chunk_forced :: "int option \<Rightarrow> llm_request list \<Rightarrow> int option \<Rightarrow> int \<Rightarrow> llm_request list res" where
  "chunk_forced max_len rs capacity unit_size =
     guardR (\<not> (case max_len of None \<Rightarrow> False | Some m \<Rightarrow> m < unit_size)) ValueError (
     bindR (forced_loop max_len rs capacity unit_size 0) (\<lambda>(rs', taken).
       assertR (\<not> exceeds taken capacity) (Inr rs')))"

subsection \<open>Draft tokens\<close>

definition chunk_compute :: "llm_request \<Rightarrow> int res" where
  "chunk_compute r = bindR (context_chunk_size r) (\<lambda>n. Inr (reuse_adjusted_compute n (capped_reusable r) (context_remaining_length r)))"

definition kept_drafts :: "int option \<Rightarrow> int \<Rightarrow> int option \<Rightarrow> llm_request \<Rightarrow> int \<Rightarrow> int \<Rightarrow> int res" where
  "kept_drafts max_len unit_size capacity r chunk num_ctx =
     guardR (unit_size \<noteq> 0) ZeroDivisionError (Inr (
       let remainder = chunk mod unit_size;
           space0 = (if remainder = 0 then 0 else unit_size - remainder);
           space1 = (case max_len of None \<Rightarrow> space0 | Some m \<Rightarrow> min space0 (m - chunk));
           kept = min (int (num_draft_tokens r)) (max 0 space1)
       in case capacity of None \<Rightarrow> kept | Some c \<Rightarrow> max 0 (min kept (c - num_ctx))))"

definition fit_step :: "int option \<Rightarrow> int \<Rightarrow> int option \<Rightarrow> llm_request \<Rightarrow> int \<Rightarrow> (llm_request \<times> int) res" where
  "fit_step max_len unit_size capacity r num_ctx =
     bindR (is_last_context_chunk r) (\<lambda>last_chunk.
     if last_chunk \<and> has_draft_tokens r
     then bindR (context_chunk_size r) (\<lambda>chunk.
          bindR (kept_drafts max_len unit_size capacity r chunk num_ctx) (\<lambda>kept.
          let num_ctx' = (if capacity = None then num_ctx else num_ctx + kept);
              discard = int (num_draft_tokens r) - kept
          in if 0 < discard then bindR (discard_draft_tokens discard r) (\<lambda>r'. Inr (r', num_ctx')) else Inr (r, num_ctx')))
     else Inr (r, num_ctx))"

fun fit_loop :: "int option \<Rightarrow> int \<Rightarrow> int option \<Rightarrow> llm_request list \<Rightarrow> int \<Rightarrow> llm_request list res" where
  "fit_loop max_len unit_size capacity [] num_ctx = Inr []"
| "fit_loop max_len unit_size capacity (r # rs) num_ctx =
     bindR (fit_step max_len unit_size capacity r num_ctx) (\<lambda>(r', n).
     bindR (fit_loop max_len unit_size capacity rs n) (\<lambda>rs'. Inr (r' # rs')))"

definition fit_draft_tokens :: "int option \<Rightarrow> llm_request list \<Rightarrow> int option \<Rightarrow> int \<Rightarrow> llm_request list res" where
  "fit_draft_tokens max_len rs capacity unit_size =
     bindR (mapR chunk_compute rs) (\<lambda>ns. fit_loop max_len unit_size capacity rs (sum_list ns))"

definition apply_policy :: "chunking_config \<Rightarrow> int option \<Rightarrow> llm_request list \<Rightarrow> int option \<Rightarrow> llm_request list res option" where
  "apply_policy config max_len rs capacity =
     (case policy_of config of
        EQUAL_PROGRESS \<Rightarrow> chunk_equal_progress max_len rs capacity (chunk_unit_size config)
      | FIRST_COME_FIRST_SERVED \<Rightarrow> Some (chunk_fcfs max_len rs capacity (chunk_unit_size config))
      | FORCE_CHUNK \<Rightarrow> Some (chunk_forced max_len rs capacity (chunk_unit_size config)))"

definition set_ctx_requests_chunk_size :: "chunking_config \<Rightarrow> int option \<Rightarrow> llm_request list \<Rightarrow> int option \<Rightarrow> llm_request list res option" where
  "set_ctx_requests_chunk_size config max_len rs capacity =
     (case mapR (set_context_chunk_size 0) rs of
        Inl e \<Rightarrow> Some (Inl e)
      | Inr rs0 \<Rightarrow> map_option (\<lambda>res. bindR res (\<lambda>rs'. fit_draft_tokens max_len rs' capacity (chunk_unit_size config)))
                     (apply_policy config max_len rs0 capacity))"

section \<open>Main loop\<close>

record batch_state =
  b_encoder :: "llm_request list"
  b_context :: "llm_request list"
  b_generation :: "llm_request list"
  b_tokens :: int
  b_size :: int
  b_beam :: int
  b_chunked :: "llm_request list"
  b_chunked_tokens :: int
  b_all_fit :: bool

definition empty_batch :: batch_state where
  "empty_batch = \<lparr>b_encoder = [], b_context = [], b_generation = [], b_tokens = 0, b_size = 0, b_beam = 0, b_chunked = [],
     b_chunked_tokens = 0, b_all_fit = True\<rparr>"

text \<open>What one request does to the loop: it is taken, it is passed over, or it ends the loop.\<close>

datatype turn = Taken batch_state | Skipped | Stopped

definition take_encoder :: "micro_batch_scheduler \<Rightarrow> llm_request \<Rightarrow> batch_state \<Rightarrow> turn res" where
  "take_encoder s r b =
     bindR (encoder_output_len r) (\<lambda>n.
     assertR (\<not> exceeds n (max_context_length s)) (
       if exceeds (b_tokens b + n) (max_num_tokens s) then Inr Stopped
       else Inr (Taken (b\<lparr>b_encoder := b_encoder b @ [r], b_tokens := b_tokens b + n\<rparr>))))"

definition full_context_tokens :: "llm_request \<Rightarrow> int" where
  "full_context_tokens r = max 1 (reuse_adjusted_compute (num_tokens r) (reusable_tokens r) (context_remaining_length r)
     + (if has_draft_tokens r then int (num_draft_tokens r) else 0))"

definition take_full_context :: "micro_batch_scheduler \<Rightarrow> llm_request \<Rightarrow> batch_state \<Rightarrow> turn res" where
  "take_full_context s r b =
     (let n = full_context_tokens r
      in assertR (\<not> exceeds n (max_context_length s)) (
           if exceeds (b_tokens b + n) (max_num_tokens s) then Inr Stopped
           else Inr (Taken (b\<lparr>b_context := b_context b @ [r], b_tokens := b_tokens b + n\<rparr>))))"

definition take_chunked_context :: "micro_batch_scheduler \<Rightarrow> llm_request \<Rightarrow> batch_state \<Rightarrow> turn res" where
  "take_chunked_context s r b =
     bindR (set_context_chunk_size (context_remaining_length r) r) (\<lambda>r1.
     bindR (is_last_context_chunk r1) (\<lambda>last_chunk.
     bindR (context_chunk_size r1) (\<lambda>chunk.
     let drafts = (if last_chunk \<and> has_draft_tokens r1 then int (num_draft_tokens r1) else 0);
         n = reuse_adjusted_compute chunk (reusable_tokens r1) (context_remaining_length r1) + drafts
     in Inr (Taken (if exceeds n (max_context_length s)
          then b\<lparr>b_chunked := b_chunked b @ [r1], b_chunked_tokens := b_chunked_tokens b + the (max_context_length s), b_all_fit := False\<rparr>
          else b\<lparr>b_chunked := b_chunked b @ [r1], b_chunked_tokens := b_chunked_tokens b + n\<rparr>)))))"

definition take_generation :: "micro_batch_scheduler \<Rightarrow> llm_request \<Rightarrow> batch_state \<Rightarrow> turn res" where
  "take_generation s r b =
     (let n = beam_width r + int (num_draft_tokens r)
      in if exceeds (b_tokens b + n) (max_num_tokens s) then Inr Stopped
         else if b_beam b \<noteq> 0 \<and> b_beam b \<noteq> beam_width r then Inr Skipped
         else Inr (Taken (b\<lparr>b_beam := beam_width r, b_generation := b_generation b @ [r], b_tokens := b_tokens b + n\<rparr>)))"

definition take_request :: "micro_batch_scheduler \<Rightarrow> nat set \<Rightarrow> llm_request \<Rightarrow> batch_state \<Rightarrow> turn res" where
  "take_request s inflight r b =
     (if request_id r \<in> inflight \<or> waiting_for_encoder r then Inr Skipped
      else if \<not> (state_value (until_state s) \<le> state_value (req_state r) \<and> state_value (req_state r) < state_value (after_state s))
      then Inr Skipped
      else if req_state r = ENCODER_INIT then take_encoder s r b
      else if req_state r = CONTEXT_INIT
      then if ctx_chunk_config s = None then take_full_context s r b else take_chunked_context s r b
      else take_generation s r b)"

fun batch_loop :: "micro_batch_scheduler \<Rightarrow> nat set \<Rightarrow> llm_request list \<Rightarrow> batch_state \<Rightarrow> batch_state res" where
  "batch_loop s inflight [] b = Inr b"
| "batch_loop s inflight (r # rs) b =
     bindR (take_request s inflight r b) (\<lambda>t. case t of
       Stopped \<Rightarrow> Inr b
     | Skipped \<Rightarrow> batch_loop s inflight rs b
     | Taken b' \<Rightarrow> let b'' = b'\<lparr>b_size := b_size b' + 1\<rparr>
                    in if max_batch_size s \<le> b_size b'' then Inr b'' else batch_loop s inflight rs b'')"

text \<open>Whether the contexts taken so far fit as they are.\<close>

definition contexts_fit :: "micro_batch_scheduler \<Rightarrow> batch_state \<Rightarrow> bool" where
  "contexts_fit s b \<longleftrightarrow> b_all_fit b
     \<and> (case max_num_tokens s of None \<Rightarrow> True | Some m \<Rightarrow> b_chunked_tokens b \<le> m - b_tokens b)
     \<and> (case ctx_chunk_config s of None \<Rightarrow> True | Some config \<Rightarrow> policy_of config \<noteq> FORCE_CHUNK)"

definition chunk_contexts :: "micro_batch_scheduler \<Rightarrow> batch_state \<Rightarrow> llm_request list res option" where
  "chunk_contexts s b =
     (if \<not> contexts_fit s b \<and> b_chunked b \<noteq> []
      then (case ctx_chunk_config s of
              None \<Rightarrow> Some (Inl AssertionError)
            | Some config \<Rightarrow> set_ctx_requests_chunk_size config (max_context_length s) (b_chunked b)
                               (map_option (\<lambda>m. m - b_tokens b) (max_num_tokens s)))
      else Some (Inr (b_chunked b)))"

definition sort_context_requests :: "llm_request list \<Rightarrow> bool \<Rightarrow> llm_request list res" where
  "sort_context_requests rs chunks_present =
     (if chunks_present
      then bindR (mapR is_last_context_chunk rs) (\<lambda>lasts.
        let tagged = zip rs lasts
        in Inr (sort_key get_lora_task_id (map fst (filter (\<lambda>p. \<not> snd p) tagged))
              @ sort_key get_lora_task_id (map fst (filter snd tagged))))
      else Inr (sort_key get_lora_task_id rs))"

record batch_output =
  o_encoder :: "llm_request list"
  o_context :: "llm_request list"
  o_generation :: "llm_request list"
  o_chunked :: "llm_request list"

text \<open>The batch, and every request whose chunk was set, also those left out of the batch.\<close>

definition finish_batch :: "batch_state \<Rightarrow> bool \<Rightarrow> llm_request list \<Rightarrow> batch_output res" where
  "finish_batch b fit chunked =
     bindR (mapR context_chunk_size chunked) (\<lambda>sizes.
     let contexts = b_context b @ map fst (filter (\<lambda>p. 0 < snd p) (zip chunked sizes))
     in bindR (sort_context_requests contexts (\<not> fit)) (\<lambda>sorted_contexts.
        Inr \<lparr>o_encoder = sort_key get_lora_task_id (b_encoder b), o_context = sorted_contexts,
             o_generation = sort_key get_lora_task_id (b_generation b), o_chunked = chunked\<rparr>))"

definition micro_batch_schedule :: "micro_batch_scheduler \<Rightarrow> llm_request list \<Rightarrow> nat set \<Rightarrow> batch_output res option" where
  "micro_batch_schedule s active inflight =
     (case batch_loop s inflight active empty_batch of
        Inl e \<Rightarrow> Some (Inl e)
      | Inr b \<Rightarrow> map_option (\<lambda>res. bindR res (finish_batch b (contexts_fit s b))) (chunk_contexts s b))"

end
