(* ===== verification/Sched_Micro_Batch_Laws.thy ===== *)
theory Sched_Micro_Batch_Laws
  imports Sched_Micro_Batch
begin

text \<open>
  Laws of the micro batch scheduler: each chunking policy returns, keeps every chunk within its request and the compute
  tokens within the budget; equal progress leaves no request that could still take a unit; the batch respects the
  token and the size limit.
\<close>

section \<open>Requests with a chunk\<close>

definition ctx_ok :: "llm_request \<Rightarrow> bool" where
  "ctx_ok r \<longleftrightarrow> req_state r = CONTEXT_INIT \<and> 0 \<le> chunk_field r \<and> chunk_field r \<le> context_remaining_length r"

definition cost :: "llm_request \<Rightarrow> int" where
  "cost r = reuse_adjusted_compute (chunk_field r) (capped_reusable r) (context_remaining_length r)"

lemma remaining_chunk [simp]: "context_remaining_length (r\<lparr>chunk_field := n\<rparr>) = context_remaining_length r"
  by (simp add: context_remaining_length_def)

lemma capped_reusable_chunk [simp]: "capped_reusable (r\<lparr>chunk_field := n\<rparr>) = capped_reusable r"
  by (simp add: capped_reusable_def reusable_tokens_def is_first_context_chunk_def)

lemma ctx_okD: "ctx_ok r \<Longrightarrow> chunk_size_defined r" "ctx_ok r \<Longrightarrow> 0 \<le> chunk_field r" "ctx_ok r \<Longrightarrow> chunk_field r \<le> context_remaining_length r"
  by (simp_all add: ctx_ok_def chunk_size_defined_def is_context_init_state_def)

lemma chunk_defined_chunk [simp]: "chunk_size_defined (r\<lparr>chunk_field := n\<rparr>) = chunk_size_defined r"
  by (simp add: chunk_size_defined_def is_context_init_state_def is_disagg_generation_init_state_def is_disagg_generation_transmission_complete_def)

lemma ctx_ok_chunk: "ctx_ok r \<Longrightarrow> 0 \<le> n \<Longrightarrow> n \<le> context_remaining_length r \<Longrightarrow> ctx_ok (r\<lparr>chunk_field := n\<rparr>)"
  by (simp add: ctx_ok_def)

lemma chunk_size_ok [simp]: "chunk_size_defined r \<Longrightarrow> context_chunk_size r = Inr (chunk_field r)"
  by (simp add: context_chunk_size_def)

lemma set_chunk_ok [simp]: "chunk_size_defined r \<Longrightarrow> 0 \<le> n \<Longrightarrow> set_context_chunk_size n r = Inr (r\<lparr>chunk_field := min n (context_remaining_length r)\<rparr>)"
  by (simp add: set_context_chunk_size_def)

lemma last_chunk_ok: "ctx_ok r \<Longrightarrow> is_last_context_chunk r = Inr (context_current_position r + chunk_field r = prompt_len r)"
  using ctx_okD(1) [of r] unfolding is_last_context_chunk_def
  by (simp add: is_disagg_generation_init_state_def is_disagg_generation_transmission_complete_def ctx_ok_def)

lemma capped_le: "capped_reusable r \<le> context_remaining_length r"
  by (simp add: capped_reusable_def)

text \<open>Below the reusable prefix a chunk costs its size, past it what the prefix leaves.\<close>

lemma reuse_adjusted_min: "0 \<le> c \<Longrightarrow> u \<le> n \<Longrightarrow> reuse_adjusted_compute c u n = (if u \<le> 0 then c else min c (n - u))"
  by (auto simp: reuse_adjusted_compute_def)

lemma cost_eq: "0 \<le> chunk_field r \<Longrightarrow>
    cost r = (if capped_reusable r \<le> 0 then chunk_field r else min (chunk_field r) (context_remaining_length r - capped_reusable r))"
  unfolding cost_def by (rule reuse_adjusted_min) (use capped_le in auto)

lemma cost_bounds: "ctx_ok r \<Longrightarrow> 0 \<le> cost r" "ctx_ok r \<Longrightarrow> cost r \<le> chunk_field r"
  using capped_le [of r] by (auto simp: cost_eq ctx_okD)

lemma cost_zero: "cost (r\<lparr>chunk_field := 0\<rparr>) = 0"
  using capped_le [of r] by (simp add: cost_eq)

lemma cost_mono: "0 \<le> chunk_field r \<Longrightarrow> chunk_field r \<le> n \<Longrightarrow> cost r \<le> cost (r\<lparr>chunk_field := n\<rparr>)"
  by (auto simp: cost_eq)

section \<open>Equal progress\<close>

definition offered :: "int \<Rightarrow> llm_request \<Rightarrow> llm_request" where
  "offered u r = r\<lparr>chunk_field := min (chunk_field r + u) (context_remaining_length r)\<rparr>"

text \<open>The next unit of a request would break the budget or the longest context.\<close>

definition blocked :: "int option \<Rightarrow> int option \<Rightarrow> int \<Rightarrow> int \<Rightarrow> llm_request \<Rightarrow> bool" where
  "blocked ml cap u n r \<longleftrightarrow> exceeds (n + (cost (offered u r) - cost r)) cap \<or> exceeds (chunk_field (offered u r)) ml"

lemma chunk_field_same [simp]: "r\<lparr>chunk_field := chunk_field r\<rparr> = r"
  by simp

lemma equal_step_eq:
  assumes "ctx_ok r" "0 \<le> u"
  shows "equal_step ml cap u r n s = Inr (if blocked ml cap u n r then (r, n, s)
    else (offered u r, n + (cost (offered u r) - cost r), s + (chunk_field (offered u r) - chunk_field r)))"
proof -
  note D = ctx_okD [OF assms(1)]
  define k where "k = min (chunk_field r + u) (context_remaining_length r)"
  have k: "0 \<le> k" "min k (context_remaining_length r) = k" using D assms(2) by (simp_all add: k_def)
  have undo: "min (chunk_field r) (context_remaining_length r) = chunk_field r" using D by simp
  have set_k: "set_context_chunk_size k r = Inr (r\<lparr>chunk_field := k\<rparr>)" using D k by simp
  have reset: "set_context_chunk_size (chunk_field r) (r\<lparr>chunk_field := k\<rparr>) = Inr r" using D by (simp add: undo)
  show ?thesis
    unfolding equal_step_def Let_def blocked_def offered_def k_def [symmetric] chunk_size_ok [OF D(1)] bindR_simps set_k
    by (simp add: reset D cost_def)
qed

lemma offered_ok:
  assumes "ctx_ok r" "0 \<le> u"
  shows "ctx_ok (offered u r)" "chunk_field r \<le> chunk_field (offered u r)" "cost r \<le> cost (offered u r)"
proof -
  note D = ctx_okD [OF assms(1)]
  define k where "k = min (chunk_field r + u) (context_remaining_length r)"
  have k: "0 \<le> k" "chunk_field r \<le> k" "k \<le> context_remaining_length r" using D assms(2) by (simp_all add: k_def)
  show "ctx_ok (offered u r)" "chunk_field r \<le> chunk_field (offered u r)" "cost r \<le> cost (offered u r)"
    using ctx_ok_chunk [OF assms(1) k(1,3)] k(2) cost_mono [OF D(2) k(2)] by (simp_all add: offered_def flip: k_def)
qed

definition rechunked :: "llm_request \<Rightarrow> llm_request \<Rightarrow> bool" where
  "rechunked r r' \<longleftrightarrow> r' = r\<lparr>chunk_field := chunk_field r'\<rparr> \<and> ctx_ok r'"

lemma rechunked_offered: "ctx_ok r \<Longrightarrow> 0 \<le> u \<Longrightarrow> rechunked r (offered u r)"
  using offered_ok(1) [of r u] by (simp add: rechunked_def offered_def)

lemma rechunked_refl: "ctx_ok r \<Longrightarrow> rechunked r r"
  by (simp add: rechunked_def)

lemma rechunkedD:
  assumes "rechunked r r'"
  shows "ctx_ok r'" "context_remaining_length r' = context_remaining_length r" "request_id r' = request_id r"
proof -
  have r': "r' = r\<lparr>chunk_field := chunk_field r'\<rparr>" and ok: "ctx_ok r'" using assms by (simp_all add: rechunked_def)
  show "ctx_ok r'" by (rule ok)
  show "context_remaining_length r' = context_remaining_length r" using arg_cong [OF r', of context_remaining_length] by simp
  show "request_id r' = request_id r" using arg_cong [OF r', of request_id] by simp
qed

lemma rechunked_trans:
  assumes "rechunked r r'" "rechunked r' r''"
  shows "rechunked r r''"
proof -
  obtain n where "r' = r\<lparr>chunk_field := n\<rparr>" using assms(1) unfolding rechunked_def by (elim conjE) (rule that)
  then show ?thesis using assms(2) by (simp add: rechunked_def)
qed

definition chunk_sum :: "llm_request list \<Rightarrow> int" where
  "chunk_sum rs = sum_list (map chunk_field rs)"

definition cost_sum :: "llm_request list \<Rightarrow> int" where
  "cost_sum rs = sum_list (map cost rs)"

lemma sums_simps [simp]:
  "chunk_sum [] = 0" "chunk_sum (r # rs) = chunk_field r + chunk_sum rs" "cost_sum [] = 0" "cost_sum (r # rs) = cost r + cost_sum rs"
  by (simp_all add: chunk_sum_def cost_sum_def)

text \<open>A pass keeps the accounts, never takes tokens back, and without progress leaves everything as it is.\<close>

lemma equal_pass_spec:
  assumes "\<forall>r \<in> set rs. ctx_ok r" "0 \<le> u"
  shows "\<exists>rs' n' s'. equal_pass ml cap u rs n s = Inr (rs', n', s') \<and> list_all2 rechunked rs rs'
    \<and> n' = n + (cost_sum rs' - cost_sum rs) \<and> s' = s + (chunk_sum rs' - chunk_sum rs) \<and> s \<le> s'
    \<and> (\<not> exceeds n cap \<longrightarrow> \<not> exceeds n' cap)
    \<and> (s' = s \<longrightarrow> rs' = rs) \<and> (s' = s \<longrightarrow> (\<forall>r \<in> set rs. blocked ml cap u n r \<or> offered u r = r))"
  using assms(1)
proof (induction rs arbitrary: n s)
  case (Cons r rs)
  then have r: "ctx_ok r" and rs_ok: "\<forall>r \<in> set rs. ctx_ok r" by simp_all
  note O = offered_ok [OF r assms(2)]
  define t where "t = (if blocked ml cap u n r then (r, n, s)
    else (offered u r, n + (cost (offered u r) - cost r), s + (chunk_field (offered u r) - chunk_field r)))"
  obtain r1 n1 s1 where t: "t = (r1, n1, s1)" by (cases t)
  have step: "equal_step ml cap u r n s = Inr (r1, n1, s1)"
    using equal_step_eq [OF r assms(2), of ml cap n s] by (simp add: t [symmetric] t_def)
  have r1: "rechunked r r1" "n1 = n + (cost r1 - cost r)" "s1 = s + (chunk_field r1 - chunk_field r)" "s \<le> s1"
    "\<not> exceeds n cap \<longrightarrow> \<not> exceeds n1 cap" "s1 = s \<longrightarrow> r1 = r \<and> (blocked ml cap u n r \<or> offered u r = r)"
    using t O rechunked_refl [OF r] rechunked_offered [OF r assms(2)]
    by (auto simp: t_def blocked_def offered_def split: if_splits)
  obtain rs' n' s' where rest: "equal_pass ml cap u rs n1 s1 = Inr (rs', n', s')" "list_all2 rechunked rs rs'"
    "n' = n1 + (cost_sum rs' - cost_sum rs)" "s' = s1 + (chunk_sum rs' - chunk_sum rs)" "s1 \<le> s'" "\<not> exceeds n1 cap \<longrightarrow> \<not> exceeds n' cap"
    "s' = s1 \<longrightarrow> rs' = rs" "s' = s1 \<longrightarrow> (\<forall>r \<in> set rs. blocked ml cap u n1 r \<or> offered u r = r)"
    using Cons.IH [OF rs_ok, of n1 s1] by (elim exE conjE)
  have quiet: "r1 # rs' = r # rs \<and> (\<forall>x \<in> set (r # rs). blocked ml cap u n x \<or> offered u x = x)" if "s' = s"
  proof -
    have "s1 = s" "s' = s1" using that r1(4) rest(5) by simp_all
    then show ?thesis using r1(2,6) rest(7,8) by simp
  qed
  show ?case
  proof (intro exI conjI)
    show "equal_pass ml cap u (r # rs) n s = Inr (r1 # rs', n', s')" using step rest(1) by simp
    show "s' = s \<longrightarrow> r1 # rs' = r # rs" "s' = s \<longrightarrow> (\<forall>x \<in> set (r # rs). blocked ml cap u n x \<or> offered u x = x)" using quiet by simp_all
    show "\<not> exceeds n cap \<longrightarrow> \<not> exceeds n' cap" using r1(5) rest(6) by simp
    show "list_all2 rechunked (r # rs) (r1 # rs')" using r1(1) rest(2) by simp
    show "n' = n + (cost_sum (r1 # rs') - cost_sum (r # rs))" unfolding rest(3) r1(2) by simp
    show "s' = s + (chunk_sum (r1 # rs') - chunk_sum (r # rs))" unfolding rest(4) r1(3) by simp
    show "s \<le> s'" using r1(4) rest(5) by simp
  qed
qed simp

lemma rechunked_list:
  assumes "list_all2 rechunked rs rs'"
  shows "\<forall>r \<in> set rs'. ctx_ok r" "map context_remaining_length rs' = map context_remaining_length rs" "map request_id rs' = map request_id rs"
proof -
  from assms have "(\<forall>r \<in> set rs'. ctx_ok r) \<and> map context_remaining_length rs' = map context_remaining_length rs \<and> map request_id rs' = map request_id rs"
    by (induction rule: list_all2_induct) (simp_all add: rechunkedD)
  then show "\<forall>r \<in> set rs'. ctx_ok r" "map context_remaining_length rs' = map context_remaining_length rs" "map request_id rs' = map request_id rs"
    by simp_all
qed

lemma rechunked_list_trans: "list_all2 rechunked rs rs' \<Longrightarrow> list_all2 rechunked rs' rs'' \<Longrightarrow> list_all2 rechunked rs rs''"
  by (rule list_all2_trans [OF rechunked_trans])

definition slack :: "llm_request list \<Rightarrow> int" where
  "slack rs = sum_list (map context_remaining_length rs) - chunk_sum rs"

lemma slack_nonneg: "\<forall>r \<in> set rs. ctx_ok r \<Longrightarrow> 0 \<le> slack rs"
  by (induction rs) (auto simp: slack_def ctx_ok_def)

text \<open>The loop returns: each pass that goes on leaves less context uncovered.\<close>

lemma equal_loop_spec:
  assumes "\<forall>r \<in> set rs. ctx_ok r" "0 \<le> u" "\<not> exceeds n cap" "0 < s"
  shows "\<exists>rs' n'. equal_loop ml cap u rs n s = Some (Inr (rs', n')) \<and> list_all2 rechunked rs rs'
    \<and> n' = n + (cost_sum rs' - cost_sum rs) \<and> \<not> exceeds n' cap
    \<and> (cap = Some n' \<or> (\<forall>r \<in> set rs'. blocked ml cap u n' r \<or> offered u r = r))"
  using assms
proof (induction "nat (slack rs)" arbitrary: rs n s rule: less_induct)
  case less
  note rs = less.prems(1)
  show ?case
  proof (cases "equal_continues cap n s")
    case False
    then have "cap = Some n" using less.prems(3,4) by (cases cap) (auto simp: equal_continues_def exceeds_def)
    then show ?thesis
      using False less.prems(1,3) by (intro exI [of _ rs] exI [of _ n]) (auto simp: equal_loop.simps rechunked_refl list_all2_same)
  next
    case True
    obtain rs1 n1 s1 where pass: "equal_pass ml cap u rs n 0 = Inr (rs1, n1, s1)" "list_all2 rechunked rs rs1"
      "n1 = n + (cost_sum rs1 - cost_sum rs)" "s1 = 0 + (chunk_sum rs1 - chunk_sum rs)" "0 \<le> s1" "\<not> exceeds n cap \<longrightarrow> \<not> exceeds n1 cap"
      "s1 = 0 \<longrightarrow> rs1 = rs" "s1 = 0 \<longrightarrow> (\<forall>r \<in> set rs. blocked ml cap u n r \<or> offered u r = r)"
      using equal_pass_spec [OF rs less.prems(2), of ml cap n 0] by (elim exE conjE)
    note R = rechunked_list [OF pass(2)]
    have loop: "equal_loop ml cap u rs n s = equal_loop ml cap u rs1 n1 s1" using True pass(1) by (subst equal_loop.simps) simp
    show ?thesis
    proof (cases "s1 = 0")
      case True
      then have "rs1 = rs" "n1 = n" using pass(3,7) by simp_all
      moreover have "equal_loop ml cap u rs1 n1 s1 = Some (Inr (rs1, n1))"
        using True by (subst equal_loop.simps) (simp add: equal_continues_def)
      ultimately show ?thesis using loop pass True less.prems(3) by simp
    next
      case False
      then have "slack rs1 < slack rs" using R(2) pass(4,5) by (simp add: slack_def)
      then have "nat (slack rs1) < nat (slack rs)" using slack_nonneg [OF R(1)] slack_nonneg [OF rs] by linarith
      moreover have "\<not> exceeds n1 cap" "0 < s1" using pass(5,6) less.prems(3) False by simp_all
      ultimately obtain rs' n' where "equal_loop ml cap u rs1 n1 s1 = Some (Inr (rs', n'))" "list_all2 rechunked rs1 rs'"
        "n' = n1 + (cost_sum rs' - cost_sum rs1)" "\<not> exceeds n' cap" "cap = Some n' \<or> (\<forall>r \<in> set rs'. blocked ml cap u n' r \<or> offered u r = r)"
        using less.hyps [OF _ R(1) less.prems(2), of n1 s1] by auto
      then show ?thesis
        using loop pass(3) rechunked_list_trans [OF pass(2)] by (intro exI [of _ rs'] exI [of _ n']) simp
    qed
  qed
qed

section \<open>First come, first served\<close>

lemma reuse_adjusted_mono: "0 \<le> a \<Longrightarrow> a \<le> b \<Longrightarrow> u \<le> n \<Longrightarrow> reuse_adjusted_compute a u n \<le> reuse_adjusted_compute b u n"
  by (auto simp: reuse_adjusted_min)

lemma reuse_adjusted_le: "0 \<le> a \<Longrightarrow> u \<le> n \<Longrightarrow> reuse_adjusted_compute a u n \<le> a"
  by (simp add: reuse_adjusted_min)

lemma align_down:
  assumes "0 < u" "0 \<le> (n::int)"
  shows "0 \<le> n div u * u \<and> n div u * u \<le> n"
proof -
  have "0 \<le> n mod u" "0 \<le> n div u * u" using assms by (simp_all add: pos_imp_zdiv_nonneg_iff)
  then show ?thesis using minus_mod_eq_div_mult [of n u] by linarith
qed

definition nonneg :: "int option \<Rightarrow> bool" where
  "nonneg limit \<longleftrightarrow> (case limit of None \<Rightarrow> True | Some m \<Rightarrow> 0 \<le> m)"

lemma fcfs_size_spec:
  assumes "ctx_ok r" "0 < u" "nonneg ml" "nonneg cap"
  shows "\<exists>n. fcfs_size ml u r cap = Inr n \<and> 0 \<le> n \<and> n \<le> context_remaining_length r \<and> \<not> exceeds (cost (r\<lparr>chunk_field := n\<rparr>)) cap"
proof -
  define R v where "R = context_remaining_length r" and "v = capped_reusable r"
  have R: "0 \<le> R" "v \<le> R" using ctx_okD [OF assms(1)] capped_le [of r] by (simp_all add: R_def v_def)
  let ?C = "\<lambda>n. reuse_adjusted_compute n v R"
  define s1 where "s1 = (case cap of Some c \<Rightarrow> if c < ?C R then c else R | None \<Rightarrow> R)"
  define s2 where "s2 = (case ml of None \<Rightarrow> s1 | Some m \<Rightarrow> if m < ?C s1 then min m R else s1)"
  have s1: "0 \<le> s1" "s1 \<le> R" "\<not> exceeds (?C s1) cap"
  proof -
    have le: "?C R \<le> R" "\<And>c. 0 \<le> c \<Longrightarrow> ?C c \<le> c" using R by (auto intro: reuse_adjusted_le)
    show "0 \<le> s1" "s1 \<le> R" "\<not> exceeds (?C s1) cap"
      using R assms(4) le(1) le(2) [of "the cap"] by (auto simp: s1_def nonneg_def exceeds_def split: option.splits)
  qed
  have s2: "0 \<le> s2 \<and> s2 \<le> s1"
  proof (cases "\<exists>m. ml = Some m \<and> m < ?C s1")
    case True
    then show ?thesis using R s1 assms(3) reuse_adjusted_le [of s1 v R] by (auto simp: s2_def nonneg_def)
  next
    case False
    then show ?thesis using s1 by (auto simp: s2_def split: option.splits)
  qed
  define n where "n = (if s2 < R then s2 div u * u else s2)"
  have n: "0 \<le> n" "n \<le> s2" using align_down [OF assms(2), of s2] s2 by (auto simp: n_def)
  have "fcfs_size ml u r cap = Inr n"
    using assms(2) unfolding fcfs_size_def Let_def R_def [symmetric] v_def [symmetric] s1_def [symmetric] s2_def [symmetric]
    by (simp add: n_def)
  moreover have "?C n \<le> ?C s1" using n s2 R by (intro reuse_adjusted_mono) auto
  ultimately show ?thesis
    using n s2 s1 by (intro exI [of _ n]) (auto simp: cost_def exceeds_def R_def v_def split: option.splits)
qed

lemma chunk_fcfs_spec:
  assumes "\<forall>r \<in> set rs. ctx_ok r" "0 < u" "nonneg ml" "nonneg cap"
  shows "\<exists>rs'. chunk_fcfs ml rs cap u = Inr rs' \<and> list_all2 rechunked rs rs' \<and> \<not> exceeds (cost_sum rs') cap"
  using assms(1,4)
proof (induction rs arbitrary: cap)
  case Nil
  then show ?case by (auto simp: exceeds_def nonneg_def split: option.splits)
next
  case (Cons r rs)
  then have r: "ctx_ok r" and rs_ok: "\<forall>r \<in> set rs. ctx_ok r" by simp_all
  obtain n where n: "fcfs_size ml u r cap = Inr n" "0 \<le> n" "n \<le> context_remaining_length r" "\<not> exceeds (cost (r\<lparr>chunk_field := n\<rparr>)) cap"
    using fcfs_size_spec [OF r assms(2,3) Cons.prems(2)] by (elim exE conjE)
  define r' where "r' = r\<lparr>chunk_field := n\<rparr>"
  define cap' where "cap' = map_option (\<lambda>c. c - cost r') cap"
  have r': "rechunked r r'" "ctx_ok r'" using ctx_ok_chunk [OF r n(2,3)] by (simp_all add: r'_def rechunked_def)
  have "nonneg cap'" using n(4) by (auto simp: cap'_def nonneg_def exceeds_def r'_def split: option.splits)
  then obtain rs' where rs': "chunk_fcfs ml rs cap' u = Inr rs'" "list_all2 rechunked rs rs'" "\<not> exceeds (cost_sum rs') cap'"
    using Cons.IH [OF rs_ok, of cap'] by auto
  have set_n: "set_context_chunk_size n r = Inr r'" using n ctx_okD(1) [OF r] by (simp add: r'_def min_absorb1)
  have "chunk_fcfs ml (r # rs) cap u = Inr (r' # rs')"
    using n(1) set_n rs'(1) ctx_okD(1) [OF r'(2)] by (simp add: cap'_def cost_def r'_def)
  then show ?case
    using rs' r' by (intro exI [of _ "r' # rs'"]) (auto simp: exceeds_def cap'_def split: option.splits)
qed

section \<open>Forced chunks\<close>

lemma forced_size_nonneg: "ctx_ok r \<Longrightarrow> 0 \<le> forced_context_chunk_size r"
  using ctx_okD [of r] by (auto simp: forced_context_chunk_size_def split: list.splits)

lemma forced_size_spec:
  assumes "ctx_ok r" "0 < u" "nonneg ml" "nonneg cap" "\<not> exceeds t cap"
  shows "\<exists>n. forced_size ml u r cap t = Inr n \<and> 0 \<le> n \<and> \<not> exceeds (t + n) cap"
proof -
  define n0 where "n0 = (if exceeds (forced_context_chunk_size r) ml then the ml div u * u else forced_context_chunk_size r)"
  have n0: "0 \<le> n0"
    using forced_size_nonneg [OF assms(1)] align_down [OF assms(2), of "the ml"] assms(3)
    by (auto simp: n0_def exceeds_def nonneg_def split: option.splits)
  have first: "forced_size ml u r cap t = (if exceeds (t + n0) cap then Inr (min n0 (max 0 (the cap - t)) div u * u) else Inr n0)"
    using assms(2) by (simp add: forced_size_def n0_def Let_def)
  show ?thesis
  proof (cases "exceeds (t + n0) cap")
    case True
    then obtain c where c: "cap = Some c" "t \<le> c" using assms(5) by (auto simp: exceeds_def split: option.splits)
    have "0 \<le> min n0 (max 0 (c - t)) div u * u \<and> min n0 (max 0 (c - t)) div u * u \<le> min n0 (max 0 (c - t))"
      using n0 by (intro align_down [OF assms(2)]) simp
    then show ?thesis using True c first by (intro exI [of _ "min n0 (max 0 (c - t)) div u * u"]) (auto simp: exceeds_def)
  qed (use n0 first in auto)
qed

lemma forced_loop_spec:
  assumes "\<forall>r \<in> set rs. ctx_ok r" "0 < u" "nonneg ml" "nonneg cap" "\<not> exceeds t cap"
  shows "\<exists>rs' t'. forced_loop ml rs cap u t = Inr (rs', t') \<and> list_all2 rechunked rs rs' \<and> t' = t + chunk_sum rs' \<and> \<not> exceeds t' cap"
  using assms(1,5)
proof (induction rs arbitrary: t)
  case (Cons r rs)
  then have r: "ctx_ok r" and rs_ok: "\<forall>r \<in> set rs. ctx_ok r" by simp_all
  obtain n where n: "forced_size ml u r cap t = Inr n" "0 \<le> n" "\<not> exceeds (t + n) cap"
    using forced_size_spec [OF r assms(2-4) Cons.prems(2)] by (elim exE conjE)
  define k where "k = min n (context_remaining_length r)"
  have k: "0 \<le> k" "k \<le> n" "k \<le> context_remaining_length r" using n ctx_okD [OF r] by (simp_all add: k_def)
  define r' where "r' = r\<lparr>chunk_field := k\<rparr>"
  have r': "rechunked r r'" "ctx_ok r'" using ctx_ok_chunk [OF r k(1,3)] by (simp_all add: r'_def rechunked_def)
  have "\<not> exceeds (t + k) cap" using n(3) k(2) by (auto simp: exceeds_def split: option.splits)
  then obtain rs' t' where rs': "forced_loop ml rs cap u (t + k) = Inr (rs', t')" "list_all2 rechunked rs rs'" "t' = t + k + chunk_sum rs'" "\<not> exceeds t' cap"
    using Cons.IH [OF rs_ok, of "t + k"] by auto
  have "set_context_chunk_size n r = Inr r'" using n ctx_okD(1) [OF r] by (simp add: r'_def k_def)
  then have "forced_loop ml (r # rs) cap u t = Inr (r' # rs', t')"
    using n(1) rs'(1) ctx_okD(1) [OF r'(2)] by (simp add: r'_def)
  then show ?case using rs' r' by (auto simp: r'_def)
qed simp

lemma cost_sum_le_chunk_sum: "\<forall>r \<in> set rs. ctx_ok r \<Longrightarrow> cost_sum rs \<le> chunk_sum rs"
  using cost_bounds(2) by (induction rs) (auto intro: add_mono)

lemma chunk_forced_spec:
  assumes "\<forall>r \<in> set rs. ctx_ok r" "0 < u" "nonneg ml" "nonneg cap" "\<forall>m. ml = Some m \<longrightarrow> u \<le> m"
  shows "\<exists>rs'. chunk_forced ml rs cap u = Inr rs' \<and> list_all2 rechunked rs rs' \<and> \<not> exceeds (cost_sum rs') cap"
proof -
  have "\<not> exceeds 0 cap" using assms(4) by (auto simp: nonneg_def exceeds_def split: option.splits)
  then obtain rs' t' where rs': "forced_loop ml rs cap u 0 = Inr (rs', t')" "list_all2 rechunked rs rs'" "t' = 0 + chunk_sum rs'" "\<not> exceeds t' cap"
    using forced_loop_spec [OF assms(1-4), of 0] by auto
  then have "cost_sum rs' \<le> t'" using cost_sum_le_chunk_sum rechunked_list(1) [OF rs'(2)] by simp
  then have "\<not> exceeds (cost_sum rs') cap" using rs'(4) by (auto simp: exceeds_def split: option.splits)
  then show ?thesis using rs' assms(5) by (intro exI [of _ rs']) (auto simp: chunk_forced_def guardR_def split: option.splits)
qed

section \<open>Draft tokens\<close>

text \<open>Tokens of a context request in a batch: its compute tokens, and its drafts when the chunk is the last.\<close>

definition ends_prompt :: "llm_request \<Rightarrow> bool" where
  "ends_prompt r \<longleftrightarrow> context_current_position r + chunk_field r = prompt_len r"

definition ctx_tokens :: "llm_request \<Rightarrow> int" where
  "ctx_tokens r = cost r + (if ends_prompt r then int (num_draft_tokens r) else 0)"

definition trimmed :: "llm_request \<Rightarrow> llm_request \<Rightarrow> bool" where
  "trimmed r r' \<longleftrightarrow> (\<exists>d \<le> num_draft_tokens r. r' = r\<lparr>num_draft_tokens := d\<rparr>)"

lemma trimmed_refl: "trimmed r r"
  unfolding trimmed_def by (intro exI [of _ "num_draft_tokens r"]) simp

lemma cost_drafts [simp]: "cost (r\<lparr>num_draft_tokens := d\<rparr>) = cost r"
  by (simp add: cost_def capped_reusable_def reusable_tokens_def is_first_context_chunk_def context_remaining_length_def)

lemma ends_prompt_drafts [simp]: "ends_prompt (r\<lparr>num_draft_tokens := d\<rparr>) = ends_prompt r"
  by (simp add: ends_prompt_def)

lemma ctx_ok_drafts [simp]: "ctx_ok (r\<lparr>num_draft_tokens := d\<rparr>) = ctx_ok r"
  by (simp add: ctx_ok_def context_remaining_length_def)

lemma kept_drafts_spec:
  assumes "0 < u"
  shows "\<exists>k. kept_drafts ml u cap r c n = Inr k \<and> 0 \<le> k \<and> k \<le> int (num_draft_tokens r) \<and> (\<forall>b. cap = Some b \<longrightarrow> n \<le> b \<longrightarrow> n + k \<le> b)"
proof -
  define space where "space = (case ml of None \<Rightarrow> if c mod u = 0 then 0 else u - c mod u
    | Some m \<Rightarrow> min (if c mod u = 0 then 0 else u - c mod u) (m - c))"
  define kept where "kept = min (int (num_draft_tokens r)) (max 0 space)"
  have kept: "0 \<le> kept" "kept \<le> int (num_draft_tokens r)" by (simp_all add: kept_def)
  have "kept_drafts ml u cap r c n = Inr (case cap of None \<Rightarrow> kept | Some b \<Rightarrow> max 0 (min kept (b - n)))"
    using assms unfolding kept_drafts_def Let_def space_def [symmetric] kept_def [symmetric] by simp
  then show ?thesis using kept by (cases cap) auto
qed

lemma fit_step_spec:
  assumes "ctx_ok r" "0 < u"
  shows "\<exists>r' n'. fit_step ml u cap r n = Inr (r', n') \<and> trimmed r r'
    \<and> (\<forall>b. cap = Some b \<longrightarrow> n \<le> b \<longrightarrow> n' \<le> b \<and> n' = n + (ctx_tokens r' - cost r'))"
proof (cases "ends_prompt r \<and> has_draft_tokens r")
  case False
  then have "fit_step ml u cap r n = Inr (r, n)" by (auto simp: fit_step_def last_chunk_ok [OF assms(1)] ends_prompt_def)
  moreover have "ctx_tokens r = cost r" using False by (auto simp: ctx_tokens_def has_draft_tokens_def)
  ultimately show ?thesis using trimmed_refl by (intro exI [of _ r] exI [of _ n]) auto
next
  case True
  obtain k where k: "kept_drafts ml u cap r (chunk_field r) n = Inr k" "0 \<le> k" "k \<le> int (num_draft_tokens r)" "\<forall>b. cap = Some b \<longrightarrow> n \<le> b \<longrightarrow> n + k \<le> b"
    using kept_drafts_spec [OF assms(2), of ml cap r "chunk_field r" n] by (elim exE conjE)
  define r' where "r' = r\<lparr>num_draft_tokens := nat k\<rparr>"
  define n' where "n' = (if cap = None then n else n + k)"
  have "fit_step ml u cap r n = Inr (r', n')"
  proof (cases "k = int (num_draft_tokens r)")
    case True
    then have "r' = r" by (simp add: r'_def)
    then show ?thesis using \<open>ends_prompt r \<and> has_draft_tokens r\<close> True k(1) ctx_okD(1) [OF assms(1)]
      by (simp add: fit_step_def last_chunk_ok [OF assms(1)] ends_prompt_def n'_def)
  next
    case False
    then have "num_draft_tokens r - nat (int (num_draft_tokens r) - k) = nat k" "0 < int (num_draft_tokens r) - k" using k by linarith+
    then show ?thesis using \<open>ends_prompt r \<and> has_draft_tokens r\<close> k ctx_okD(1) [OF assms(1)]
      by (simp add: fit_step_def last_chunk_ok [OF assms(1)] ends_prompt_def n'_def r'_def discard_draft_tokens_def)
  qed
  moreover have "trimmed r r'" unfolding trimmed_def r'_def using k by (intro exI [of _ "nat k"]) simp
  moreover have "ctx_tokens r' = cost r' + k" using True k by (simp add: ctx_tokens_def r'_def)
  ultimately show ?thesis using k(4) by (intro exI [of _ r'] exI [of _ n']) (auto simp: n'_def)
qed

definition token_sum :: "llm_request list \<Rightarrow> int" where
  "token_sum rs = sum_list (map ctx_tokens rs)"

lemma trimmed_cost: "list_all2 trimmed rs rs' \<Longrightarrow> cost_sum rs' = cost_sum rs"
  by (induction rule: list_all2_induct) (auto simp: trimmed_def)

lemma fit_loop_spec:
  assumes "\<forall>r \<in> set rs. ctx_ok r" "0 < u"
  shows "\<exists>rs'. fit_loop ml u cap rs n = Inr rs' \<and> list_all2 trimmed rs rs'
    \<and> (\<forall>b. cap = Some b \<longrightarrow> n \<le> b \<longrightarrow> n + (token_sum rs' - cost_sum rs') \<le> b)"
  using assms(1)
proof (induction rs arbitrary: n)
  case (Cons r rs)
  then have r: "ctx_ok r" and rs_ok: "\<forall>r \<in> set rs. ctx_ok r" by simp_all
  obtain r' n' where r': "fit_step ml u cap r n = Inr (r', n')" "trimmed r r'"
    "\<forall>b. cap = Some b \<longrightarrow> n \<le> b \<longrightarrow> n' \<le> b \<and> n' = n + (ctx_tokens r' - cost r')"
    using fit_step_spec [OF r assms(2), of ml cap n] by (elim exE conjE)
  obtain rs' where rs': "fit_loop ml u cap rs n' = Inr rs'" "list_all2 trimmed rs rs'"
    "\<forall>b. cap = Some b \<longrightarrow> n' \<le> b \<longrightarrow> n' + (token_sum rs' - cost_sum rs') \<le> b"
    using Cons.IH [OF rs_ok, of n'] by (elim exE conjE)
  then show ?case using r' by (intro exI [of _ "r' # rs'"]) (auto simp: token_sum_def)
qed (simp add: token_sum_def)

lemma chunk_compute_ok: "ctx_ok r \<Longrightarrow> chunk_compute r = Inr (cost r)"
  using ctx_okD(1) [of r] by (simp add: chunk_compute_def cost_def)

lemma fit_draft_tokens_spec:
  assumes "\<forall>r \<in> set rs. ctx_ok r" "0 < u" "\<not> exceeds (cost_sum rs) cap"
  shows "\<exists>rs'. fit_draft_tokens ml rs cap u = Inr rs' \<and> list_all2 trimmed rs rs' \<and> \<not> exceeds (token_sum rs') cap"
proof -
  have m: "mapR chunk_compute rs = Inr (map cost rs)" by (rule mapR_Inr_map) (use assms(1) chunk_compute_ok in blast)
  obtain rs' where rs': "fit_loop ml u cap rs (cost_sum rs) = Inr rs'" "list_all2 trimmed rs rs'"
    "\<forall>b. cap = Some b \<longrightarrow> cost_sum rs \<le> b \<longrightarrow> cost_sum rs + (token_sum rs' - cost_sum rs') \<le> b"
    using fit_loop_spec [OF assms(1,2), of ml cap "cost_sum rs"] by (elim exE conjE)
  have "fit_draft_tokens ml rs cap u = Inr rs'" using m rs'(1) by (simp add: fit_draft_tokens_def cost_sum_def)
  then show ?thesis using rs' trimmed_cost [OF rs'(2)] assms(3) by (auto simp: exceeds_def split: option.splits)
qed

section \<open>Chunk sizes within the budget\<close>

definition config_ok :: "chunking_config \<Rightarrow> int option \<Rightarrow> bool" where
  "config_ok config ml \<longleftrightarrow> 0 < chunk_unit_size config
     \<and> (policy_of config = FORCE_CHUNK \<longrightarrow> (\<forall>m. ml = Some m \<longrightarrow> chunk_unit_size config \<le> m))"

lemma chunk_equal_progress_spec:
  assumes "\<forall>r \<in> set rs. ctx_ok r" "0 < u" "nonneg cap" "cost_sum rs = 0"
  shows "\<exists>rs'. chunk_equal_progress ml rs cap u = Some (Inr rs') \<and> list_all2 rechunked rs rs' \<and> \<not> exceeds (cost_sum rs') cap
    \<and> (cap = Some (cost_sum rs') \<or> (\<forall>r \<in> set rs'. blocked ml cap u (cost_sum rs') r \<or> offered u r = r))"
proof -
  have "\<not> exceeds 0 cap" using assms(3) by (auto simp: nonneg_def exceeds_def split: option.splits)
  then obtain rs' n' where "equal_loop ml cap u rs 0 1 = Some (Inr (rs', n'))" "list_all2 rechunked rs rs'"
    "n' = 0 + (cost_sum rs' - cost_sum rs)" "\<not> exceeds n' cap" "cap = Some n' \<or> (\<forall>r \<in> set rs'. blocked ml cap u n' r \<or> offered u r = r)"
    using equal_loop_spec [OF assms(1), of u 0 cap 1 ml] assms(2) by (elim exE conjE | simp)+
  then show ?thesis using assms(4) by (intro exI [of _ rs']) (simp add: chunk_equal_progress_def)
qed

lemma apply_policy_spec:
  assumes "\<forall>r \<in> set rs. ctx_ok r" "config_ok config ml" "nonneg ml" "nonneg cap" "cost_sum rs = 0"
  shows "\<exists>rs'. apply_policy config ml rs cap = Some (Inr rs') \<and> list_all2 rechunked rs rs' \<and> \<not> exceeds (cost_sum rs') cap"
proof -
  have u: "0 < chunk_unit_size config" using assms(2) by (simp add: config_ok_def)
  show ?thesis
  proof (cases "policy_of config")
    case EQUAL_PROGRESS
    then show ?thesis using chunk_equal_progress_spec [OF assms(1) u assms(4,5), of ml] by (auto simp: apply_policy_def)
  next
    case FIRST_COME_FIRST_SERVED
    then show ?thesis using chunk_fcfs_spec [OF assms(1) u assms(3,4)] by (auto simp: apply_policy_def)
  next
    case FORCE_CHUNK
    then show ?thesis using chunk_forced_spec [OF assms(1) u assms(3,4)] assms(2) by (auto simp: apply_policy_def config_ok_def)
  qed
qed

text \<open>A request whose chunk was set and whose drafts may have been cut.\<close>

definition rescheduled :: "llm_request \<Rightarrow> llm_request \<Rightarrow> bool" where
  "rescheduled r r' \<longleftrightarrow> (\<exists>n d. r' = r\<lparr>chunk_field := n, num_draft_tokens := d\<rparr> \<and> d \<le> num_draft_tokens r) \<and> ctx_ok r'"

lemma rescheduledI: "rechunked (r\<lparr>chunk_field := 0\<rparr>) r1 \<Longrightarrow> trimmed r1 r' \<Longrightarrow> rescheduled r r'"
proof -
  assume a: "rechunked (r\<lparr>chunk_field := 0\<rparr>) r1" "trimmed r1 r'"
  obtain n where n: "r1 = r\<lparr>chunk_field := n\<rparr>" using a(1) by (auto simp: rechunked_def)
  obtain d where d: "d \<le> num_draft_tokens r1" "r' = r1\<lparr>num_draft_tokens := d\<rparr>" using a(2) by (auto simp: trimmed_def)
  have "ctx_ok r'" using rechunkedD(1) [OF a(1)] d(2) by simp
  then show ?thesis using n d unfolding rescheduled_def by (intro conjI exI [of _ n] exI [of _ d]) simp_all
qed

lemma set_ctx_requests_chunk_size_spec:
  assumes "\<forall>r \<in> set rs. ctx_ok r" "config_ok config ml" "nonneg ml" "nonneg cap"
  shows "\<exists>rs'. set_ctx_requests_chunk_size config ml rs cap = Some (Inr rs') \<and> list_all2 rescheduled rs rs' \<and> \<not> exceeds (token_sum rs') cap"
proof -
  let ?rs0 = "map (\<lambda>r. r\<lparr>chunk_field := 0\<rparr>) rs"
  have u: "0 < chunk_unit_size config" using assms(2) by (simp add: config_ok_def)
  have ok0: "ctx_ok (r\<lparr>chunk_field := 0\<rparr>)" if "r \<in> set rs" for r using ctx_ok_chunk [of r 0] ctx_okD [of r] assms(1) that by force
  have "set_context_chunk_size 0 r = Inr (r\<lparr>chunk_field := 0\<rparr>)" if "r \<in> set rs" for r
  proof -
    have r: "ctx_ok r" using assms(1) that by blast
    have "min 0 (context_remaining_length r) = 0" using ctx_okD(2,3) [OF r] by linarith
    then show ?thesis using ctx_okD(1) [OF r] by simp
  qed
  then have m: "mapR (set_context_chunk_size 0) rs = Inr ?rs0" by (rule mapR_Inr_map)
  have z: "cost_sum ?rs0 = 0" by (simp add: cost_sum_def cost_zero comp_def)
  obtain rs1 where rs1: "apply_policy config ml ?rs0 cap = Some (Inr rs1)" "list_all2 rechunked ?rs0 rs1" "\<not> exceeds (cost_sum rs1) cap"
    using apply_policy_spec [OF _ assms(2-4) z] ok0 by auto
  obtain rs' where rs': "fit_draft_tokens ml rs1 cap (chunk_unit_size config) = Inr rs'" "list_all2 trimmed rs1 rs'" "\<not> exceeds (token_sum rs') cap"
    using fit_draft_tokens_spec [OF rechunked_list(1) [OF rs1(2)] u rs1(3), of ml] by (elim exE conjE)
  have "list_all2 (\<lambda>r. rechunked (r\<lparr>chunk_field := 0\<rparr>)) rs rs1" using rs1(2) by (simp add: list_all2_map1)
  then have "list_all2 rescheduled rs rs'"
    by (rule list_all2_trans [where ?P1.0 = "\<lambda>r. rechunked (r\<lparr>chunk_field := 0\<rparr>)" and ?P2.0 = trimmed, rotated, OF _ rs'(2)]) (rule rescheduledI)
  then show ?thesis using m rs1(1) rs' by (intro exI [of _ rs']) (simp add: set_ctx_requests_chunk_size_def)
qed

end
