(* ===== verification/Sched_Batch_Laws.thy ===== *)
theory Sched_Batch_Laws
  imports Sched_Micro_Batch_Laws "HOL-Library.Multiset"
begin

text \<open>
  Laws of the main loop of the micro batch scheduler: the accounts it keeps, and the limits of the batch it returns.
\<close>

section \<open>Accounts of a batch\<close>

definition encoder_tokens :: "llm_request \<Rightarrow> int" where
  "encoder_tokens r = (case encoder_length r of Some n \<Rightarrow> n | None \<Rightarrow> 0)"

definition generation_tokens :: "llm_request \<Rightarrow> int" where
  "generation_tokens r = beam_width r + int (num_draft_tokens r)"

text \<open>Tokens a context request takes in a batch, with and without chunking.\<close>

definition context_tokens :: "micro_batch_scheduler \<Rightarrow> llm_request \<Rightarrow> int" where
  "context_tokens s r = (if ctx_chunk_config s = None then full_context_tokens r else ctx_tokens r)"

definition batch_tokens :: "micro_batch_scheduler \<Rightarrow> llm_request list \<Rightarrow> llm_request list \<Rightarrow> llm_request list \<Rightarrow> int" where
  "batch_tokens s enc ctx gen = sum_list (map encoder_tokens enc) + sum_list (map (context_tokens s) ctx) + sum_list (map generation_tokens gen)"

text \<open>A request that the limits allow at all.\<close>

definition request_fits :: "micro_batch_scheduler \<Rightarrow> int \<Rightarrow> llm_request \<Rightarrow> bool" where
  "request_fits s m r \<longleftrightarrow>
     (req_state r = ENCODER_INIT \<longrightarrow> (case encoder_length r of Some n \<Rightarrow> 0 \<le> n \<and> n \<le> m | None \<Rightarrow> False))
     \<and> (req_state r = CONTEXT_INIT \<longrightarrow> 0 \<le> context_remaining_length r \<and> (ctx_chunk_config s = None \<longrightarrow> full_context_tokens r \<le> m))
     \<and> 0 \<le> beam_width r"

definition batch_ok :: "micro_batch_scheduler \<Rightarrow> int \<Rightarrow> batch_state \<Rightarrow> bool" where
  "batch_ok s m b \<longleftrightarrow>
     b_tokens b = batch_tokens s (b_encoder b) (b_context b) (b_generation b) \<and> b_tokens b \<le> m
     \<and> b_size b = int (length (b_encoder b) + length (b_context b) + length (b_generation b) + length (b_chunked b))
     \<and> (\<forall>r \<in> set (b_chunked b). ctx_ok r)
     \<and> (b_all_fit b \<longrightarrow> b_chunked_tokens b = token_sum (b_chunked b))
     \<and> (ctx_chunk_config s = None \<longrightarrow> b_chunked b = [] \<and> b_all_fit b) \<and> (ctx_chunk_config s \<noteq> None \<longrightarrow> b_context b = [])"

lemma batch_okD:
  assumes "batch_ok s m b"
  shows "b_tokens b = batch_tokens s (b_encoder b) (b_context b) (b_generation b)" "b_tokens b \<le> m"
    "b_size b = int (length (b_encoder b) + length (b_context b) + length (b_generation b) + length (b_chunked b))"
    "\<forall>r \<in> set (b_chunked b). ctx_ok r" "b_all_fit b \<Longrightarrow> b_chunked_tokens b = token_sum (b_chunked b)"
    "ctx_chunk_config s = None \<Longrightarrow> b_chunked b = []" "ctx_chunk_config s \<noteq> None \<Longrightarrow> b_context b = []"
    "ctx_chunk_config s = None \<Longrightarrow> b_all_fit b"
  using assms by (simp_all add: batch_ok_def)

text \<open>The batch after a request was taken, before it is counted.\<close>

abbreviation counted :: "batch_state \<Rightarrow> batch_state" where
  "counted b \<equiv> b\<lparr>b_size := b_size b + 1\<rparr>"

definition turn_ok :: "micro_batch_scheduler \<Rightarrow> int \<Rightarrow> batch_state \<Rightarrow> turn \<Rightarrow> bool" where
  "turn_ok s m b t \<longleftrightarrow> (case t of Taken b' \<Rightarrow> batch_ok s m (counted b') \<and> b_size b' = b_size b | _ \<Rightarrow> True)"

lemma exceeds_Some [simp]: "exceeds n (Some m) \<longleftrightarrow> m < n"
  by (simp add: exceeds_def)

lemma take_encoder_ok:
  assumes "batch_ok s m b" "request_fits s m r" "req_state r = ENCODER_INIT" "max_num_tokens s = Some m" "max_context_length s = Some m"
  shows "\<exists>t. take_encoder s r b = Inr t \<and> turn_ok s m b t"
proof -
  obtain n where n: "encoder_length r = Some n" "n \<le> m"
    using assms(2,3) by (auto simp: request_fits_def split: option.splits)
  show ?thesis
    using batch_okD [OF assms(1)] n assms(4,5)
    by (auto simp: take_encoder_def encoder_output_len_def turn_ok_def batch_ok_def batch_tokens_def encoder_tokens_def)
qed

lemma take_full_context_ok:
  assumes "batch_ok s m b" "request_fits s m r" "req_state r = CONTEXT_INIT" "ctx_chunk_config s = None"
    "max_num_tokens s = Some m" "max_context_length s = Some m"
  shows "\<exists>t. take_full_context s r b = Inr t \<and> turn_ok s m b t"
proof -
  have "full_context_tokens r \<le> m" using assms(2-4) by (simp add: request_fits_def)
  then show ?thesis
    using batch_okD [OF assms(1)] assms(4-6)
    by (auto simp: take_full_context_def Let_def turn_ok_def batch_ok_def batch_tokens_def context_tokens_def)
qed

lemma take_generation_ok:
  assumes "batch_ok s m b" "max_num_tokens s = Some m"
  shows "\<exists>t. take_generation s r b = Inr t \<and> turn_ok s m b t"
  using batch_okD [OF assms(1)] assms(2)
  by (auto simp: take_generation_def Let_def turn_ok_def batch_ok_def batch_tokens_def generation_tokens_def)

lemma reuse_adjusted_capped:
  "0 \<le> c \<Longrightarrow> c \<le> n \<Longrightarrow> reuse_adjusted_compute c v n = reuse_adjusted_compute c (min v n) n"
  by (auto simp: reuse_adjusted_compute_def min_def)

lemma take_chunked_context_ok:
  assumes "batch_ok s m b" "request_fits s m r" "req_state r = CONTEXT_INIT" "ctx_chunk_config s \<noteq> None" "max_context_length s = Some m"
  shows "\<exists>t. take_chunked_context s r b = Inr t \<and> turn_ok s m b t"
proof -
  define R where "R = context_remaining_length r"
  define r1 where "r1 = r\<lparr>chunk_field := R\<rparr>"
  have R: "0 \<le> R" using assms(2,3) by (simp add: request_fits_def R_def)
  have ok: "ctx_ok r1" using R assms(3) by (simp add: ctx_ok_def r1_def R_def)
  have r1: "context_remaining_length r1 = R" "chunk_field r1 = R" "ends_prompt r1"
    by (simp_all add: r1_def R_def ends_prompt_def context_remaining_length_def)
  have set_r: "set_context_chunk_size R r = Inr r1"
    using R assms(3) by (simp add: set_context_chunk_size_def chunk_size_defined_def is_context_init_state_def r1_def R_def)
  have tokens: "reuse_adjusted_compute R (reusable_tokens r1) R + (if has_draft_tokens r1 then int (num_draft_tokens r1) else 0) = ctx_tokens r1"
    using reuse_adjusted_capped [of R R "reusable_tokens r1"] R r1 by (simp add: ctx_tokens_def cost_def capped_reusable_def has_draft_tokens_def)
  have last: "is_last_context_chunk r1 = Inr True" using last_chunk_ok [OF ok] r1(3) by (simp add: ends_prompt_def)
  have "take_chunked_context s r b = Inr (Taken (if m < ctx_tokens r1
      then b\<lparr>b_chunked := b_chunked b @ [r1], b_chunked_tokens := b_chunked_tokens b + m, b_all_fit := False\<rparr>
      else b\<lparr>b_chunked := b_chunked b @ [r1], b_chunked_tokens := b_chunked_tokens b + ctx_tokens r1\<rparr>))"
    unfolding take_chunked_context_def R_def [symmetric] set_r bindR_simps last chunk_size_ok [OF ctx_okD(1) [OF ok]] Let_def r1 simp_thms tokens
    by (simp add: assms(5))
  then show ?thesis
    using batch_okD [OF assms(1)] ok assms(4)
    by (auto simp: turn_ok_def batch_ok_def token_sum_def)
qed

lemma take_request_ok:
  assumes "batch_ok s m b" "request_fits s m r" "max_num_tokens s = Some m" "max_context_length s = Some m"
  shows "\<exists>t. take_request s inflight r b = Inr t \<and> turn_ok s m b t"
proof -
  have skip: "turn_ok s m b Skipped" by (simp add: turn_ok_def)
  note parts = take_encoder_ok [OF assms(1,2) _ assms(3,4)] take_full_context_ok [OF assms(1,2) _ _ assms(3,4)]
    take_chunked_context_ok [OF assms(1,2) _ _ assms(4)] take_generation_ok [OF assms(1,3), of r]
  show ?thesis unfolding take_request_def using skip parts by (simp split del: if_split, simp)
qed

section \<open>The loop\<close>

lemma batch_loop_ok:
  assumes "\<forall>r \<in> set rs. request_fits s m r" "max_num_tokens s = Some m" "max_context_length s = Some m"
    "batch_ok s m b" "b_size b < max_batch_size s"
  shows "\<exists>b'. batch_loop s inflight rs b = Inr b' \<and> batch_ok s m b' \<and> b_size b' \<le> max_batch_size s"
  using assms(1,4,5)
proof (induction rs arbitrary: b)
  case (Cons r rs)
  then have r: "request_fits s m r" and rs: "\<forall>r \<in> set rs. request_fits s m r" by simp_all
  obtain t where t: "take_request s inflight r b = Inr t" "turn_ok s m b t"
    using take_request_ok [OF Cons.prems(2) r assms(2,3), of inflight] by (elim exE conjE)
  show ?case
  proof (cases t)
    case (Taken b')
    from t(2) have "batch_ok s m (counted b') \<and> b_size b' = b_size b" unfolding turn_ok_def Taken turn.case .
    then have b': "batch_ok s m (counted b')" "b_size b' = b_size b" by (rule conjunct1, rule conjunct2)
    show ?thesis
    proof (cases "max_batch_size s \<le> b_size b' + 1")
      case True
      then show ?thesis using t(1) Taken b' Cons.prems(3) by simp
    next
      case False
      then show ?thesis using t(1) Taken Cons.IH [OF rs b'(1)] by simp
    qed
  next
    case Skipped
    then show ?thesis using t(1) Cons.IH [OF rs Cons.prems(2,3)] by simp
  next
    case Stopped
    then show ?thesis using t(1) Cons.prems by simp
  qed
qed simp

lemma empty_batch_ok: "0 \<le> m \<Longrightarrow> batch_ok s m empty_batch"
  by (simp add: batch_ok_def empty_batch_def batch_tokens_def token_sum_def)

section \<open>The batch\<close>

lemma ctx_tokens_nonneg: "ctx_ok r \<Longrightarrow> 0 \<le> ctx_tokens r"
  using cost_bounds(1) [of r] by (simp add: ctx_tokens_def)

lemma rescheduled_ok: "list_all2 rescheduled rs rs' \<Longrightarrow> (\<forall>r \<in> set rs'. ctx_ok r) \<and> length rs' = length rs"
  by (induction rule: list_all2_induct) (auto simp: rescheduled_def)

text \<open>The chunked contexts fit in what the rest of the batch leaves.\<close>

lemma chunk_contexts_ok:
  assumes "batch_ok s m b" "max_num_tokens s = Some m" "max_context_length s = Some m" "0 \<le> m"
    "\<forall>config. ctx_chunk_config s = Some config \<longrightarrow> config_ok config (Some m)"
  shows "\<exists>rs'. chunk_contexts s b = Some (Inr rs') \<and> (\<forall>r \<in> set rs'. ctx_ok r) \<and> length rs' = length (b_chunked b) \<and> b_tokens b + token_sum rs' \<le> m"
proof (cases "\<not> contexts_fit s b \<and> b_chunked b \<noteq> []")
  case True
  then obtain config where c: "ctx_chunk_config s = Some config" using batch_okD(6) [OF assms(1)] by auto
  have "nonneg (Some m)" "nonneg (Some (m - b_tokens b))" using assms(4) batch_okD(2) [OF assms(1)] by (simp_all add: nonneg_def)
  then obtain rs' where "set_ctx_requests_chunk_size config (Some m) (b_chunked b) (Some (m - b_tokens b)) = Some (Inr rs')"
      "list_all2 rescheduled (b_chunked b) rs'" "\<not> exceeds (token_sum rs') (Some (m - b_tokens b))"
    using set_ctx_requests_chunk_size_spec [OF batch_okD(4) [OF assms(1)], of config "Some m" "Some (m - b_tokens b)"] assms(5) c by auto
  then show ?thesis using True c assms(2,3) rescheduled_ok by (auto simp: chunk_contexts_def)
next
  case False
  have "b_tokens b + token_sum (b_chunked b) \<le> m"
    using False batch_okD [OF assms(1)] assms(2) by (auto simp: contexts_fit_def token_sum_def)
  then show ?thesis using False batch_okD(4) [OF assms(1)] by (auto simp: chunk_contexts_def)
qed

lemma sort_context_requests_ok:
  assumes "\<forall>r \<in> set rs. \<exists>l. is_last_context_chunk r = Inr l"
  shows "\<exists>rs'. sort_context_requests rs p = Inr rs' \<and> mset rs' = mset rs"
proof (cases p)
  case True
  obtain lasts where l: "mapR is_last_context_chunk rs = Inr lasts"
    using mapR_Inr_map [of rs is_last_context_chunk "\<lambda>r. projr (is_last_context_chunk r)"] assms by force
  have len: "length lasts = length rs" by (rule mapR_Inr_length [OF l])
  have "mset (map fst (filter (\<lambda>q. \<not> snd q) (zip rs lasts)) @ map fst (filter snd (zip rs lasts))) = mset (map fst (zip rs lasts))"
    using multiset_partition [of "mset (zip rs lasts)" snd] by (simp add: add.commute flip: image_mset_union mset_filter)
  then show ?thesis using True l len by (simp add: sort_context_requests_def Let_def)
next
  case False
  then show ?thesis by (simp add: sort_context_requests_def)
qed

lemma sum_list_mset_eq: "mset xs = mset ys \<Longrightarrow> sum_list (map f xs) = sum_list (map f (ys :: 'a list) :: int list)"
  unfolding sum_mset_sum_list [symmetric] mset_map by simp

lemma filter_positive:
  assumes "\<forall>r \<in> set rs. ctx_ok r"
  shows "sum_list (map ctx_tokens (filter (\<lambda>r. 0 < chunk_field r) rs)) \<le> token_sum rs"
  using assms by (induction rs) (auto simp: token_sum_def dest: ctx_tokens_nonneg)

lemma zip_filter: "map fst (filter (\<lambda>p. P (snd p)) (zip rs (map f rs))) = filter (\<lambda>r. P (f r)) rs"
  by (induction rs) auto

text \<open>The tokens of the batch and its size, in terms of what the loop and the chunking left.\<close>

lemma finish_batch_ok:
  assumes "batch_ok s m b" "\<forall>r \<in> set rs. ctx_ok r" "length rs = length (b_chunked b)" "ctx_chunk_config s = None \<longrightarrow> fit"
  shows "\<exists>out. finish_batch b fit rs = Inr out \<and> batch_tokens s (o_encoder out) (o_context out) (o_generation out) \<le> b_tokens b + token_sum rs
    \<and> int (length (o_encoder out) + length (o_context out) + length (o_generation out)) \<le> b_size b"
proof -
  note D = batch_okD [OF assms(1)]
  have sizes: "mapR context_chunk_size rs = Inr (map chunk_field rs)"
    by (rule mapR_Inr_map) (use assms(2) chunk_size_ok ctx_okD(1) in blast)
  define ctx where "ctx = b_context b @ filter (\<lambda>r. 0 < chunk_field r) rs"
  have "\<exists>rs'. sort_context_requests ctx (\<not> fit) = Inr rs' \<and> mset rs' = mset ctx"
  proof (cases "ctx_chunk_config s = None")
    case True
    then show ?thesis using assms(4) by (simp add: sort_context_requests_def)
  next
    case False
    then have "\<forall>r \<in> set ctx. ctx_ok r" using D(7) assms(2) by (simp add: ctx_def)
    then show ?thesis using last_chunk_ok by (intro sort_context_requests_ok) blast
  qed
  then obtain ctx' where ctx': "sort_context_requests ctx (\<not> fit) = Inr ctx'" "mset ctx' = mset ctx" by (elim exE conjE)
  have "sum_list (map (context_tokens s) ctx') = sum_list (map (context_tokens s) ctx)" by (rule sum_list_mset_eq [OF ctx'(2)])
  also have "\<dots> \<le> sum_list (map (context_tokens s) (b_context b)) + token_sum rs"
  proof (cases "ctx_chunk_config s = None")
    case True
    then have "rs = []" using D(6) assms(3) by simp
    then show ?thesis by (simp add: ctx_def token_sum_def)
  next
    case False
    then have "context_tokens s = ctx_tokens" by (auto simp: context_tokens_def)
    then show ?thesis using D(7) [OF False] filter_positive [OF assms(2)] by (simp add: ctx_def)
  qed
  finally have tokens: "sum_list (map (context_tokens s) ctx') \<le> sum_list (map (context_tokens s) (b_context b)) + token_sum rs" .
  have "length ctx' \<le> length (b_context b) + length rs" using mset_eq_length [OF ctx'(2)] length_filter_le [of "\<lambda>r. 0 < chunk_field r" rs] by (simp add: ctx_def)
  moreover have "finish_batch b fit rs = Inr \<lparr>o_encoder = sort_key get_lora_task_id (b_encoder b), o_context = ctx',
      o_generation = sort_key get_lora_task_id (b_generation b), o_chunked = rs\<rparr>"
    using sizes ctx'(1) zip_filter [of "\<lambda>n. 0 < n" rs chunk_field] by (simp add: finish_batch_def ctx_def)
  ultimately show ?thesis
    using tokens D(1,3) assms(3) sum_list_mset_eq [of "sort_key get_lora_task_id (b_encoder b)" "b_encoder b" encoder_tokens]
      sum_list_mset_eq [of "sort_key get_lora_task_id (b_generation b)" "b_generation b" generation_tokens]
    by (simp add: batch_tokens_def)
qed

lemma micro_batch_limits:
  assumes "max_num_tokens s = Some m" "max_context_length s = Some m" "0 \<le> m" "0 < max_batch_size s"
    "\<forall>config. ctx_chunk_config s = Some config \<longrightarrow> config_ok config (Some m)" "\<forall>r \<in> set active. request_fits s m r"
  shows "\<exists>out. micro_batch_schedule s active inflight = Some (Inr out)
    \<and> batch_tokens s (o_encoder out) (o_context out) (o_generation out) \<le> m
    \<and> int (length (o_encoder out) + length (o_context out) + length (o_generation out)) \<le> max_batch_size s"
proof -
  obtain b where b: "batch_loop s inflight active empty_batch = Inr b" "batch_ok s m b" "b_size b \<le> max_batch_size s"
    using batch_loop_ok [OF assms(6,1,2) empty_batch_ok [OF assms(3)], of inflight] assms(4) by (auto simp: empty_batch_def)
  obtain rs where rs: "chunk_contexts s b = Some (Inr rs)" "\<forall>r \<in> set rs. ctx_ok r" "length rs = length (b_chunked b)" "b_tokens b + token_sum rs \<le> m"
    using chunk_contexts_ok [OF b(2) assms(1-3,5)] by (elim exE conjE)
  have fit: "ctx_chunk_config s = None \<longrightarrow> contexts_fit s b"
    using batch_okD [OF b(2)] assms(1) by (simp add: contexts_fit_def token_sum_def)
  obtain out where "finish_batch b (contexts_fit s b) rs = Inr out"
    "batch_tokens s (o_encoder out) (o_context out) (o_generation out) \<le> b_tokens b + token_sum rs"
    "int (length (o_encoder out) + length (o_context out) + length (o_generation out)) \<le> b_size b"
    using finish_batch_ok [OF b(2) rs(2,3) fit] by (elim exE conjE)
  then show ?thesis using b rs by (intro exI [of _ out]) (simp add: micro_batch_schedule_def)
qed

section \<open>Properties\<close>

text \<open>C4: the micro batch scheduler returns a batch, under every chunking policy and without chunking, whose tokens
  (encoder inputs, context tokens to compute after reuse, draft tokens of last chunks, generated beams with their drafts)
  stay within the token limit, and whose requests stay within the batch size.\<close>

theorem micro_batch_within_limits:
  assumes "max_num_tokens s = Some m" "max_context_length s = Some m" "0 \<le> m" "0 < max_batch_size s"
    "\<forall>config. ctx_chunk_config s = Some config \<longrightarrow> config_ok config (Some m)" "\<forall>r \<in> set active. request_fits s m r"
  shows "\<exists>out. micro_batch_schedule s active inflight = Some (Inr out)
    \<and> batch_tokens s (o_encoder out) (o_context out) (o_generation out) \<le> m
    \<and> int (length (o_encoder out) + length (o_context out) + length (o_generation out)) \<le> max_batch_size s"
  using assms by (rule micro_batch_limits)

text \<open>A prompt of ten tokens, and a request that generates.\<close>

definition prompt_request :: "nat \<Rightarrow> llm_request" where
  "prompt_request i = \<lparr>request_id = i, req_state = CONTEXT_INIT, prompt_len = 10, context_current_position = 0, prepopulated_prompt_len = 0,
     chunk_field = 0, estimated_reusable_tokens = 0, expect_snapshot_points = [], num_draft_tokens = 0, num_tokens = 10, encoder_length = None,
     beam_width = 1, lora_task_id = None, encoder_ready = None\<rparr>"

definition generating_request :: "nat \<Rightarrow> llm_request" where
  "generating_request i = (prompt_request i)\<lparr>req_state := GENERATION_IN_PROGRESS, context_current_position := 10\<rparr>"

definition chunking_scheduler :: micro_batch_scheduler where
  "chunking_scheduler = micro_batch_init 4 (Some 13) (Some \<lparr>policy_of = EQUAL_PROGRESS, chunk_unit_size = 4\<rparr>) CONTEXT_INIT GENERATION_TO_COMPLETE"

theorem micro_batch_within_limits_witness:
  "\<exists>out. micro_batch_schedule chunking_scheduler [generating_request 0, prompt_request 1, prompt_request 2] {} = Some (Inr out)
    \<and> batch_tokens chunking_scheduler (o_encoder out) (o_context out) (o_generation out) \<le> 13"
  using micro_batch_within_limits [of chunking_scheduler 13 "[generating_request 0, prompt_request 1, prompt_request 2]" "{}"]
  by (auto simp: chunking_scheduler_def micro_batch_init_def config_ok_def request_fits_def generating_request_def prompt_request_def context_remaining_length_def)

text \<open>C7: equal progress always ends, within the budget, and not before the budget is used up or every request has
  its whole remaining context or cannot take another unit without breaking the budget or the longest context.\<close>

theorem equal_progress_complete:
  assumes "\<forall>r \<in> set rs. req_state r = CONTEXT_INIT \<and> chunk_field r = 0 \<and> 0 \<le> context_remaining_length r" "0 < u" "nonneg cap"
  shows "\<exists>rs'. chunk_equal_progress ml rs cap u = Some (Inr rs') \<and> map request_id rs' = map request_id rs
    \<and> (\<forall>r \<in> set rs'. 0 \<le> chunk_field r \<and> chunk_field r \<le> context_remaining_length r) \<and> \<not> exceeds (cost_sum rs') cap
    \<and> (cap = Some (cost_sum rs') \<or> (\<forall>r \<in> set rs'. chunk_field r = context_remaining_length r
         \<or> exceeds (cost_sum rs' + (cost (offered u r) - cost r)) cap \<or> exceeds (chunk_field (offered u r)) ml))"
proof -
  have ok: "\<forall>r \<in> set rs. ctx_ok r" using assms(1) by (simp add: ctx_ok_def)
  have "map cost rs = map (\<lambda>_. 0) rs" using assms(1) cost_zero by (intro map_cong) (auto simp: cost_eq capped_reusable_def)
  then have zero: "cost_sum rs = 0" unfolding cost_sum_def by (simp only: sum_list_0)
  obtain rs' where rs': "chunk_equal_progress ml rs cap u = Some (Inr rs')" "list_all2 rechunked rs rs'" "\<not> exceeds (cost_sum rs') cap"
    "cap = Some (cost_sum rs') \<or> (\<forall>r \<in> set rs'. blocked ml cap u (cost_sum rs') r \<or> offered u r = r)"
    using chunk_equal_progress_spec [OF ok assms(2,3) zero, of ml] by (elim exE conjE)
  note R = rechunked_list [OF rs'(2)]
  have full: "chunk_field r = context_remaining_length r" if "r \<in> set rs'" "offered u r = r" for r
    using arg_cong [OF that(2), of chunk_field] assms(2) by (simp add: offered_def min_def split: if_splits)
  show ?thesis
    using rs' R(1,3) full unfolding blocked_def by (intro exI [of _ rs']) (auto simp: ctx_ok_def)
qed

theorem equal_progress_complete_witness:
  "\<exists>rs'. chunk_equal_progress None [prompt_request 1, prompt_request 2] (Some 12) 4 = Some (Inr rs') \<and> map request_id rs' = [1, 2]
    \<and> \<not> exceeds (cost_sum rs') (Some 12)"
  using equal_progress_complete [of "[prompt_request 1, prompt_request 2]" 4 "Some 12" None]
  by (auto simp: prompt_request_def context_remaining_length_def nonneg_def)

end
