(* ===== verification/Sched_Capacity_Laws.thy ===== *)
theory Sched_Capacity_Laws
  imports Sched_Capacity Sched_Batch_Laws "HOL-Library.Sublist"
begin

text \<open>
  Laws of the capacity policies: without eviction, what is admitted fits in the free blocks up to completion; with
  maximal utilization, the loop ends and no request is both scheduled and paused.
\<close>

section \<open>No eviction\<close>

text \<open>The free blocks less what the given requests, with the summaries used for them, need to complete.\<close>

definition charged :: "'st kv_manager \<Rightarrow> (llm_request \<times> prefix_summary option) list \<Rightarrow> (int \<times> int) list \<Rightarrow> (int \<times> int) list" where
  "charged kv rcs blocks = map (\<lambda>(w, n). (w, n - sum_list (map (\<lambda>(r, c). remaining_blocks_to_completion kv r w c) rcs))) blocks"

lemma charged_Nil [simp]: "charged kv [] blocks = blocks"
  by (induction blocks) (auto simp: charged_def)

lemma charged_snoc: "charged kv (rcs @ [(r, c)]) blocks = decrement_reserved_blocks kv r c (charged kv rcs blocks)"
  by (auto simp: charged_def decrement_reserved_blocks_def)

definition holds_blocks :: "llm_request \<Rightarrow> bool" where
  "holds_blocks r \<longleftrightarrow> \<not> is_encoder_init_state r"

definition admitted_late :: "llm_request \<Rightarrow> bool" where
  "admitted_late r \<longleftrightarrow> is_context_init_state r \<or> is_disagg_generation_init_state r"

lemma state_kinds:
  "is_generation_in_progress_state r \<Longrightarrow> holds_blocks r \<and> \<not> admitted_late r" "admitted_late r \<Longrightarrow> holds_blocks r"
  by (auto simp: is_generation_in_progress_state_def holds_blocks_def is_encoder_init_state_def admitted_late_def
      is_context_init_state_def is_disagg_generation_init_state_def)

text \<open>A summary that may be used for a request: none, the empty one when prefixes are disregarded, or the analysis of a request
  of that id among the active ones.\<close>

definition summary_for :: "'st kv_manager \<Rightarrow> llm_request set \<Rightarrow> llm_request \<Rightarrow> prefix_summary option \<Rightarrow> bool" where
  "summary_for kv A r c \<longleftrightarrow> c = None \<or> c = Some zero_prefix_reuse_summary
     \<or> (\<exists>q \<in> A. request_id q = request_id r \<and> c = analyze_prefix kv q)"

text \<open>Accounts of the blocks: every scheduled request that holds blocks is charged, and once a request was admitted in the
  second pass no window is overdrawn.\<close>

definition accounts :: "'st kv_manager \<Rightarrow> llm_request set \<Rightarrow> llm_request list \<Rightarrow> (int \<times> int) list \<Rightarrow> bool" where
  "accounts kv A scheduled available \<longleftrightarrow>
     (\<exists>rcs. map fst rcs = filter holds_blocks scheduled \<and> (\<forall>(r, c) \<in> set rcs. summary_for kv A r c) \<and> available = charged kv rcs (num_free_blocks_per_window_size kv))
     \<and> ((\<exists>r \<in> set scheduled. admitted_late r) \<longrightarrow> (\<forall>(w, n) \<in> set available. 0 \<le> n))"

lemma accounts_encoder: "accounts kv A sch av \<Longrightarrow> is_encoder_init_state r \<Longrightarrow> accounts kv A (sch @ [r]) av"
  by (auto simp: accounts_def holds_blocks_def admitted_late_def is_encoder_init_state_def is_context_init_state_def is_disagg_generation_init_state_def)

lemma accounts_charge:
  assumes "accounts kv A sch av" "holds_blocks r" "summary_for kv A r c"
    "(\<exists>x \<in> set (sch @ [r]). admitted_late x) \<longrightarrow> (\<forall>(w, n) \<in> set (decrement_reserved_blocks kv r c av). 0 \<le> n)"
  shows "accounts kv A (sch @ [r]) (decrement_reserved_blocks kv r c av)"
proof -
  obtain rcs where "map fst rcs = filter holds_blocks sch" "\<forall>(r, c) \<in> set rcs. summary_for kv A r c" "av = charged kv rcs (num_free_blocks_per_window_size kv)"
    using assms(1) by (auto simp: accounts_def)
  then have "map fst (rcs @ [(r, c)]) = filter holds_blocks (sch @ [r])" "\<forall>(r, c) \<in> set (rcs @ [(r, c)]). summary_for kv A r c"
    "decrement_reserved_blocks kv r c av = charged kv (rcs @ [(r, c)]) (num_free_blocks_per_window_size kv)"
    using assms(2,3) by (auto simp: charged_snoc)
  then show ?thesis using assms(4) unfolding accounts_def by blast
qed

lemma enough_no_overdraft: "enough_available_blocks kv r c av \<Longrightarrow> \<forall>(w, n) \<in> set (decrement_reserved_blocks kv r c av). 0 \<le> n"
  by (auto simp: enough_available_blocks_def decrement_reserved_blocks_def list_all_iff)

lemma first_loop_accounts:
  assumes "accounts kv A (f_scheduled f) (available_blocks (f_blocks f))" "\<forall>r \<in> set (f_scheduled f). \<not> admitted_late r"
    "length (f_scheduled f) \<le> max_num_requests s"
  shows "accounts kv A (f_scheduled (first_loop kv s rs f)) (available_blocks (f_blocks (first_loop kv s rs f)))
    \<and> (\<forall>r \<in> set (f_scheduled (first_loop kv s rs f)). \<not> admitted_late r) \<and> length (f_scheduled (first_loop kv s rs f)) \<le> max_num_requests s"
  using assms
proof (induction kv s rs f rule: first_loop.induct)
  case (2 kv s r rs f)
  show ?case
  proof (cases "can_be_scheduled_with_disagg_exception s r \<and> \<not> max_num_requests s \<le> length (f_scheduled f)")
    case True
    have "accounts kv A (f_scheduled (first_step kv s r f)) (available_blocks (f_blocks (first_step kv s r f)))
      \<and> (\<forall>x \<in> set (f_scheduled (first_step kv s r f)). \<not> admitted_late x) \<and> length (f_scheduled (first_step kv s r f)) \<le> max_num_requests s"
    proof (cases "is_generation_in_progress_state r")
      case gen: True
      have "accounts kv A (f_scheduled f @ [r]) (decrement_reserved_blocks kv r None (available_blocks (f_blocks f)))"
        using 2(3,4) state_kinds(1) [OF gen] by (intro accounts_charge) (auto simp: summary_for_def)
      then show ?thesis using gen True 2(4) state_kinds(1) [OF gen] by (simp add: first_step_def reserve_def split: prod.splits)
    qed (use 2(3-5) in \<open>simp add: first_step_def\<close>)
    then show ?thesis using 2(2) True by simp
  qed (use 2 in \<open>auto\<close>)
qed simp

definition cache_ok :: "'st kv_manager \<Rightarrow> llm_request set \<Rightarrow> (nat \<times> prefix_summary) list \<Rightarrow> bool" where
  "cache_ok kv A cache \<longleftrightarrow> (\<forall>i x. map_of cache i = Some x \<longrightarrow> (\<exists>q \<in> A. request_id q = i \<and> analyze_prefix kv q = Some x))"

lemma cached_summary_for: "cache_ok kv A cache \<Longrightarrow> summary_for kv A r (cached_or_disabled s r cache)"
  unfolding cache_ok_def summary_for_def cached_or_disabled_def disabled_prefix_summary_def
  by (cases "map_of cache (request_id r)") (auto, metis)

lemma beneficial_to_skip_cache:
  assumes "cache_ok kv A (summary_by_req k)" "r \<in> A" "kv_cache_manager s = Some kv" "beneficial_to_skip s r k = (skip, k')"
  shows "cache_ok kv A (summary_by_req k')"
proof -
  obtain summary sums where l: "look_up_summary (kv_cache_manager s) r (summary_by_req k) = (summary, sums)" by fastforce
  have "cache_ok kv A sums"
    using l assms(1-3) by (auto simp: look_up_summary_def cache_ok_def split: if_splits option.splits)
  moreover have "summary_by_req k' = summary_by_req k \<or> summary_by_req k' = sums"
    using assms(4) l by (auto simp: beneficial_to_skip_def Let_def split: if_splits prod.splits)
  ultimately show ?thesis using assms(1) by auto
qed

definition second_ok :: "'st kv_manager \<Rightarrow> llm_request set \<Rightarrow> 'st capacity_scheduler \<Rightarrow> second_pass \<Rightarrow> bool" where
  "second_ok kv A s p \<longleftrightarrow> accounts kv A (p_scheduled p) (available_blocks (p_blocks p)) \<and> length (p_scheduled p) \<le> max_num_requests s
     \<and> cache_ok kv A (summary_by_req (p_skip p))"

fun pass_of :: "visit \<Rightarrow> second_pass" where
  "pass_of (Next p) = p"
| "pass_of (Leave p) = p"

lemma skip_check_frame:
  assumes "skip_check static s r p = (skip, p1)"
  shows "p_scheduled p1 = p_scheduled p" "p_blocks p1 = p_blocks p"
  using assms by (auto simp: skip_check_def split: if_splits prod.splits)

lemma skip_check_cache:
  assumes "cache_ok kv A (summary_by_req (p_skip p))" "r \<in> A" "kv_cache_manager s = Some kv" "skip_check static s r p = (skip, p1)"
  shows "cache_ok kv A (summary_by_req (p_skip p1))"
  using assms(1,4) beneficial_to_skip_cache [OF assms(1-3)] by (auto simp: skip_check_def split: if_splits prod.splits)

lemma claim_pages_frame:
  assumes "claim_pages s r p = Some p1"
  shows "p_scheduled p1 = p_scheduled p" "p_blocks p1 = p_blocks p" "p_skip p1 = p_skip p"
  using assms by (auto simp: claim_pages_def Let_def split: if_splits prod.splits)

lemma admit_ok:
  assumes "second_ok kv A s p" "length (p_scheduled p) < max_num_requests s"
  shows "second_ok kv A s (pass_of (admit kv s r p)) \<and> p_scheduled (pass_of (admit kv s r p)) \<in> {p_scheduled p, p_scheduled p @ [r]}"
proof -
  define c where "c = cached_or_disabled s r (summary_by_req (p_skip p))"
  define cc where "cc = cached_or_disabled s r (cross_summary_by_req (p_skip p))"
  have acc: "accounts kv A (p_scheduled p) (available_blocks (p_blocks p))" using assms(1) by (simp add: second_ok_def)
  have cok: "cache_ok kv A (summary_by_req (p_skip p))" using assms(1) by (simp add: second_ok_def)
  consider "is_encoder_init_state r" | "\<not> is_encoder_init_state r" "admitted_late r" | "\<not> is_encoder_init_state r" "\<not> admitted_late r" by blast
  then show ?thesis
  proof cases
    case 1
    show ?thesis
    proof (cases "claim_pages s r p")
      case None
      then show ?thesis using 1 assms(1) by (simp add: admit_def)
    next
      case (Some p1)
      then have "admit kv s r p = Next (p1\<lparr>p_scheduled := p_scheduled p @ [r]\<rparr>)" using 1 claim_pages_frame(1) [OF Some] by (simp add: admit_def)
      then show ?thesis using accounts_encoder [OF acc 1] claim_pages_frame(2,3) [OF Some] assms(2) cok by (simp add: second_ok_def)
    qed
  next
    case 2
    then have late: "is_context_init_state r \<or> is_disagg_generation_init_state r" by (simp add: admitted_late_def)
    show ?thesis
    proof (cases "enough kv s r c cc (p_blocks p)")
      case True
      then have en: "enough_available_blocks kv r c (available_blocks (p_blocks p))" by (simp add: enough_def)
      have acc': "accounts kv A (p_scheduled p @ [r]) (decrement_reserved_blocks kv r c (available_blocks (p_blocks p)))"
        by (rule accounts_charge [OF acc state_kinds(2) [OF 2(2)] cached_summary_for [OF cok, of r s, folded c_def] impI [OF enough_no_overdraft [OF en]]])
      show ?thesis
      proof (cases "claim_pages s r p")
        case None
        then show ?thesis using True 2(1) late assms(1) by (simp add: admit_def flip: c_def cc_def)
      next
        case (Some p1)
        then have "admit kv s r p = Next (p1\<lparr>p_scheduled := p_scheduled p @ [r], p_blocks := reserve kv s r c cc (p_blocks p)\<rparr>)"
          using True 2(1) late claim_pages_frame [OF Some] by (simp add: admit_def flip: c_def cc_def)
        then show ?thesis using acc' assms(2) cok claim_pages_frame(3) [OF Some] by (simp add: second_ok_def reserve_def)
      qed
    next
      case False
      then show ?thesis using 2(1) late assms(1) by (simp add: admit_def flip: c_def cc_def)
    qed
  next
    case 3
    then show ?thesis using assms(1) by (simp add: admit_def admitted_late_def)
  qed
qed

lemma second_step_ok:
  assumes "second_ok kv A s p" "second_step static kv s r p = Inr v" "r \<in> A" "kv_cache_manager s = Some kv"
  shows "second_ok kv A s (pass_of v) \<and> p_scheduled (pass_of v) \<in> {p_scheduled p, p_scheduled p @ [r]}"
proof -
  obtain skip p1 where p1: "skip_check static s r p = (skip, p1)" by (cases "skip_check static s r p")
  note F = skip_check_frame [OF p1]
  have ok1: "second_ok kv A s p1" using assms(1) F skip_check_cache [OF _ assms(3,4) p1] by (simp add: second_ok_def)
  have v: "v = (if skip then Next p1 else if max_num_requests s \<le> length (p_scheduled p1) then Leave p1 else admit kv s r p1)"
    using assms(2) p1 by (simp add: second_step_def guardR_eq_Inr_iff)
  show ?thesis
  proof (cases "skip \<or> max_num_requests s \<le> length (p_scheduled p1)")
    case True
    then show ?thesis using v ok1 F by auto
  next
    case False
    then show ?thesis using v admit_ok [OF ok1, of r] F(1) by simp
  qed
qed

lemma second_loop_ok:
  assumes "second_ok kv A s p" "second_loop static kv s rs p = Inr p'" "set rs \<subseteq> A" "kv_cache_manager s = Some kv"
  shows "second_ok kv A s p' \<and> (\<exists>ts. subseq ts rs \<and> p_scheduled p' = p_scheduled p @ ts)"
  using assms
proof (induction rs arbitrary: p)
  case (Cons r rs)
  obtain v where v: "second_step static kv s r p = Inr v" using Cons.prems(2) by (auto simp: bindR_eq_Inr_iff)
  have "r \<in> A" using Cons.prems(3) by simp
  note S = second_step_ok [OF Cons.prems(1) v this Cons.prems(4)]
  show ?case
  proof (cases v)
    case (Leave q)
    then have "p' = q" using Cons.prems(2) v by simp
    then show ?thesis using S Leave by (auto intro: exI [of _ "[]"] exI [of _ "[r]"])
  next
    case (Next q)
    then obtain ts where "second_ok kv A s p'" "subseq ts rs" "p_scheduled p' = p_scheduled q @ ts"
      using Cons.IH [of q] Cons.prems(2-4) v S by auto
    then show ?thesis using S Next by (auto intro: exI [of _ ts] exI [of _ "r # ts"])
  qed
qed simp

lemma subseq_mset: "subseq xs ys \<Longrightarrow> mset xs \<subseteq># mset ys"
  by (induction rule: list_emb.induct) (auto intro: subset_mset.order_trans)

lemma first_loop_mset:
  "mset (f_scheduled (first_loop kv s rs f)) + mset (f_disagg (first_loop kv s rs f)) + mset (f_pending (first_loop kv s rs f))
    \<subseteq># mset (f_scheduled f) + mset (f_disagg f) + mset (f_pending f) + mset rs"
proof (induction rs arbitrary: f)
  case (Cons r rs)
  define passed where "passed = (\<lambda>g :: first_pass. mset (f_scheduled g) + mset (f_disagg g) + mset (f_pending g))"
  have step: "passed (first_step kv s r f) = add_mset r (passed f)"
    by (auto simp: passed_def first_step_def Let_def split: prod.splits)
  have IH: "passed (first_loop kv s rs g) \<subseteq># passed g + mset rs" for g
    using Cons.IH [of g] unfolding passed_def .
  have "passed (first_loop kv s (r # rs) f) \<subseteq># passed f + mset (r # rs)"
  proof (cases "can_be_scheduled_with_disagg_exception s r")
    case False
    have "passed (first_loop kv s rs f) \<subseteq># passed f + mset (r # rs)"
      by (rule subset_mset.order_trans [OF IH]) simp
    then show ?thesis using False by simp
  next
    case True
    have "passed f \<subseteq># passed f + mset (r # rs)" by simp
    with IH [of "first_step kv s r f"] show ?thesis
      using True step by (cases "max_num_requests s \<le> length (f_scheduled f)") simp_all
  qed
  then show ?case unfolding passed_def .
qed simp

lemma no_evict_outcome:
  assumes "no_evict_schedule static kv s rs = Inr (scheduled, paused)" "kv_cache_manager s = Some kv"
  shows "mset scheduled \<subseteq># mset rs" "paused = []" "length scheduled \<le> max_num_requests s"
    "\<exists>available. accounts kv (set rs) scheduled available"
proof -
  define f0 where "f0 = \<lparr>f_scheduled = [], f_blocks = initial_reservation kv s, f_claimed = 0, f_tasks = {}, f_disagg = [], f_pending = []\<rparr>"
  define f where "f = first_loop kv s rs f0"
  have "accounts kv (set rs) (f_scheduled f0) (available_blocks (f_blocks f0))"
    by (simp add: f0_def accounts_def initial_reservation_def)
  then have f: "accounts kv (set rs) (f_scheduled f) (available_blocks (f_blocks f))" "length (f_scheduled f) \<le> max_num_requests s"
    using first_loop_accounts [of kv "set rs" f0 s rs] by (simp_all add: f_def) (simp_all add: f0_def)
  have fm: "mset (f_scheduled f) + mset (f_disagg f) + mset (f_pending f) \<subseteq># mset rs"
    using first_loop_mset [of kv s rs f0] by (simp add: f_def) (simp add: f0_def)
  have "paused = [] \<and> (\<exists>available. accounts kv (set rs) scheduled available) \<and> length scheduled \<le> max_num_requests s \<and> mset scheduled \<subseteq># mset rs"
  proof (cases "static \<and> f_scheduled f \<noteq> []")
    case True
    then have "scheduled = f_scheduled f" "paused = []"
      using assms(1) by (auto simp: no_evict_schedule_def Let_def f_def f0_def)
    then show ?thesis using f fm by (metis mset_subset_eq_add_left subset_mset.order_trans)
  next
    case False
    define p where "p = \<lparr>p_scheduled = f_scheduled f, p_blocks = f_blocks f,
      p_pages = (if peft_cache_manager s = None then 0 else get_max_peft_pages s - f_claimed f), p_tasks = f_tasks f,
      p_skip = \<lparr>new_blocks = fst (if \<not> static \<and> is_skipping_relevant s then prefill_contributed_blocks s rs else ({}, {})),
        new_cross_blocks = snd (if \<not> static \<and> is_skipping_relevant s then prefill_contributed_blocks s rs else ({}, {})),
        summary_by_req = [], cross_summary_by_req = []\<rparr>\<rparr>"
    have "bindR (second_loop static kv s (f_disagg f) p) (\<lambda>p1. bindR (second_loop static kv s (f_pending f) p1) (\<lambda>p2. Inr (p_scheduled p2, [])))
        = Inr (scheduled, paused)"
      using assms(1) unfolding no_evict_schedule_def Let_def f0_def [symmetric] f_def [symmetric] p_def [symmetric] if_not_P [OF False] .
    then obtain p1 p2 where p12: "second_loop static kv s (f_disagg f) p = Inr p1" "second_loop static kv s (f_pending f) p1 = Inr p2"
        "scheduled = p_scheduled p2" "paused = []"
      by (auto simp: bindR_eq_Inr_iff)
    have p: "p_scheduled p = f_scheduled f" "p_blocks p = f_blocks f" by (simp_all add: p_def)
    have sub: "set (f_disagg f) \<subseteq> set rs" "set (f_pending f) \<subseteq> set rs" using set_mset_mono [OF fm] by auto
    have "second_ok kv (set rs) s p" using f p(1,2) by (simp add: second_ok_def p_def cache_ok_def)
    then obtain ts1 where ts1: "second_ok kv (set rs) s p1" "subseq ts1 (f_disagg f)" "p_scheduled p1 = f_scheduled f @ ts1"
      using second_loop_ok [OF _ p12(1) sub(1) assms(2)] p(1) by auto
    then obtain ts2 where ts2: "second_ok kv (set rs) s p2" "subseq ts2 (f_pending f)" "scheduled = f_scheduled f @ ts1 @ ts2"
      using second_loop_ok [OF ts1(1) p12(2) sub(2) assms(2)] p12(3) by auto
    have "mset scheduled \<subseteq># mset (f_scheduled f) + mset (f_disagg f) + mset (f_pending f)"
      using subseq_mset [OF ts1(2)] subseq_mset [OF ts2(2)] ts2(3) by (simp add: subset_mset.add_mono add.assoc)
    then show ?thesis using ts2(1) p12(3,4) fm by (auto simp: second_ok_def intro: subset_mset.order_trans)
  qed
  then show "mset scheduled \<subseteq># mset rs" "paused = []" "length scheduled \<le> max_num_requests s" "\<exists>available. accounts kv (set rs) scheduled available"
    by simp_all
qed

section \<open>Maximal utilization\<close>

definition util_ok :: "'st capacity_scheduler \<Rightarrow> llm_request list \<Rightarrow> nat \<Rightarrow> nat \<Rightarrow> 'st util_state \<Rightarrow> bool" where
  "util_ok s rs i j u \<longleftrightarrow> mset (u_scheduled u) \<subseteq># mset (take i rs) \<and> mset (u_paused u) \<subseteq># mset (drop j rs)
     \<and> length (u_scheduled u) \<le> max_num_requests s \<and> (\<forall>r \<in> set (u_paused u). is_started_request s r)"

lemma commit_blocks_frame:
  assumes "commit_blocks cs v = Inr v'"
  shows "u_scheduled v' = u_scheduled v" "u_paused v' = u_paused v"
proof -
  consider "cs = None" | b c where "cs = Some (b, c)" by (cases cs) auto
  then have "u_scheduled v' = u_scheduled v \<and> u_paused v' = u_paused v"
  proof cases
    case 1
    then show ?thesis using assms by (simp add: commit_blocks_def)
  next
    case 2
    then show ?thesis using assms by (cases c; cases "u_cross_blocks v") (auto simp: commit_blocks_def bindR_eq_Inr_iff)
  qed
  then show "u_scheduled v' = u_scheduled v" "u_paused v' = u_paused v" by simp_all
qed

lemma try_scheduling_frame:
  assumes "try_scheduling_request kv s r c u = Inr (Some u')"
  shows "u_scheduled u' = u_scheduled u @ [r]" "u_paused u' = u_paused u" "length (u_scheduled u) < max_num_requests s"
proof -
  have pages: "u_scheduled v = u_scheduled u" "u_paused v = u_paused u" if "util_pages s r u = Some v" for v
    using that by (auto simp: util_pages_def Let_def split: if_splits prod.splits)
  show "u_scheduled u' = u_scheduled u @ [r]" "u_paused u' = u_paused u" "length (u_scheduled u) < max_num_requests s"
    using assms pages by (auto dest: commit_blocks_frame simp: try_scheduling_request_def Let_def bindR_eq_Inr_iff split: if_splits option.splits)
qed

lemma util_skip_frame:
  assumes "util_skip s r u = (skip, u1)"
  shows "u_scheduled u1 = u_scheduled u" "u_paused u1 = u_paused u"
  using assms by (auto simp: util_skip_def split: if_splits prod.splits)

lemma util_step_cases:
  assumes "util_step kv s rs i j u = Inr v"
  obtains u' where "v = Advance u'" "u_scheduled u' = u_scheduled u" "u_paused u' = u_paused u"
  | u' where "v = Advance u'" "u_scheduled u' = u_scheduled u @ [rs ! i]" "u_paused u' = u_paused u" "length (u_scheduled u) < max_num_requests s"
  | k u' where "v = Shrink k u'" "i \<le> k" "k < j" "is_started_request s (rs ! k)" "u_scheduled u' = u_scheduled u" "u_paused u' = u_paused u @ [rs ! k]"
  | u' where "v = Finish u'" "u_scheduled u' = u_scheduled u" "u_paused u' = u_paused u"
proof (cases "can_be_scheduled_with_disagg_exception s (rs ! i)")
  case False
  then have "v = Advance u" using assms by (simp add: util_step_def)
  then show thesis using that(1) by simp
next
  case True
  obtain skip u1 where sk: "util_skip s (rs ! i) u = (skip, u1)" by (cases "util_skip s (rs ! i) u")
  note F = util_skip_frame [OF sk]
  show thesis
  proof (cases skip)
    case True
    then have "v = Advance u1"
      using assms sk \<open>can_be_scheduled_with_disagg_exception s (rs ! i)\<close> by (simp add: util_step_def Let_def guardR_eq_Inr_iff)
    then show thesis using that(1) F by simp
  next
    case False
    then obtain t where t: "try_scheduling_request kv s (rs ! i) (cached_or_disabled s (rs ! i) (summary_by_req (u_skip u1))) u1 = Inr t"
        and v: "(case t of Some u2 \<Rightarrow> Inr (Advance u2)
          | None \<Rightarrow> (case last_started s rs i j of Some k \<Rightarrow> Inr (Shrink k (pause_request kv s (rs ! k) u1)) | None \<Rightarrow> Inr (Finish u1))) = (Inr v :: _ res)"
      using assms sk True by (auto simp: util_step_def Let_def guardR_eq_Inr_iff bindR_eq_Inr_iff)
    show thesis
    proof (cases t)
      case (Some u2)
      then show thesis using v try_scheduling_frame [OF t [unfolded Some]] F v that(2) [of u2] by simp
    next
      case None
      show thesis
      proof (cases "last_started s rs i j")
        case None
        then have "v = Finish u1" using v \<open>t = None\<close> by simp
        then show thesis using that(4) F by simp
      next
        case (Some k)
        then have "v = Shrink k (pause_request kv s (rs ! k) u1)" using v \<open>t = None\<close> by simp
        then show thesis using that(3) F last_started_bounds [OF Some] by (simp add: pause_request_def)
      qed
    qed
  qed
qed

lemma util_step_ok:
  assumes "util_ok s rs i j u" "i < j" "j \<le> length rs" "util_step kv s rs i j u = Inr v"
  shows "case v of Advance u' \<Rightarrow> util_ok s rs (i + 1) j u' | Shrink k u' \<Rightarrow> util_ok s rs i k u' \<and> i \<le> k \<and> k < j | Finish u' \<Rightarrow> util_ok s rs i j u'"
  using assms(4)
proof (cases rule: util_step_cases)
  case (1 u')
  have "mset (take i rs) \<subseteq># mset (take (i + 1) rs)"
    using assms(2,3) by (simp add: take_Suc_conv_app_nth)
  then show ?thesis using 1 assms(1) by (auto simp: util_ok_def intro: subset_mset.order_trans)
next
  case (2 u')
  then show ?thesis using assms(1-3) by (auto simp: util_ok_def take_Suc_conv_app_nth)
next
  case (3 k u')
  have "mset (drop j rs) + {#rs ! k#} \<subseteq># mset (drop k rs)"
  proof -
    have d: "drop k rs = rs ! k # drop (Suc k) rs" using 3 assms(3) by (simp add: Cons_nth_drop_Suc)
    have "drop j rs = drop (j - Suc k) (drop (Suc k) rs)" using 3 by simp
    then have "mset (drop j rs) \<subseteq># mset (drop (Suc k) rs)" by (metis append_take_drop_id mset_append mset_subset_eq_add_right)
    then show ?thesis by (simp add: d)
  qed
  moreover have "mset (u_paused u) + {#rs ! k#} \<subseteq># mset (drop j rs) + {#rs ! k#}" using assms(1) by (simp add: util_ok_def)
  ultimately have "mset (u_paused u) + {#rs ! k#} \<subseteq># mset (drop k rs)" by (rule subset_mset.order_trans [rotated])
  then show ?thesis using 3 assms(1) by (auto simp: util_ok_def)
next
  case (4 u')
  then show ?thesis using assms(1) by (simp add: util_ok_def)
qed

lemma util_loop_ok:
  assumes "util_loop kv s rs i j u = Inr u'" "util_ok s rs i j u" "i \<le> j" "j \<le> length rs"
  shows "\<exists>i' j'. i' \<le> j' \<and> j' \<le> length rs \<and> util_ok s rs i' j' u'"
  using assms
proof (induction kv s rs i j u rule: util_loop.induct)
  case (1 kv s rs i j u)
  show ?case
  proof (cases "i < j")
    case False
    then have "u' = u" using 1(3) by (simp add: util_loop.simps [of kv s rs i j u])
    then show ?thesis using 1(4-6) by auto
  next
    case True
    obtain v where v: "util_step kv s rs i j u = Inr v"
      using 1(3) True by (cases "util_step kv s rs i j u") (simp_all add: util_loop.simps [of kv s rs i j u])
    note ok = util_step_ok [OF 1(4) True 1(6) v]
    show ?thesis
    proof (cases v)
      case (Advance w)
      then have "util_loop kv s rs (i + 1) j w = Inr u'" using 1(3) True v by (simp add: util_loop.simps [of kv s rs i j u])
      then show ?thesis using 1(1) [OF True v Advance] ok Advance True 1(6) by simp
    next
      case (Shrink k w)
      then have "util_loop kv s rs i k w = Inr u'" using 1(3) True v by (simp add: util_loop.simps [of kv s rs i j u])
      then show ?thesis using 1(2) [OF True v Shrink] ok Shrink 1(6) by simp
    next
      case (Finish w)
      then have "w = u'" using 1(3) True v by (simp add: util_loop.simps [of kv s rs i j u])
      then show ?thesis using ok Finish 1(5,6) by auto
    qed
  qed
qed

lemma max_util_outcome:
  assumes "max_util_schedule kv s rs = Inr (scheduled, paused)"
  shows "mset (scheduled @ paused) \<subseteq># mset rs" "length scheduled \<le> max_num_requests s" "\<forall>r \<in> set paused. is_started_request s r"
proof -
  define u0 where "u0 = util_start kv s rs"
  have u0: "u_scheduled u0 = []" "u_paused u0 = []" by (simp_all add: u0_def util_start_def)
  obtain u where u: "util_loop kv s rs 0 (length rs) u0 = Inr u" "scheduled = u_scheduled u" "paused = u_paused u"
    using assms by (auto simp: max_util_schedule_def bindR_eq_Inr_iff u0_def)
  obtain i j where ij: "i \<le> j" "j \<le> length rs" "util_ok s rs i j u"
    using util_loop_ok [OF u(1)] u0 by (auto simp: util_ok_def)
  have "mset (take i rs) + mset (drop j rs) \<subseteq># mset (take j rs) + mset (drop j rs)"
  proof -
    have "take j rs = take i rs @ drop i (take j rs)" using ij(1) by (metis append_take_drop_id take_take min.absorb1)
    then have "mset (take j rs) = mset (take i rs) + mset (drop i (take j rs))" by (metis mset_append)
    then show ?thesis by simp
  qed
  also have "\<dots> = mset rs" by (metis append_take_drop_id mset_append)
  finally have "mset (take i rs) + mset (drop j rs) \<subseteq># mset rs" .
  moreover have "mset (u_scheduled u) + mset (u_paused u) \<subseteq># mset (take i rs) + mset (drop j rs)"
    using ij(3) unfolding util_ok_def by (intro subset_mset.add_mono) simp_all
  ultimately show "mset (scheduled @ paused) \<subseteq># mset rs"
    unfolding mset_append u(2,3) by (rule subset_mset.order_trans [rotated])
  show "length scheduled \<le> max_num_requests s" "\<forall>r \<in> set paused. is_started_request s r"
    using ij(3) u(2,3) by (simp_all add: util_ok_def)
qed

text \<open>The policy raises only on an encoder request without a cross cache.\<close>

lemma prepare_length: "prepare_blocks_if_schedulable kv two st r c ws = Some bs \<Longrightarrow> length bs = length ws"
  by (induction kv two st r c ws arbitrary: bs rule: prepare_blocks_if_schedulable.induct) (auto simp: Let_def split: if_splits)

lemma commit_blocks_total:
  assumes "length blocks = length (u_blocks u)" "\<forall>c old. cross = Some c \<and> u_cross_blocks u = Some old \<longrightarrow> length c = length old"
  shows "\<exists>u'. commit_blocks (Some (blocks, cross)) u = Inr u'"
proof (cases cross)
  case None
  then show ?thesis using assms(1) by (simp add: commit_blocks_def update_scheduled_blocks_def)
next
  case (Some c)
  show ?thesis
  proof (cases "u_cross_blocks u")
    case None
    then show ?thesis using Some assms(1) by (simp add: commit_blocks_def update_scheduled_blocks_def)
  next
    case (Some old)
    then have "length c = length old" using \<open>cross = Some c\<close> assms(2) by blast
    then show ?thesis using Some \<open>cross = Some c\<close> assms(1) by (simp add: commit_blocks_def update_scheduled_blocks_def)
  qed
qed

lemma blocks_with_lengths:
  assumes "blocks_with kv s r c u = Some (blocks, cross)"
  shows "length blocks = length (u_blocks u)" "\<forall>x old. cross = Some x \<and> u_cross_blocks u = Some old \<longrightarrow> length x = length old"
  using assms by (auto simp: blocks_with_def split: option.splits dest: prepare_length)

lemma try_scheduling_total: "\<exists>t. try_scheduling_request kv s r c u = Inr t"
proof -
  have same: "u_blocks u1 = u_blocks u" "u_cross_blocks u1 = u_cross_blocks u" if "util_pages s r u = Some u1" for u1
    using that by (auto simp: util_pages_def Let_def split: if_splits prod.splits)
  have commit: "\<exists>u2. commit_blocks counts u1 = Inr u2"
    if "util_pages s r u = Some u1" "counts = None \<or> counts = blocks_with kv s r c u" for u1 counts
  proof (cases counts)
    case None
    then show ?thesis by (simp add: commit_blocks_def)
  next
    case (Some bc)
    then obtain b x where bx: "counts = Some (b, x)" by (cases bc) simp
    then have "blocks_with kv s r c u = Some (b, x)" using that(2) by simp
    then show ?thesis
      using commit_blocks_total [of b u1 x] blocks_with_lengths [of kv s r c u b x] same [OF that(1)] bx by simp
  qed
  show ?thesis
  proof (cases "util_pages s r u")
    case (Some u1)
    have "\<exists>u2. commit_blocks (if is_encoder_init_state r then None else blocks_with kv s r c u) u1 = Inr u2"
      by (rule commit [OF Some]) simp
    then obtain u2 where "commit_blocks (if is_encoder_init_state r then None else blocks_with kv s r c u) u1 = Inr u2" by (elim exE)
    then show ?thesis using Some by (simp add: try_scheduling_request_def Let_def)
  qed (simp add: try_scheduling_request_def Let_def)
qed

lemma util_step_total:
  assumes "is_encoder_init_state (rs ! i) \<longrightarrow> cross_kv_cache_manager s \<noteq> None"
  shows "\<exists>v. util_step kv s rs i j u = Inr v"
proof -
  obtain skip u1 where sk: "util_skip s (rs ! i) u = (skip, u1)" by fastforce
  obtain t where "try_scheduling_request kv s (rs ! i) (cached_or_disabled s (rs ! i) (summary_by_req (u_skip u1))) u1 = Inr t"
    using try_scheduling_total by blast
  then show ?thesis using assms sk by (cases t) (auto simp: util_step_def Let_def guardR_def split: option.splits)
qed

lemma util_loop_total:
  assumes "\<forall>r \<in> set rs. is_encoder_init_state r \<longrightarrow> cross_kv_cache_manager s \<noteq> None" "j \<le> length rs"
  shows "\<exists>u'. util_loop kv s rs i j u = Inr u'"
  using assms
proof (induction kv s rs i j u rule: util_loop.induct)
  case (1 kv s rs i j u)
  show ?case
  proof (cases "i < j")
    case True
    then obtain v where v: "util_step kv s rs i j u = Inr v" using util_step_total [of rs i s kv j u] 1(3,4) by auto
    show ?thesis
    proof (cases v)
      case (Advance w)
      then show ?thesis using 1(1) [OF True v Advance] 1(3,4) True v by (simp add: util_loop.simps [of kv s rs i j u])
    next
      case (Shrink k w)
      then show ?thesis using 1(2) [OF True v Shrink] 1(3,4) True v util_step_shrinks [of kv s rs i j u k w]
        by (simp add: util_loop.simps [of kv s rs i j u])
    next
      case (Finish w)
      then show ?thesis using True v by (simp add: util_loop.simps [of kv s rs i j u])
    qed
  qed (simp add: util_loop.simps [of kv s rs i j u])
qed

lemma max_util_total:
  assumes "\<forall>r \<in> set rs. is_encoder_init_state r \<longrightarrow> cross_kv_cache_manager s \<noteq> None"
  shows "\<exists>scheduled paused. max_util_schedule kv s rs = Inr (scheduled, paused)"
proof -
  obtain u where "util_loop kv s rs 0 (length rs) (util_start kv s rs) = Inr u" using util_loop_total [OF assms order_refl, of kv 0 "util_start kv s rs"] by (elim exE)
  then show ?thesis by (simp add: max_util_schedule_def)
qed

section \<open>The scheduler\<close>

lemma max_requests_loop_subseq: "\<exists>ts. subseq ts rs \<and> max_requests_loop s rs scheduled = scheduled @ ts"
proof (induction rs arbitrary: scheduled)
  case (Cons r rs)
  obtain ts where ts: "subseq ts rs" "max_requests_loop s rs scheduled = scheduled @ ts" using Cons.IH [of scheduled] by (elim exE conjE)
  obtain us where us: "subseq us rs" "max_requests_loop s rs (scheduled @ [r]) = (scheduled @ [r]) @ us" using Cons.IH [of "scheduled @ [r]"] by (elim exE conjE)
  have "subseq ts (r # rs)" "subseq (r # us) (r # rs)" using ts(1) us(1) by auto
  then show ?case using ts(2) us(2) by (auto intro: exI [of _ "[]"] exI [of _ ts] exI [of _ "r # us"])
qed simp

lemma run_policy_mset:
  assumes "run_policy s rs = Inr (scheduled, paused)"
  shows "mset (scheduled @ paused) \<subseteq># mset rs"
proof (cases "kv_cache_manager s")
  case None
  then have "scheduled = max_requests_loop s rs []" "paused = []" using assms by (simp_all add: run_policy_def max_requests_schedule_def)
  then show ?thesis using max_requests_loop_subseq [of rs s "[]"] by (auto intro: subseq_mset)
next
  case (Some kv)
  show ?thesis
  proof (cases "scheduler_policy s")
    case MAX_UTILIZATION
    then show ?thesis using assms Some by (intro max_util_outcome(1)) (simp add: run_policy_def)
  next
    case GUARANTEED_NO_EVICT
    then have "no_evict_schedule False kv s rs = Inr (scheduled, paused)" using assms Some by (simp add: run_policy_def)
    from no_evict_outcome(1,2) [OF this Some] show ?thesis by simp
  next
    case STATIC_BATCH
    then have "no_evict_schedule True kv s rs = Inr (scheduled, paused)" using assms Some by (simp add: run_policy_def)
    from no_evict_outcome(1,2) [OF this Some] show ?thesis by simp
  qed
qed

lemma capacity_schedule_mset:
  assumes "capacity_schedule_request s rs = Inr (fitting, disagg, paused)"
  shows "mset (fitting @ disagg @ paused) \<subseteq># mset rs"
proof -
  obtain scheduled where r: "run_policy s rs = Inr (scheduled, paused)"
    and f: "fitting = filter (\<lambda>r. \<not> is_disagg_generation_init_state r) scheduled" "disagg = filter is_disagg_generation_init_state scheduled"
    using assms by (auto simp: capacity_schedule_request_def classify_output_def bindR_eq_Inr_iff)
  have "mset fitting + mset disagg = mset scheduled"
    unfolding f using multiset_partition [of "mset scheduled" is_disagg_generation_init_state] by (simp add: add.commute)
  then show ?thesis using run_policy_mset [OF r] by (simp add: add.assoc [symmetric])
qed

section \<open>Properties\<close>

text \<open>C5: without eviction (guaranteed no evict, or static batches) the scheduled requests are among the active ones, at
  most the configured number, and nothing is paused; and as soon as a context or a transferred request was admitted,
  every window of the self-attention cache has free blocks for all scheduled requests, those in their encoder phase
  apart, until they complete, each charged with no summary, the empty summary, or the analysis of its own prefix.\<close>

theorem no_evict_fits_to_completion:
  assumes "run_policy s rs = Inr (scheduled, paused)" "kv_cache_manager s = Some kv" "scheduler_policy s \<noteq> MAX_UTILIZATION"
  shows "mset scheduled \<subseteq># mset rs \<and> paused = [] \<and> length scheduled \<le> max_num_requests s
    \<and> ((\<exists>r \<in> set scheduled. is_context_init_state r \<or> is_disagg_generation_init_state r) \<longrightarrow>
         (\<exists>rcs. map fst rcs = filter (\<lambda>r. \<not> is_encoder_init_state r) scheduled \<and> (\<forall>(r, c) \<in> set rcs. summary_for kv (set rs) r c)
            \<and> (\<forall>(w, free) \<in> set (num_free_blocks_per_window_size kv). (\<Sum>(r, c) \<leftarrow> rcs. remaining_blocks_to_completion kv r w c) \<le> free)))"
proof -
  obtain static where "no_evict_schedule static kv s rs = Inr (scheduled, paused)"
    using assms by (cases "scheduler_policy s") (simp_all add: run_policy_def)
  note out = no_evict_outcome [OF this assms(2)]
  obtain available rcs where a: "map fst rcs = filter holds_blocks scheduled" "\<forall>(r, c) \<in> set rcs. summary_for kv (set rs) r c"
      "available = charged kv rcs (num_free_blocks_per_window_size kv)"
      "(\<exists>r \<in> set scheduled. admitted_late r) \<longrightarrow> (\<forall>(w, n) \<in> set available. 0 \<le> n)"
    using out(4) unfolding accounts_def by (elim exE conjE)
  have "(\<forall>(w, free) \<in> set (num_free_blocks_per_window_size kv). (\<Sum>(r, c) \<leftarrow> rcs. remaining_blocks_to_completion kv r w c) \<le> free)"
    if "\<exists>r \<in> set scheduled. admitted_late r"
    using that a(3,4) by (auto simp: charged_def)
  then show ?thesis
    using out(1-3) a(1,2) unfolding holds_blocks_def admitted_late_def by (intro conjI impI exI [of _ rcs]) simp_all
qed

text \<open>A cache with ten free blocks in one window, where every request needs four blocks to complete and two for a step,
  and that frees three blocks when a sequence is removed.\<close>

definition ten_blocks :: "int kv_manager" where
  "ten_blocks = \<lparr>num_free_blocks_per_window_size = [(64, 10)], remaining_blocks_to_completion = (\<lambda>r w c. 4),
     needed_blocks_one_step = (\<lambda>r two w c. 2), max_attention_window_vec = [64], is_variable_window = False, enable_block_reuse = False,
     analyze_prefix = (\<lambda>r. None), start_scheduling = 3, scheduling_has_free_blocks = (\<lambda>st n w. n \<le> st),
     scheduling_remove_sequence = (\<lambda>i st. st + 3)\<rparr>"

definition ten_block_scheduler :: "capacity_policy \<Rightarrow> int capacity_scheduler" where
  "ten_block_scheduler p = \<lparr>max_num_requests = 8, kv_cache_manager = Some ten_blocks, peft_cache_manager = None, scheduler_policy = p,
     cross_kv_cache_manager = None, two_step_lookahead = False, cap_until_state = CONTEXT_INIT, cap_after_state = GENERATION_COMPLETE,
     enable_prefix_aware_scheduling = True\<rparr>"

lemmas ten_block_defs = ten_block_scheduler_def ten_blocks_def generating_request_def prompt_request_def

lemmas request_state_defs = is_generation_in_progress_state_def is_disagg_generation_init_state_def is_context_init_state_def
  is_encoder_init_state_def waiting_for_encoder_def is_first_context_chunk_def

lemma ten_block_no_evict:
  "run_policy (ten_block_scheduler GUARANTEED_NO_EVICT) [generating_request 0, prompt_request 1, prompt_request 2]
    = Inr ([generating_request 0, prompt_request 1], [])"
  by (simp add: run_policy_def no_evict_schedule_def Let_def first_step_def second_step_def skip_check_def guardR_def admit_def
      claim_pages_def enough_def enough_available_blocks_def reserve_def decrement_reserved_blocks_def initial_reservation_def
      can_be_scheduled_with_disagg_exception_def cap_can_be_scheduled_def is_skipping_relevant_def beneficial_to_skip_def look_up_summary_def
      summary_new_block_def prefill_contributed_blocks_def ten_block_defs request_state_defs)

theorem no_evict_fits_to_completion_witness:
  "\<exists>rcs. map fst rcs = [generating_request 0, prompt_request 1]
     \<and> (\<Sum>(r, c) \<leftarrow> rcs. remaining_blocks_to_completion ten_blocks r 64 c) \<le> 10"
proof -
  have kv: "kv_cache_manager (ten_block_scheduler GUARANTEED_NO_EVICT) = Some ten_blocks" "scheduler_policy (ten_block_scheduler GUARANTEED_NO_EVICT) \<noteq> MAX_UTILIZATION"
    by (simp_all add: ten_block_scheduler_def)
  have ctx: "\<exists>r \<in> set [generating_request 0, prompt_request 1]. is_context_init_state r \<or> is_disagg_generation_init_state r"
    by (simp add: is_context_init_state_def prompt_request_def)
  have keep: "filter (\<lambda>r. \<not> is_encoder_init_state r) [generating_request 0, prompt_request 1] = [generating_request 0, prompt_request 1]"
    by (simp add: is_encoder_init_state_def prompt_request_def generating_request_def)
  have free: "num_free_blocks_per_window_size ten_blocks = [(64, 10)]" by (simp add: ten_blocks_def)
  note out = no_evict_fits_to_completion [OF ten_block_no_evict kv, THEN conjunct2, THEN conjunct2, THEN conjunct2, THEN mp, OF ctx]
  obtain rcs where "map fst rcs = [generating_request 0, prompt_request 1]"
    "\<forall>(w, free) \<in> set [(64, 10)]. (\<Sum>(r, c) \<leftarrow> rcs. remaining_blocks_to_completion ten_blocks r w c) \<le> free"
    using out unfolding keep free by (elim exE conjE)
  then show ?thesis by (intro exI [of _ rcs]) simp
qed

text \<open>C6: the maximal utilization policy always returns a schedule; no request is scheduled twice, nor both scheduled and
  paused, at most the configured number is scheduled, and only requests that had started are paused.\<close>

theorem max_util_partitions:
  assumes "\<forall>r \<in> set rs. is_encoder_init_state r \<longrightarrow> cross_kv_cache_manager s \<noteq> None"
  shows "\<exists>scheduled paused. max_util_schedule kv s rs = Inr (scheduled, paused) \<and> mset (scheduled @ paused) \<subseteq># mset rs
    \<and> length scheduled \<le> max_num_requests s \<and> (\<forall>r \<in> set paused. is_started_request s r)"
proof -
  obtain scheduled paused where "max_util_schedule kv s rs = Inr (scheduled, paused)" using max_util_total [OF assms] by blast
  then show ?thesis using max_util_outcome by blast
qed

theorem max_util_partitions_witness:
  "\<exists>scheduled paused. max_util_schedule ten_blocks (ten_block_scheduler MAX_UTILIZATION) [generating_request 0, generating_request 1] = Inr (scheduled, paused)
    \<and> mset (scheduled @ paused) \<subseteq># {#generating_request 0, generating_request 1#}"
  using max_util_partitions [of "[generating_request 0, generating_request 1]" "ten_block_scheduler MAX_UTILIZATION" ten_blocks]
  by (auto simp: is_encoder_init_state_def generating_request_def)

end
