(* ===== verification/Sched_Unified.thy ===== *)
theory Sched_Unified
  imports Sched_Capacity_Laws
begin

text \<open>
  The schedulers composed of a capacity scheduler and a micro batch scheduler (\<open>SimpleScheduler\<close> and
  \<open>SimpleUnifiedScheduler\<close> in \<^verbatim>\<open>src/tensorrt_llm/_torch/pyexecutor/scheduler/scheduler.py\<close>). What the composition needs of the two
  is a locale, interpreted on the Python schedulers; the C++ schedulers behind the other implementations are arguments.
\<close>

section \<open>Composition\<close>

record scheduler_output =
  out_encoder :: "llm_request list"
  out_context :: "llm_request list"
  out_generation :: "llm_request list"
  out_paused :: "llm_request list"
  out_disagg_gen_init :: "llm_request list"
  num_fitting_requests :: nat

type_synonym capacity_call = "llm_request list \<Rightarrow> (llm_request list \<times> llm_request list \<times> llm_request list) res"

type_synonym micro_batch_call = "llm_request list \<Rightarrow> nat set \<Rightarrow> (llm_request list \<times> llm_request list \<times> llm_request list) res option"

definition simple_schedule_request :: "capacity_call \<Rightarrow> micro_batch_call \<Rightarrow> llm_request list \<Rightarrow> nat set \<Rightarrow> scheduler_output res option" where
  "simple_schedule_request capacity micro active inflight =
     (case capacity (drop_waiting_for_encoder active) of
        Inl e \<Rightarrow> Some (Inl e)
      | Inr (fitting, disagg, paused) \<Rightarrow>
          map_option (\<lambda>res. bindR res (\<lambda>(encoder, context, generation). Inr
            \<lparr>out_encoder = encoder, out_context = context, out_generation = generation, out_paused = paused,
             out_disagg_gen_init = disagg, num_fitting_requests = length fitting\<rparr>))
          (micro fitting inflight))"

definition simple_can_schedule :: "capacity_call \<Rightarrow> llm_request list \<Rightarrow> bool res" where
  "simple_can_schedule capacity requests =
     (let rs = drop_waiting_for_encoder requests in bindR (capacity rs) (\<lambda>(fitting, _, _). Inr (length fitting = length rs)))"

section \<open>The Python schedulers together\<close>

record 'st unified_scheduler =
  us_capacity :: "'st capacity_scheduler"
  us_micro_batch :: micro_batch_scheduler

text \<open>The test whether a string occurs in another one.\<close>

fun occurs_in :: "string \<Rightarrow> string \<Rightarrow> bool" where
  "occurs_in p [] \<longleftrightarrow> p = []"
| "occurs_in p (c # cs) \<longleftrightarrow> prefix p (c # cs) \<or> occurs_in p cs"

definition chunking_policy_named :: "string \<Rightarrow> chunking_policy" where
  "chunking_policy_named name =
     (if occurs_in ''EQUAL_PROGRESS'' name then EQUAL_PROGRESS
      else if occurs_in ''FORCE_CHUNK'' name then FORCE_CHUNK else FIRST_COME_FIRST_SERVED)"

definition unified_init ::
    "nat \<Rightarrow> int option \<Rightarrow> 'st kv_manager option \<Rightarrow> peft_manager option \<Rightarrow> capacity_policy \<Rightarrow> (string \<times> int) option
      \<Rightarrow> 'st kv_manager option \<Rightarrow> bool \<Rightarrow> nat option \<Rightarrow> llm_state \<Rightarrow> bool \<Rightarrow> 'st unified_scheduler" where
  "unified_init batch tokens kv peft policy chunk cross lookahead capacity until prefix_aware =
     \<lparr>us_capacity =
        \<lparr>max_num_requests = (case capacity of Some n \<Rightarrow> n | None \<Rightarrow> batch), kv_cache_manager = kv, peft_cache_manager = peft,
         scheduler_policy = policy, cross_kv_cache_manager = cross, two_step_lookahead = lookahead, cap_until_state = until,
         cap_after_state = GENERATION_COMPLETE, enable_prefix_aware_scheduling = prefix_aware\<rparr>,
      us_micro_batch = micro_batch_init (int batch) tokens
        (map_option (\<lambda>(name, size). \<lparr>policy_of = chunking_policy_named name, chunk_unit_size = size\<rparr>) chunk) until GENERATION_TO_COMPLETE\<rparr>"

definition micro_batch_lists :: "micro_batch_scheduler \<Rightarrow> micro_batch_call" where
  "micro_batch_lists m rs inflight = map_option (\<lambda>res. bindR res (\<lambda>out. Inr (o_encoder out, o_context out, o_generation out))) (micro_batch_schedule m rs inflight)"

definition unified_schedule_request :: "'st unified_scheduler \<Rightarrow> llm_request list \<Rightarrow> nat set \<Rightarrow> scheduler_output res option" where
  "unified_schedule_request u active inflight =
     simple_schedule_request (capacity_schedule_request (us_capacity u)) (micro_batch_lists (us_micro_batch u)) active inflight"

definition unified_can_schedule :: "'st unified_scheduler \<Rightarrow> llm_request list \<Rightarrow> bool res" where
  "unified_can_schedule u requests = simple_can_schedule (capacity_schedule_request (us_capacity u)) requests"

section \<open>Identity and state of a request\<close>

text \<open>Chunking and draft fitting change neither.\<close>

definition tag :: "llm_request \<Rightarrow> nat \<times> llm_state" where
  "tag r = (request_id r, req_state r)"

lemma set_chunk_tag: "set_context_chunk_size n r = Inr r' \<Longrightarrow> tag r' = tag r"
  by (auto simp: set_context_chunk_size_def guardR_eq_Inr_iff tag_def)

lemma set_chunks_tags: "mapR (set_context_chunk_size n) rs = Inr rs' \<Longrightarrow> map tag rs' = map tag rs"
  by (induction rs arbitrary: rs') (auto simp: bindR_eq_Inr_iff dest: set_chunk_tag)

lemma equal_step_tag: "equal_step ml cap u r n k = Inr (r', n', k') \<Longrightarrow> tag r' = tag r"
  by (auto simp: equal_step_def Let_def bindR_eq_Inr_iff split: if_splits dest!: set_chunk_tag)

lemma equal_pass_tags: "equal_pass ml cap u rs n k = Inr (rs', n', k') \<Longrightarrow> map tag rs' = map tag rs"
  by (induction rs arbitrary: rs' n k n' k') (auto simp: bindR_eq_Inr_iff dest: equal_step_tag)

lemma equal_loop_tags:
  "equal_loop ml cap u rs n k = Some y \<Longrightarrow> (\<forall>rs' n'. y = Inr (rs', n') \<longrightarrow> map tag rs' = map tag rs)"
  by (erule equal_loop.raw_induct [rotated]) (auto split: if_splits sum.splits dest: equal_pass_tags)

lemma chunk_fcfs_tags: "chunk_fcfs ml rs cap u = Inr rs' \<Longrightarrow> map tag rs' = map tag rs"
  by (induction rs arbitrary: rs' cap) (auto simp: bindR_eq_Inr_iff dest: set_chunk_tag)

lemma forced_loop_tags: "forced_loop ml rs cap u t = Inr (rs', t') \<Longrightarrow> map tag rs' = map tag rs"
  by (induction rs arbitrary: rs' t t') (auto simp: bindR_eq_Inr_iff dest: set_chunk_tag)

lemma discard_drafts_tag: "discard_draft_tokens n r = Inr r' \<Longrightarrow> tag r' = tag r"
  by (auto simp: discard_draft_tokens_def guardR_eq_Inr_iff tag_def)

lemma fit_step_tag: "fit_step ml u cap r n = Inr (r', n') \<Longrightarrow> tag r' = tag r"
  by (auto simp: fit_step_def Let_def bindR_eq_Inr_iff split: if_splits dest: discard_drafts_tag)

lemma fit_loop_tags: "fit_loop ml u cap rs n = Inr rs' \<Longrightarrow> map tag rs' = map tag rs"
  by (induction rs arbitrary: rs' n) (auto simp: bindR_eq_Inr_iff dest: fit_step_tag)

lemma chunk_contexts_tags:
  assumes "chunk_contexts s b = Some (Inr rs)"
  shows "map tag rs = map tag (b_chunked b)"
proof (cases "\<not> contexts_fit s b \<and> b_chunked b \<noteq> []")
  case True
  then obtain config cap rs0 rs1 where c: "mapR (set_context_chunk_size 0) (b_chunked b) = Inr rs0"
      "apply_policy config (max_context_length s) rs0 cap = Some (Inr rs1)" "fit_draft_tokens (max_context_length s) rs1 cap (chunk_unit_size config) = Inr rs"
    using assms by (auto simp: chunk_contexts_def set_ctx_requests_chunk_size_def bindR_eq_Inr_iff split: option.splits sum.splits)
  have "map tag rs1 = map tag rs0"
    using c(2) by (auto simp: apply_policy_def chunk_equal_progress_def chunk_forced_def bindR_eq_Inr_iff guardR_eq_Inr_iff
        split: chunking_policy.splits option.splits dest: equal_loop_tags chunk_fcfs_tags forced_loop_tags)
  moreover have "map tag rs = map tag rs1" using c(3) by (auto simp: fit_draft_tokens_def bindR_eq_Inr_iff dest: fit_loop_tags)
  ultimately show ?thesis using set_chunks_tags [OF c(1)] by simp
next
  case False
  then show ?thesis using assms by (auto simp: chunk_contexts_def)
qed

section \<open>What the micro batch scheduler takes\<close>

definition batch_lists :: "batch_state \<Rightarrow> llm_request list" where
  "batch_lists b = b_encoder b @ b_context b @ b_generation b @ b_chunked b"

definition batch_kinds :: "nat set \<Rightarrow> batch_state \<Rightarrow> bool" where
  "batch_kinds inflight b \<longleftrightarrow> (\<forall>r \<in> set (b_encoder b). req_state r = ENCODER_INIT)
     \<and> (\<forall>r \<in> set (b_context b @ b_chunked b). req_state r = CONTEXT_INIT)
     \<and> (\<forall>r \<in> set (b_generation b). req_state r \<noteq> ENCODER_INIT \<and> req_state r \<noteq> CONTEXT_INIT)
     \<and> (\<forall>r \<in> set (batch_lists b). request_id r \<notin> inflight)"

lemma take_encoder_fields: "take_encoder s r b = Inr (Taken b') \<Longrightarrow>
  b_encoder b' = b_encoder b @ [r] \<and> b_context b' = b_context b \<and> b_generation b' = b_generation b \<and> b_chunked b' = b_chunked b"
  by (auto simp: take_encoder_def bindR_eq_Inr_iff guardR_eq_Inr_iff split: if_splits)

lemma take_full_context_fields: "take_full_context s r b = Inr (Taken b') \<Longrightarrow>
  b_encoder b' = b_encoder b \<and> b_context b' = b_context b @ [r] \<and> b_generation b' = b_generation b \<and> b_chunked b' = b_chunked b"
  by (auto simp: take_full_context_def Let_def guardR_eq_Inr_iff split: if_splits)

lemma take_generation_fields: "take_generation s r b = Inr (Taken b') \<Longrightarrow>
  b_encoder b' = b_encoder b \<and> b_context b' = b_context b \<and> b_generation b' = b_generation b @ [r] \<and> b_chunked b' = b_chunked b"
  by (auto simp: take_generation_def Let_def split: if_splits)

lemma take_chunked_context_fields:
  assumes "take_chunked_context s r b = Inr (Taken b')"
  shows "\<exists>r1. tag r1 = tag r \<and> b_encoder b' = b_encoder b \<and> b_context b' = b_context b \<and> b_generation b' = b_generation b
    \<and> b_chunked b' = b_chunked b @ [r1]"
proof -
  obtain r1 where r1: "set_context_chunk_size (context_remaining_length r) r = Inr r1"
    using assms by (cases "set_context_chunk_size (context_remaining_length r) r") (simp_all add: take_chunked_context_def)
  obtain l n where ln: "is_last_context_chunk r1 = Inr l" "context_chunk_size r1 = Inr n"
    using assms r1 by (cases "is_last_context_chunk r1"; cases "context_chunk_size r1") (simp_all add: take_chunked_context_def)
  show ?thesis using assms set_chunk_tag [OF r1] unfolding take_chunked_context_def r1 ln Let_def bindR_simps
    by (intro exI [of _ r1]) (auto split: if_splits)
qed

lemma take_request_kinds:
  assumes "batch_kinds inflight b" "take_request s inflight r b = Inr (Taken b')"
  shows "batch_kinds inflight b' \<and> mset (map tag (batch_lists b')) = add_mset (tag r) (mset (map tag (batch_lists b)))"
proof -
  have new: "request_id r \<notin> inflight" using assms(2) by (auto simp: take_request_def split: if_splits)
  show ?thesis
  proof (cases "req_state r = ENCODER_INIT")
    case True
    then have "take_encoder s r b = Inr (Taken b')" using assms(2) by (simp add: take_request_def split: if_splits)
    from take_encoder_fields [OF this] show ?thesis using True assms(1) new by (auto simp: batch_kinds_def batch_lists_def)
  next
    case enc: False
    show ?thesis
    proof (cases "req_state r = CONTEXT_INIT")
      case True
      then have "take_full_context s r b = Inr (Taken b') \<or> take_chunked_context s r b = Inr (Taken b')"
        using assms(2) enc by (simp add: take_request_def split: if_splits)
      then show ?thesis
      proof
        assume "take_full_context s r b = Inr (Taken b')"
        from take_full_context_fields [OF this] show ?thesis using True assms(1) new by (auto simp: batch_kinds_def batch_lists_def)
      next
        assume "take_chunked_context s r b = Inr (Taken b')"
        from take_chunked_context_fields [OF this] obtain r1 where r1: "tag r1 = tag r" "b_encoder b' = b_encoder b" "b_context b' = b_context b"
          "b_generation b' = b_generation b" "b_chunked b' = b_chunked b @ [r1]" by (elim exE conjE)
        have "request_id r1 = request_id r" "req_state r1 = req_state r" using r1(1) by (simp_all add: tag_def)
        then show ?thesis using r1 True assms(1) new by (auto simp: batch_kinds_def batch_lists_def)
      qed
    next
      case False
      then have "take_generation s r b = Inr (Taken b')" using assms(2) enc by (simp add: take_request_def split: if_splits)
      from take_generation_fields [OF this] show ?thesis using False enc assms(1) new by (auto simp: batch_kinds_def batch_lists_def)
    qed
  qed
qed

lemma batch_loop_kinds:
  assumes "batch_kinds inflight b" "batch_loop s inflight rs b = Inr b'"
  shows "batch_kinds inflight b' \<and> mset (map tag (batch_lists b')) \<subseteq># mset (map tag (batch_lists b)) + mset (map tag rs)"
  using assms
proof (induction rs arbitrary: b)
  case (Cons r rs)
  obtain t where t: "take_request s inflight r b = Inr t" using Cons.prems(2) by (auto simp: bindR_eq_Inr_iff)
  show ?case
  proof (cases t)
    case (Taken c)
    define d where "d = c\<lparr>b_size := b_size c + 1\<rparr>"
    have d: "batch_kinds inflight d" "mset (map tag (batch_lists d)) = add_mset (tag r) (mset (map tag (batch_lists b)))"
      using take_request_kinds [OF Cons.prems(1) t [unfolded Taken]] by (simp_all add: d_def batch_kinds_def batch_lists_def)
    show ?thesis
    proof (cases "max_batch_size s \<le> b_size d")
      case True
      then have "b' = d" using Cons.prems(2) t Taken by (simp add: d_def)
      then show ?thesis using d by simp
    next
      case False
      then have "batch_loop s inflight rs d = Inr b'" using Cons.prems(2) t Taken by (simp add: d_def)
      from Cons.IH [OF d(1) this] show ?thesis using d(2) by simp
    qed
  next
    case Skipped
    then have "batch_kinds inflight b' \<and> mset (map tag (batch_lists b')) \<subseteq># mset (map tag (batch_lists b)) + mset (map tag rs)"
      using Cons t by simp
    moreover have "mset (map tag (batch_lists b)) + mset (map tag rs) \<subseteq># mset (map tag (batch_lists b)) + mset (map tag (r # rs))" by simp
    ultimately show ?thesis by (meson subset_mset.order_trans)
  next
    case Stopped
    then show ?thesis using Cons.prems t by simp
  qed
qed simp

lemma partition_by_tags: "length bs = length rs \<Longrightarrow>
  mset (map fst (filter (\<lambda>p. \<not> snd p) (zip rs bs))) + mset (map fst (filter snd (zip rs bs))) = mset rs"
  by (induction bs rs rule: list_induct2) auto

lemma sort_context_requests_mset:
  assumes "sort_context_requests rs chunks = Inr rs'"
  shows "mset rs' = mset rs"
proof (cases chunks)
  case True
  then obtain lasts where l: "mapR is_last_context_chunk rs = Inr lasts"
      "rs' = sort_key get_lora_task_id (map fst (filter (\<lambda>p. \<not> snd p) (zip rs lasts))) @ sort_key get_lora_task_id (map fst (filter snd (zip rs lasts)))"
    using assms by (auto simp: sort_context_requests_def bindR_eq_Inr_iff Let_def)
  show ?thesis unfolding l(2) mset_append mset_sort by (rule partition_by_tags [OF mapR_Inr_length [OF l(1)]])
qed (use assms in \<open>auto simp: sort_context_requests_def\<close>)

lemma zip_filter_mset: "length ns = length rs \<Longrightarrow> mset (map fst (filter P (zip rs ns))) \<subseteq># mset rs"
  by (induction ns rs rule: list_induct2) (auto intro: subset_mset.order_trans)

lemma micro_batch_kinds:
  assumes "micro_batch_lists m rs inflight = Some (Inr (enc, ctx, gen))"
  shows "mset (map tag (enc @ ctx @ gen)) \<subseteq># mset (map tag rs)" "\<forall>r \<in> set (enc @ ctx @ gen). request_id r \<notin> inflight"
    "\<forall>r \<in> set enc. req_state r = ENCODER_INIT" "\<forall>r \<in> set ctx. req_state r = CONTEXT_INIT"
    "\<forall>r \<in> set gen. req_state r \<noteq> ENCODER_INIT \<and> req_state r \<noteq> CONTEXT_INIT"
proof -
  obtain b where b: "batch_loop m inflight rs empty_batch = Inr b"
    using assms by (cases "batch_loop m inflight rs empty_batch") (simp_all add: micro_batch_lists_def micro_batch_schedule_def)
  obtain chunked sizes where c: "chunk_contexts m b = Some (Inr chunked)" "mapR context_chunk_size chunked = Inr sizes"
      "sort_context_requests (b_context b @ map fst (filter (\<lambda>p. 0 < snd p) (zip chunked sizes))) (\<not> contexts_fit m b) = Inr ctx"
      and out: "enc = sort_key get_lora_task_id (b_encoder b)" "gen = sort_key get_lora_task_id (b_generation b)"
    using assms b by (auto simp: micro_batch_lists_def micro_batch_schedule_def finish_batch_def Let_def bindR_eq_Inr_iff)
  have "batch_kinds inflight empty_batch" by (simp add: batch_kinds_def batch_lists_def empty_batch_def)
  from batch_loop_kinds [OF this b] have k: "batch_kinds inflight b" "mset (map tag (batch_lists b)) \<subseteq># mset (map tag rs)"
    by (simp_all add: batch_lists_def empty_batch_def)
  have cm: "mset ctx \<subseteq># mset (b_context b) + mset chunked"
    using sort_context_requests_mset [OF c(3)] zip_filter_mset [OF mapR_Inr_length [OF c(2)]] by (simp add: subset_mset.add_mono)
  note ct = chunk_contexts_tags [OF c(1)]
  have "mset (map tag ctx) \<subseteq># mset (map tag (b_context b)) + mset (map tag (b_chunked b))"
    using image_mset_subseteq_mono [OF cm, of tag] arg_cong [OF ct, of mset] by simp
  then have "mset (map tag (enc @ ctx @ gen)) \<subseteq># mset (map tag (batch_lists b))"
    unfolding out by (simp add: batch_lists_def add.assoc add.left_commute subset_mset.add_mono)
  then show "mset (map tag (enc @ ctx @ gen)) \<subseteq># mset (map tag rs)" using k(2) by (rule subset_mset.order_trans)
  have ch: "\<exists>r' \<in> set (b_chunked b). tag r = tag r'" if "r \<in> set chunked" for r
    using that arg_cong [OF ct, of set] by (metis imageE imageI set_map)
  have src: "\<exists>r' \<in> set (b_context b @ b_chunked b). tag r = tag r'" if "r \<in> set ctx" for r
    using that set_mset_mono [OF cm] ch by auto
  have ctx: "req_state r = CONTEXT_INIT \<and> request_id r \<notin> inflight" if "r \<in> set ctx" for r
    using src [OF that] k(1) by (auto simp: batch_kinds_def batch_lists_def tag_def)
  then show "\<forall>r \<in> set ctx. req_state r = CONTEXT_INIT" by blast
  show "\<forall>r \<in> set enc. req_state r = ENCODER_INIT" "\<forall>r \<in> set gen. req_state r \<noteq> ENCODER_INIT \<and> req_state r \<noteq> CONTEXT_INIT"
    using k(1) by (simp_all add: out batch_kinds_def)
  show "\<forall>r \<in> set (enc @ ctx @ gen). request_id r \<notin> inflight" using ctx k(1) by (auto simp: out batch_kinds_def batch_lists_def)
qed

section \<open>What the capacity scheduler admits\<close>

lemma max_requests_loop_length: "length scheduled \<le> max_num_requests s \<Longrightarrow> length (max_requests_loop s rs scheduled) \<le> max_num_requests s"
  by (induction s rs scheduled rule: max_requests_loop.induct) auto

lemma run_policy_length:
  assumes "run_policy s rs = Inr (scheduled, paused)"
  shows "length scheduled \<le> max_num_requests s"
proof (cases "kv_cache_manager s")
  case None
  then show ?thesis using assms max_requests_loop_length [of "[]" s rs] by (auto simp: run_policy_def max_requests_schedule_def)
next
  case (Some kv)
  then show ?thesis using assms max_util_outcome(2) [of kv s rs] no_evict_outcome(3) [OF _ Some]
    by (cases "scheduler_policy s") (auto simp: run_policy_def)
qed

lemma capacity_schedule_length:
  assumes "capacity_schedule_request s rs = Inr (fitting, disagg, paused)"
  shows "length fitting \<le> max_num_requests s"
proof -
  obtain scheduled where "run_policy s rs = Inr (scheduled, paused)" "fitting = filter (\<lambda>r. \<not> is_disagg_generation_init_state r) scheduled"
    using assms by (auto simp: capacity_schedule_request_def classify_output_def bindR_eq_Inr_iff)
  then show ?thesis using run_policy_length length_filter_le le_trans by blast
qed

section \<open>The contract of the two parts\<close>

locale two_step_scheduling =
  fixes capacity :: capacity_call and micro :: micro_batch_call and limit :: nat
  assumes capacity_law: "capacity rs = Inr (fitting, disagg, paused) \<Longrightarrow> mset (fitting @ disagg @ paused) \<subseteq># mset rs \<and> length fitting \<le> limit"
    and micro_law: "micro rs inflight = Some (Inr (enc, ctx, gen)) \<Longrightarrow> mset (map tag (enc @ ctx @ gen)) \<subseteq># mset (map tag rs)
      \<and> (\<forall>r \<in> set (enc @ ctx @ gen). request_id r \<notin> inflight)
      \<and> (\<forall>r \<in> set enc. req_state r = ENCODER_INIT) \<and> (\<forall>r \<in> set ctx. req_state r = CONTEXT_INIT)
      \<and> (\<forall>r \<in> set gen. req_state r \<noteq> ENCODER_INIT \<and> req_state r \<noteq> CONTEXT_INIT)"
begin

lemma schedule_well_formed:
  assumes "distinct (map request_id active)" "simple_schedule_request capacity micro active inflight = Some (Inr out)"
  defines "batch \<equiv> out_encoder out @ out_context out @ out_generation out"
  shows "distinct (map request_id (batch @ out_disagg_gen_init out @ out_paused out))
    \<and> request_id ` set (batch @ out_disagg_gen_init out @ out_paused out) \<subseteq> request_id ` set active
    \<and> (\<forall>r \<in> set batch. request_id r \<notin> inflight)
    \<and> (\<forall>r \<in> set (out_encoder out). req_state r = ENCODER_INIT) \<and> (\<forall>r \<in> set (out_context out). req_state r = CONTEXT_INIT)
    \<and> (\<forall>r \<in> set (out_generation out). req_state r \<noteq> ENCODER_INIT \<and> req_state r \<noteq> CONTEXT_INIT)
    \<and> length batch \<le> num_fitting_requests out \<and> num_fitting_requests out \<le> limit"
proof -
  obtain fitting disagg paused where c: "capacity (drop_waiting_for_encoder active) = Inr (fitting, disagg, paused)"
    using assms(2) by (auto simp: simple_schedule_request_def split: sum.splits)
  obtain enc ctx gen where m: "micro fitting inflight = Some (Inr (enc, ctx, gen))"
      and out: "out = \<lparr>out_encoder = enc, out_context = ctx, out_generation = gen, out_paused = paused, out_disagg_gen_init = disagg, num_fitting_requests = length fitting\<rparr>"
    using assms(2) by (auto simp: simple_schedule_request_def c bindR_eq_Inr_iff)
  have b: "batch = enc @ ctx @ gen" by (simp add: batch_def out)
  note C = capacity_law [OF c] and M = micro_law [OF m]
  have tag_id: "image_mset fst (mset (map tag rs)) = mset (map request_id rs)" for rs by (induction rs) (simp_all add: tag_def)
  have ids: "mset (map request_id batch) \<subseteq># mset (map request_id fitting)"
    using image_mset_subseteq_mono [OF M [THEN conjunct1], of fst] unfolding tag_id b .
  have "mset (map request_id (batch @ disagg @ paused)) \<subseteq># mset (map request_id (fitting @ disagg @ paused))" using ids by simp
  also have "\<dots> \<subseteq># mset (map request_id (drop_waiting_for_encoder active))"
    using image_mset_subseteq_mono [OF C [THEN conjunct1], of request_id] by simp
  also have "\<dots> \<subseteq># mset (map request_id active)"
    unfolding drop_waiting_for_encoder_def mset_map mset_filter by (rule image_mset_subseteq_mono) simp
  finally have all: "mset (map request_id (batch @ disagg @ paused)) \<subseteq># mset (map request_id active)" .
  have "set (map request_id (batch @ disagg @ paused)) \<subseteq> set (map request_id active)" using set_mset_mono [OF all] unfolding set_mset_mset .
  moreover have "length (map request_id batch) \<le> length (map request_id fitting)" using size_mset_mono [OF ids] unfolding size_mset .
  ultimately show ?thesis using distinct_submset [OF all assms(1)] M C unfolding out b by auto
qed

end

interpretation uni: two_step_scheduling "capacity_schedule_request s" "micro_batch_lists m" "max_num_requests s" for s :: "'st capacity_scheduler" and m
proof
  show "mset (fitting @ disagg @ paused) \<subseteq># mset rs \<and> length fitting \<le> max_num_requests s"
    if "capacity_schedule_request s rs = Inr (fitting, disagg, paused)" for rs fitting disagg paused
    using capacity_schedule_mset [OF that] capacity_schedule_length [OF that] by blast
  show "mset (map tag (enc @ ctx @ gen)) \<subseteq># mset (map tag rs) \<and> (\<forall>r \<in> set (enc @ ctx @ gen). request_id r \<notin> inflight)
      \<and> (\<forall>r \<in> set enc. req_state r = ENCODER_INIT) \<and> (\<forall>r \<in> set ctx. req_state r = CONTEXT_INIT)
      \<and> (\<forall>r \<in> set gen. req_state r \<noteq> ENCODER_INIT \<and> req_state r \<noteq> CONTEXT_INIT)"
    if "micro_batch_lists m rs inflight = Some (Inr (enc, ctx, gen))" for rs inflight enc ctx gen
    using micro_batch_kinds [OF that] by blast
qed

section \<open>Property\<close>

text \<open>C8: the output of the unified scheduler is well formed: no request is in it twice, neither in the batch nor among the
  transferred or paused ones, all of them are active, none of the batch is in flight; encoder requests are to be
  encoded, context requests to be prefilled, the others are neither; the batch is no larger than the number of
  fitting requests, which is at most the capacity.\<close>

theorem unified_output_well_formed:
  assumes "distinct (map request_id active)" "unified_schedule_request u active inflight = Some (Inr out)"
  shows "distinct (map request_id (out_encoder out @ out_context out @ out_generation out @ out_disagg_gen_init out @ out_paused out))
    \<and> request_id ` set (out_encoder out @ out_context out @ out_generation out @ out_disagg_gen_init out @ out_paused out) \<subseteq> request_id ` set active
    \<and> (\<forall>r \<in> set (out_encoder out @ out_context out @ out_generation out). request_id r \<notin> inflight)
    \<and> (\<forall>r \<in> set (out_encoder out). req_state r = ENCODER_INIT) \<and> (\<forall>r \<in> set (out_context out). req_state r = CONTEXT_INIT)
    \<and> (\<forall>r \<in> set (out_generation out). req_state r \<noteq> ENCODER_INIT \<and> req_state r \<noteq> CONTEXT_INIT)
    \<and> length (out_encoder out @ out_context out @ out_generation out) \<le> num_fitting_requests out
    \<and> num_fitting_requests out \<le> max_num_requests (us_capacity u)"
  using uni.schedule_well_formed [OF assms(1) assms(2) [unfolded unified_schedule_request_def]] unfolding append_assoc .

text \<open>A generating request and two prompts over a cache with room for two requests.\<close>

definition ten_block_unified :: "int unified_scheduler" where
  "ten_block_unified = unified_init 4 (Some 13) (Some ten_blocks) None GUARANTEED_NO_EVICT None None False (Some 8) CONTEXT_INIT True"

lemma ten_block_micro_batch:
  "micro_batch_lists (us_micro_batch ten_block_unified) [generating_request 0, prompt_request 1] {} = Some (Inr ([], [prompt_request 1], [generating_request 0]))"
  by (simp add: micro_batch_lists_def micro_batch_schedule_def ten_block_unified_def unified_init_def micro_batch_init_def empty_batch_def
      take_request_def waiting_for_encoder_def take_generation_def take_full_context_def full_context_tokens_def reuse_adjusted_compute_def
      reusable_tokens_def has_draft_tokens_def context_remaining_length_def is_first_context_chunk_def exceeds_def chunk_contexts_def contexts_fit_def
      finish_batch_def sort_context_requests_def generating_request_def prompt_request_def Let_def)

lemma ten_block_schedule:
  "unified_schedule_request ten_block_unified [generating_request 0, prompt_request 1, prompt_request 2] {} = Some (Inr
    \<lparr>out_encoder = [], out_context = [prompt_request 1], out_generation = [generating_request 0], out_paused = [], out_disagg_gen_init = [],
     num_fitting_requests = 2\<rparr>)"
proof -
  have cap: "us_capacity ten_block_unified = ten_block_scheduler GUARANTEED_NO_EVICT"
    by (simp add: ten_block_unified_def unified_init_def ten_block_scheduler_def)
  have keep: "drop_waiting_for_encoder [generating_request 0, prompt_request 1, prompt_request 2] = [generating_request 0, prompt_request 1, prompt_request 2]"
    by (simp add: drop_waiting_for_encoder_def waiting_for_encoder_def generating_request_def prompt_request_def)
  have "capacity_schedule_request (ten_block_scheduler GUARANTEED_NO_EVICT) [generating_request 0, prompt_request 1, prompt_request 2]
      = Inr ([generating_request 0, prompt_request 1], [], [])"
    unfolding capacity_schedule_request_def ten_block_no_evict bindR_simps
    by (simp add: classify_output_def is_disagg_generation_init_state_def generating_request_def prompt_request_def)
  then show ?thesis using ten_block_micro_batch unfolding unified_schedule_request_def simple_schedule_request_def cap keep by simp
qed

theorem unified_output_well_formed_witness:
  "\<exists>out. unified_schedule_request ten_block_unified [generating_request 0, prompt_request 1, prompt_request 2] {} = Some (Inr out)
    \<and> distinct (map request_id (out_encoder out @ out_context out @ out_generation out @ out_disagg_gen_init out @ out_paused out))
    \<and> num_fitting_requests out \<le> 8"
proof -
  have "distinct (map request_id [generating_request 0, prompt_request 1, prompt_request 2])" by (simp add: generating_request_def prompt_request_def)
  note W = unified_output_well_formed [OF this ten_block_schedule]
  have limit: "max_num_requests (us_capacity ten_block_unified) = 8" by (simp add: ten_block_unified_def unified_init_def)
  show ?thesis
    by (rule exI, intro conjI, rule ten_block_schedule, rule W [THEN conjunct1])
      (use W in \<open>unfold limit, blast\<close>)
qed

end
