(* ===== verification/Sched_Output.thy ===== *)
theory Sched_Output
  imports Sched_Request
begin

text \<open>
  The result of a scheduling step as it is sent to the other ranks (\<open>SerializableSchedulerOutput\<close> in
  \<^verbatim>\<open>src/tensorrt_llm/_torch/pyexecutor/scheduler/scheduler.py\<close>): ids on the wire, requests looked up among the active ones.
\<close>

section \<open>Looking up requests\<close>

lemma id_to_request_found: "distinct (map request_id active) \<Longrightarrow> r \<in> set active \<Longrightarrow> id_to_request active (request_id r) = Inr r"
proof -
  assume d: "distinct (map request_id active)" and r: "r \<in> set active"
  have "distinct (map fst (rev (map (\<lambda>r. (request_id r, r)) active)))" using d by (simp add: o_def flip: rev_map)
  then have "map_of (rev (map (\<lambda>r. (request_id r, r)) active)) (request_id r) = Some r" using r by (intro map_of_is_SomeI) auto
  then show ?thesis by (simp add: id_to_request_def)
qed

lemma id_to_request_missing: "i \<notin> request_id ` set active \<Longrightarrow> id_to_request active i = Inl KeyError"
proof -
  assume i: "i \<notin> request_id ` set active"
  have "map_of (rev (map (\<lambda>r. (request_id r, r)) active)) i = None" using i by (auto simp: map_of_eq_None_iff)
  then show ?thesis by (simp add: id_to_request_def)
qed

lemma id_to_request_error: "id_to_request active i = Inl e \<Longrightarrow> e = KeyError"
  by (auto simp: id_to_request_def split: option.splits)

lemma requests_found:
  assumes "distinct (map request_id active)" "set rs \<subseteq> set active"
  shows "mapR (id_to_request active) (map request_id rs) = Inr rs"
  using assms(2) id_to_request_found [OF assms(1)] by (induction rs) auto

lemma requests_missing:
  assumes "\<not> set ids \<subseteq> request_id ` set active"
  shows "mapR (id_to_request active) ids = Inl KeyError"
  using assms
proof (induction ids)
  case (Cons i ids)
  show ?case
  proof (cases "id_to_request active i")
    case (Inl e)
    then show ?thesis using id_to_request_error [OF Inl] by simp
  next
    case (Inr r)
    then have "i \<in> request_id ` set active" using id_to_request_missing [of i active] by (cases "i \<in> request_id ` set active") auto
    then show ?thesis using Inr Cons by simp
  qed
qed simp

lemma requests_error: "mapR (id_to_request active) ids = Inl e \<Longrightarrow> e = KeyError"
  by (induction ids) (auto simp: bindR_eq_Inl_iff dest: id_to_request_error)

section \<open>Property\<close>

text \<open>C26: sending the result of a scheduling step and reading it back on a rank with the same active requests gives the result
  again, each request in its list and at its place; a result that names a request that is not active is a \<open>KeyError\<close>.\<close>

theorem scheduler_result_round_trip:
  assumes "distinct (map request_id active)"
  shows "(set (encoder_requests s @ context_requests_chunking s @ context_requests_last_chunk s @ generation_requests s @ paused_requests s @ disagg)
        \<subseteq> set active \<longrightarrow> to_scheduler_result (from_scheduler_result s disagg n w) active = Inr (s, disagg, n))
    \<and> (\<not> set (so_encoder out @ so_chunking out @ so_last_chunk out @ so_generation out @ so_paused out @ so_disagg_init out)
        \<subseteq> request_id ` set active \<longrightarrow> to_scheduler_result out active = Inl KeyError)"
proof (intro conjI impI)
  assume sub: "set (encoder_requests s @ context_requests_chunking s @ context_requests_last_chunk s @ generation_requests s @ paused_requests s @ disagg) \<subseteq> set active"
  have "mapR (id_to_request active) (map request_id rs) = Inr rs"
    if "rs \<in> {encoder_requests s, context_requests_chunking s, context_requests_last_chunk s, generation_requests s, paused_requests s, disagg}" for rs
    using that sub by (intro requests_found [OF assms]) auto
  then show "to_scheduler_result (from_scheduler_result s disagg n w) active = Inr (s, disagg, n)"
    by (simp add: to_scheduler_result_def from_scheduler_result_def)
next
  define lists where "lists = [so_encoder out, so_chunking out, so_last_chunk out, so_generation out, so_paused out, so_disagg_init out]"
  assume "\<not> set (so_encoder out @ so_chunking out @ so_last_chunk out @ so_generation out @ so_paused out @ so_disagg_init out) \<subseteq> request_id ` set active"
  then obtain ids where ids: "ids \<in> set lists" "\<not> set ids \<subseteq> request_id ` set active" by (auto simp: lists_def)
  have "mapR (id_to_request active) ids = Inl KeyError" by (rule requests_missing [OF ids(2)])
  then show "to_scheduler_result out active = Inl KeyError"
    using ids(1) unfolding to_scheduler_result_def lists_def bindR_def by (auto split: sum.splits dest: requests_error)
qed

theorem scheduler_result_round_trip_witness:
  "\<exists>r s. to_scheduler_result (from_scheduler_result s [] 1 False) [r] = Inr (s, [], 1) \<and> generation_requests s = [r]
    \<and> to_scheduler_result (from_scheduler_result s [] 1 False) [] = Inl KeyError"
proof -
  fix r :: llm_request
  define s where "s = append_generation_request r empty_scheduled"
  have s: "encoder_requests s = []" "context_requests_chunking s = []" "context_requests_last_chunk s = []" "generation_requests s = [r]" "paused_requests s = []"
    by (simp_all add: s_def append_generation_request_def empty_scheduled_def)
  have "to_scheduler_result (from_scheduler_result s [] 1 False) [r] = Inr (s, [], 1)"
    using scheduler_result_round_trip [of "[r]" s "[]" 1 False] s by simp
  moreover have "to_scheduler_result (from_scheduler_result s [] 1 False) [] = Inl KeyError"
    using scheduler_result_round_trip [of "[]" s "[]" 1 False "from_scheduler_result s [] 1 False"] s by (simp add: from_scheduler_result_def)
  ultimately show ?thesis using s(4) by blast
qed

end
