(* ===== verification/Heapq.thy ===== *)
theory Heapq
  imports Main "HOL-Library.Multiset"
begin

text \<open>
  The heap operations of Python's \<open>heapq\<close> that the waiting queue uses, on lists and in the order of the steps of the
  standard library: \<open>heappush\<close>, \<open>heappop\<close> and \<open>heapify\<close> over \<open>_siftdown\<close> and \<open>_siftup\<close>. Entries are compared by a key.
  The laws are collected in a locale, where a heap with distinct keys is seen as its sorted list.
\<close>

section \<open>Operations\<close>

definition parent :: "nat \<Rightarrow> nat" where
  "parent i = (i - 1) div 2"

lemma parent_less: "0 < i \<Longrightarrow> parent i < i"
  by (simp add: parent_def)

lemma parent_eq_iff: "0 < c \<Longrightarrow> parent c = i \<longleftrightarrow> c = 2 * i + 1 \<or> c = 2 * i + 2"
  by (auto simp: parent_def)

text \<open>The new item moves from \<open>pos\<close> towards \<open>start\<close> past larger parents.\<close>

function siftdown :: "('a \<Rightarrow> 'k::linorder) \<Rightarrow> nat \<Rightarrow> 'a \<Rightarrow> nat \<Rightarrow> 'a list \<Rightarrow> 'a list" where
  "siftdown key start newitem pos heap =
     (if start < pos \<and> key newitem < key (heap ! parent pos)
      then siftdown key start newitem (parent pos) (heap[pos := heap ! parent pos])
      else heap[pos := newitem])"
  by pat_completeness auto

termination siftdown by (relation "measure (\<lambda>(key, start, newitem, pos, heap). pos)") (auto intro: parent_less)

declare siftdown.simps [simp del]

definition smaller_child :: "('a \<Rightarrow> 'k::linorder) \<Rightarrow> nat \<Rightarrow> 'a list \<Rightarrow> nat" where
  "smaller_child key pos heap =
     (let c = 2 * pos + 1 in if c + 1 < length heap \<and> \<not> key (heap ! c) < key (heap ! (c + 1)) then c + 1 else c)"

text \<open>The hole at \<open>pos\<close> moves down to a leaf, the smaller child moving up each time.\<close>

function hole_to_leaf :: "('a \<Rightarrow> 'k::linorder) \<Rightarrow> nat \<Rightarrow> 'a list \<Rightarrow> nat \<times> 'a list" where
  "hole_to_leaf key pos heap =
     (if 2 * pos + 1 < length heap
      then hole_to_leaf key (smaller_child key pos heap) (heap[pos := heap ! smaller_child key pos heap])
      else (pos, heap))"
  by pat_completeness auto

termination hole_to_leaf
  by (relation "measure (\<lambda>(key, pos, heap). length heap - pos)") (auto simp: smaller_child_def Let_def)

declare hole_to_leaf.simps [simp del]

definition siftup :: "('a \<Rightarrow> 'k::linorder) \<Rightarrow> nat \<Rightarrow> 'a list \<Rightarrow> 'a list" where
  "siftup key pos heap = (let (leaf, heap') = hole_to_leaf key pos heap in siftdown key pos (heap ! pos) leaf (heap'[leaf := heap ! pos]))"

definition heappush :: "('a \<Rightarrow> 'k::linorder) \<Rightarrow> 'a \<Rightarrow> 'a list \<Rightarrow> 'a list" where
  "heappush key x heap = siftdown key 0 x (length heap) (heap @ [x])"

text \<open>On a heap that is not empty: the item returned and the rest.\<close>

definition heappop :: "('a \<Rightarrow> 'k::linorder) \<Rightarrow> 'a list \<Rightarrow> 'a \<times> 'a list" where
  "heappop key heap =
     (let lastelt = last heap; rest = butlast heap
      in if rest = [] then (lastelt, []) else (rest ! 0, siftup key 0 (rest[0 := lastelt])))"

definition heapify :: "('a \<Rightarrow> 'k::linorder) \<Rightarrow> 'a list \<Rightarrow> 'a list" where
  "heapify key heap = fold (siftup key) (rev [0..<length heap div 2]) heap"

section \<open>The heap order\<close>

definition heap_from :: "('a \<Rightarrow> 'k::linorder) \<Rightarrow> nat \<Rightarrow> 'a list \<Rightarrow> bool" where
  "heap_from key s heap \<longleftrightarrow> (\<forall>i < length heap. 0 < i \<and> s \<le> parent i \<longrightarrow> key (heap ! parent i) \<le> key (heap ! i))"

inductive descends :: "nat \<Rightarrow> nat \<Rightarrow> bool" for s where
  descends_refl: "descends s s"
| descends_child: "descends s (parent i) \<Longrightarrow> 0 < i \<Longrightarrow> descends s i"

lemma descends_le: "descends s i \<Longrightarrow> s \<le> i"
  by (induction rule: descends.induct) (auto dest: parent_less)

lemma descends_zero: "descends 0 i"
proof (induction i rule: less_induct)
  case (less i)
  show ?case
  proof (cases "i = 0")
    case False
    then show ?thesis using less [OF parent_less] by (auto intro: descends_child)
  qed (simp add: descends_refl)
qed

lemma descends_parent: "descends s i \<Longrightarrow> s < i \<Longrightarrow> descends s (parent i) \<and> s \<le> parent i"
  by (cases rule: descends.cases) (auto dest: descends_le)

text \<open>Only the item at \<open>pos\<close> may be smaller than its parent.\<close>

definition rising :: "('a \<Rightarrow> 'k::linorder) \<Rightarrow> nat \<Rightarrow> nat \<Rightarrow> 'a list \<Rightarrow> bool" where
  "rising key s pos heap \<longleftrightarrow> pos < length heap \<and> descends s pos
     \<and> (\<forall>i < length heap. 0 < i \<and> i \<noteq> pos \<and> s \<le> parent i \<longrightarrow> key (heap ! parent i) \<le> key (heap ! i))
     \<and> (\<forall>c < length heap. 0 < c \<and> parent c = pos \<and> s < pos \<longrightarrow> key (heap ! parent pos) \<le> key (heap ! c))"

lemma rising_step:
  assumes "rising key s pos (heap[pos := x])" "s < pos" "key x < key (heap ! parent pos)"
  shows "rising key s (parent pos) (heap[pos := heap ! parent pos, parent pos := x])"
proof -
  define p where "p = parent pos"
  have p: "p < pos" "pos < length heap" "descends s p" "s \<le> p" "key x < key (heap ! p)"
    using assms descends_parent [of s pos] parent_less [of pos] by (auto simp: rising_def p_def)
  have old: "key (heap ! parent i) \<le> key (heap ! i)" if "i < length heap" "0 < i" "i \<noteq> pos" "parent i \<noteq> pos" "s \<le> parent i" for i
    using assms(1) that by (auto simp: rising_def)
  have grand: "key (heap ! p) \<le> key (heap ! c)" if "c < length heap" "0 < c" "parent c = pos" for c
  proof -
    have "c \<noteq> pos" using that parent_less [of c] by auto
    moreover have "key (heap[pos := x] ! p) \<le> key (heap[pos := x] ! c)" using assms(1,2) that by (simp add: rising_def p_def)
    ultimately show ?thesis using p by simp
  qed
  have "key (heap[pos := heap ! p, p := x] ! parent i) \<le> key (heap[pos := heap ! p, p := x] ! i)"
    if i: "i < length heap" "0 < i" "i \<noteq> p" "s \<le> parent i" for i
  proof -
    consider "i = pos" | "i \<noteq> pos" "parent i = p" | "i \<noteq> pos" "parent i = pos" | "i \<noteq> pos" "parent i \<noteq> p" "parent i \<noteq> pos" by blast
    then show ?thesis
    proof cases
      case 1
      then show ?thesis using p by (simp flip: p_def)
    next
      case 2
      then have "key (heap ! p) \<le> key (heap ! i)" using old [of i] i p by simp
      then show ?thesis using 2 i p by simp
    next
      case 3
      then show ?thesis using grand [of i] i p by simp
    next
      case 4
      then show ?thesis using old [of i] i by simp
    qed
  qed
  moreover have "key (heap[pos := heap ! p, p := x] ! parent p) \<le> key (heap[pos := heap ! p, p := x] ! c)"
    if c: "c < length heap" "0 < c" "parent c = p" "s < p" for c
  proof -
    have pp: "parent p < p" "s \<le> parent p" using c(4) descends_parent [OF p(3)] parent_less [of p] by auto
    have up: "key (heap ! parent p) \<le> key (heap ! p)" using old [of p] p pp c(4) by simp
    show ?thesis
    proof (cases "c = pos")
      case True
      then show ?thesis using up pp p by simp
    next
      case False
      then have "key (heap ! p) \<le> key (heap ! c)" using old [of c] c p by simp
      then show ?thesis using False up pp p c parent_less [OF c(2)] by auto
    qed
  qed
  ultimately show ?thesis using p by (simp add: rising_def p_def)
qed

lemma mset_move: "i < length xs \<Longrightarrow> j < length xs \<Longrightarrow> i \<noteq> j \<Longrightarrow> mset (xs[i := xs ! j, j := x]) = mset (xs[i := x])"
proof -
  assume a: "i < length xs" "j < length xs" "i \<noteq> j"
  have "mset (xs[i := x]) = mset ((xs[i := x])[j := xs[i := x] ! i, i := xs[i := x] ! j])"
    using a by (intro mset_swap [symmetric]) simp_all
  also have "(xs[i := x])[j := xs[i := x] ! i, i := xs[i := x] ! j] = xs[i := xs ! j, j := x]"
    using a by (intro nth_equalityI) (auto simp: nth_list_update)
  finally show ?thesis by simp
qed

lemma siftdown_heap:
  assumes "rising key s pos (heap[pos := x])"
  shows "heap_from key s (siftdown key s x pos heap) \<and> mset (siftdown key s x pos heap) = mset (heap[pos := x])"
  using assms
proof (induction key s x pos heap rule: siftdown.induct)
  case (1 key s x pos heap)
  show ?case
  proof (cases "s < pos \<and> key x < key (heap ! parent pos)")
    case True
    have "pos < length heap" using 1(2) by (simp add: rising_def)
    then have m: "mset (heap[pos := heap ! parent pos, parent pos := x]) = mset (heap[pos := x])"
      using True parent_less [of pos] by (intro mset_move) auto
    have "rising key s (parent pos) (heap[pos := heap ! parent pos, parent pos := x])" using rising_step [OF 1(2)] True by simp
    from 1(1) [OF True this] show ?thesis using True m by (simp add: siftdown.simps [of key s x pos heap])
  next
    case False
    have "key (heap[pos := x] ! parent i) \<le> key (heap[pos := x] ! i)" if "i < length heap" "0 < i" "s \<le> parent i" for i
    proof (cases "i = pos")
      case True
      then have "s < pos" "parent pos < pos" using that parent_less [of pos] by auto
      then show ?thesis using True False that by auto
    next
      case False
      then show ?thesis using 1(2) that by (simp add: rising_def)
    qed
    then show ?thesis using False by (auto simp: heap_from_def siftdown.simps [of key s x pos heap])
  qed
qed

text \<open>A hole at \<open>pos\<close>, whose content does not count.\<close>

definition sinking :: "('a \<Rightarrow> 'k::linorder) \<Rightarrow> nat \<Rightarrow> nat \<Rightarrow> 'a list \<Rightarrow> bool" where
  "sinking key s pos heap \<longleftrightarrow> pos < length heap \<and> descends s pos
     \<and> (\<forall>i < length heap. 0 < i \<and> i \<noteq> pos \<and> parent i \<noteq> pos \<and> s \<le> parent i \<longrightarrow> key (heap ! parent i) \<le> key (heap ! i))
     \<and> (\<forall>c < length heap. 0 < c \<and> parent c = pos \<and> s < pos \<longrightarrow> key (heap ! parent pos) \<le> key (heap ! c))"

lemma smaller_child:
  assumes "2 * pos + 1 < length heap"
  shows "smaller_child key pos heap < length heap" "0 < smaller_child key pos heap" "parent (smaller_child key pos heap) = pos"
    "\<And>c. c < length heap \<Longrightarrow> 0 < c \<Longrightarrow> parent c = pos \<Longrightarrow> key (heap ! smaller_child key pos heap) \<le> key (heap ! c)"
proof -
  show "smaller_child key pos heap < length heap" "0 < smaller_child key pos heap" "parent (smaller_child key pos heap) = pos"
    using assms by (auto simp: smaller_child_def Let_def parent_def)
  show "key (heap ! smaller_child key pos heap) \<le> key (heap ! c)" if "c < length heap" "0 < c" "parent c = pos" for c
    using that by (auto simp: smaller_child_def Let_def parent_eq_iff)
qed

lemma sinking_step:
  assumes "sinking key s pos heap" "2 * pos + 1 < length heap"
  defines "c \<equiv> smaller_child key pos heap"
  shows "sinking key s c (heap[pos := heap ! c])"
proof -
  note child = smaller_child [OF assms(2), where key = key, folded c_def]
  have lt: "pos < c" "pos < length heap" using parent_less [OF child(2)] child(3) assms(1) by (simp_all add: sinking_def)
  have s: "s \<le> pos" "descends s pos" using assms(1) descends_le by (auto simp: sinking_def)
  have old: "key (heap ! parent i) \<le> key (heap ! i)" if "i < length heap" "0 < i" "i \<noteq> pos" "parent i \<noteq> pos" "s \<le> parent i" for i
    using assms(1) that by (simp add: sinking_def)
  have grand: "key (heap ! parent pos) \<le> key (heap ! c)" if "s < pos"
    using assms(1) child that by (simp add: sinking_def)
  have "key (heap[pos := heap ! c] ! parent i) \<le> key (heap[pos := heap ! c] ! i)"
    if i: "i < length heap" "0 < i" "i \<noteq> c" "parent i \<noteq> c" "s \<le> parent i" for i
  proof -
    consider "i = pos" | "i \<noteq> pos" "parent i = pos" | "i \<noteq> pos" "parent i \<noteq> pos" by blast
    then show ?thesis
    proof cases
      case 1
      then have "parent pos < pos" "s < pos" using i parent_less [of pos] by auto
      then show ?thesis using 1 i grand lt by simp
    next
      case 2
      then show ?thesis using child(4) [of i] i lt by simp
    next
      case 3
      then show ?thesis using old [of i] i by simp
    qed
  qed
  moreover have "key (heap[pos := heap ! c] ! parent c) \<le> key (heap[pos := heap ! c] ! d)" if d: "d < length heap" "0 < d" "parent d = c" for d
  proof -
    have "d \<noteq> pos" using parent_less [OF d(2)] d(3) lt by auto
    then show ?thesis using old [of d] d child(3) lt s by simp
  qed
  moreover have "descends s c" using s(2) child by (metis descends_child)
  ultimately show ?thesis using child(1) by (simp add: sinking_def)
qed

lemma hole_to_leaf_sinks:
  assumes "sinking key s pos heap" "hole_to_leaf key pos heap = (leaf, heap')"
  shows "sinking key s leaf heap' \<and> length heap' \<le> 2 * leaf + 1 \<and> length heap' = length heap \<and> mset (heap'[leaf := x]) = mset (heap[pos := x])"
  using assms
proof (induction key pos heap rule: hole_to_leaf.induct)
  case (1 key pos heap)
  show ?case
  proof (cases "2 * pos + 1 < length heap")
    case True
    define c where "c = smaller_child key pos heap"
    note child = smaller_child [OF True, where key = key, folded c_def]
    have "hole_to_leaf key c (heap[pos := heap ! c]) = (leaf, heap')"
      using 1(3) True by (simp add: hole_to_leaf.simps [of key pos heap] c_def)
    from 1(1) [OF True sinking_step [OF 1(2) True] this [unfolded c_def]]
    have IH: "sinking key s leaf heap' \<and> length heap' \<le> 2 * leaf + 1 \<and> length heap' = length heap
        \<and> mset (heap'[leaf := x]) = mset (heap[pos := heap ! c, c := x])" by (simp add: c_def)
    have "mset (heap[pos := heap ! c, c := x]) = mset (heap[pos := x])"
      using child(1) 1(2) parent_less [OF child(2)] child(3) by (intro mset_move) (auto simp: sinking_def)
    then show ?thesis using IH by simp
  next
    case False
    then show ?thesis using 1(2,3) by (simp add: hole_to_leaf.simps [of key pos heap])
  qed
qed

lemma sinking_leaf:
  assumes "sinking key s leaf heap" "length heap \<le> 2 * leaf + 1"
  shows "rising key s leaf (heap[leaf := x])"
proof -
  have no_child: "parent i \<noteq> leaf" if "i < length heap" "0 < i" for i
    using that assms(2) parent_eq_iff [of i leaf] by auto
  have "key (heap[leaf := x] ! parent i) \<le> key (heap[leaf := x] ! i)" if "i < length heap" "0 < i" "i \<noteq> leaf" "s \<le> parent i" for i
    using assms(1) no_child [OF that(1,2)] that by (simp add: sinking_def)
  then show ?thesis using assms(1) by (auto simp: sinking_def rising_def dest: no_child)
qed

lemma siftup_heap:
  assumes "heap_from key (Suc s) heap" "s < length heap"
  shows "heap_from key s (siftup key s heap) \<and> mset (siftup key s heap) = mset heap"
proof -
  obtain leaf heap' where h: "hole_to_leaf key s heap = (leaf, heap')" by fastforce
  have "sinking key s s heap" using assms by (auto simp: sinking_def heap_from_def descends_refl)
  note sink = hole_to_leaf_sinks [OF this h, of "heap ! s"]
  then have "rising key s leaf (heap'[leaf := heap ! s])" by (intro sinking_leaf) simp_all
  then have "rising key s leaf (heap'[leaf := heap ! s, leaf := heap ! s])" by simp
  from siftdown_heap [OF this] show ?thesis using sink h by (simp add: siftup_def)
qed

section \<open>Correctness of the operations\<close>

lemma heap_top_least:
  assumes "heap_from key 0 heap" "i < length heap"
  shows "key (heap ! 0) \<le> key (heap ! i)"
  using assms(2)
proof (induction i rule: less_induct)
  case (less i)
  show ?case
  proof (cases "i = 0")
    case False
    then have "key (heap ! 0) \<le> key (heap ! parent i)" using less parent_less [of i] by simp
    also have "\<dots> \<le> key (heap ! i)" using assms(1) less.prems False by (simp add: heap_from_def)
    finally show ?thesis .
  qed simp
qed

lemma heappush_heap:
  assumes "heap_from key 0 heap"
  shows "heap_from key 0 (heappush key x heap) \<and> mset (heappush key x heap) = add_mset x (mset heap)"
proof -
  have p: "parent i < length heap" if "i < Suc (length heap)" "0 < i" for i using that parent_less [of i] by simp
  have "key ((heap @ [x]) ! parent i) \<le> key ((heap @ [x]) ! i)" if "i < Suc (length heap)" "0 < i" "i \<noteq> length heap" for i
    using assms p [OF that(1,2)] that by (simp add: heap_from_def nth_append)
  then have "rising key 0 (length heap) ((heap @ [x])[length heap := x])"
    by (auto simp: rising_def descends_zero dest: p)
  from siftdown_heap [OF this] show ?thesis by (simp add: heappush_def)
qed

lemma heappop_heap:
  assumes "heap_from key 0 heap" "heap \<noteq> []" "heappop key heap = (m, rest)"
  shows "heap_from key 0 rest" "mset heap = add_mset m (mset rest)" "m = heap ! 0" "\<forall>x \<in> set rest. key m \<le> key x"
proof -
  obtain ys l where ys: "heap = ys @ [l]" using assms(2) by (cases heap rule: rev_cases) auto
  have "heap_from key 0 rest \<and> mset heap = add_mset m (mset rest) \<and> m = heap ! 0"
  proof (cases ys)
    case Nil
    then show ?thesis using assms(3) ys by (auto simp: heappop_def heap_from_def)
  next
    case (Cons y zs)
    have same: "(l # zs) ! k = heap ! k" if "0 < k" "k < length ys" for k using ys Cons that by (cases k) (simp_all add: nth_append)
    have "key ((l # zs) ! parent i) \<le> key ((l # zs) ! i)" if i: "i < length (l # zs)" "0 < i" "Suc 0 \<le> parent i" for i
    proof -
      have len: "i < length ys" "i < length heap" using i(1) ys Cons by simp_all
      have "(l # zs) ! parent i = heap ! parent i" using i parent_less [OF i(2)] len by (intro same) linarith+
      moreover have "(l # zs) ! i = heap ! i" using i len by (intro same)
      moreover have "key (heap ! parent i) \<le> key (heap ! i)" using assms(1) i(2) len by (simp add: heap_from_def)
      ultimately show ?thesis by simp
    qed
    then have "heap_from key (Suc 0) (l # zs)" unfolding heap_from_def by blast
    from siftup_heap [OF this] show ?thesis using assms(3) ys Cons by (simp add: heappop_def)
  qed
  then show g: "heap_from key 0 rest" "mset heap = add_mset m (mset rest)" "m = heap ! 0" by auto
  have "set rest \<subseteq> set heap" using g(2) by (metis set_mset_add_mset_insert set_mset_mset subset_insertI)
  then show "\<forall>x \<in> set rest. key m \<le> key x" using heap_top_least [OF assms(1)] g(3) by (metis in_set_conv_nth subsetD)
qed

lemma heapify_heap: "heap_from key 0 (heapify key heap) \<and> mset (heapify key heap) = mset heap"
proof -
  have "heap_from key 0 (fold (siftup key) (rev [0..<n]) xs) \<and> mset (fold (siftup key) (rev [0..<n]) xs) = mset xs"
    if "heap_from key n xs" "n \<le> length xs" for n xs
    using that
  proof (induction n arbitrary: xs)
    case (Suc n)
    then have s: "heap_from key n (siftup key n xs)" "mset (siftup key n xs) = mset xs" using siftup_heap [of key n xs] by auto
    then have "length (siftup key n xs) = length xs" by (metis size_mset)
    then show ?case using Suc.IH [OF s(1)] Suc.prems(2) s(2) by simp
  qed simp
  moreover have "heap_from key (length heap div 2) heap" by (auto simp: heap_from_def parent_def)
  ultimately show ?thesis by (simp add: heapify_def)
qed

section \<open>The contract\<close>

text \<open>A heap of entries with distinct keys stands for the list of its entries in the order of the keys.\<close>

locale min_heap =
  fixes key :: "'a \<Rightarrow> 'k::linorder" and invar :: "'a list \<Rightarrow> bool"
    and push :: "'a \<Rightarrow> 'a list \<Rightarrow> 'a list" and pop :: "'a list \<Rightarrow> 'a \<times> 'a list" and build :: "'a list \<Rightarrow> 'a list"
  assumes push_law: "invar h \<Longrightarrow> invar (push x h) \<and> mset (push x h) = add_mset x (mset h)"
    and pop_law: "invar h \<Longrightarrow> h \<noteq> [] \<Longrightarrow> pop h = (m, rest) \<Longrightarrow>
      invar rest \<and> mset h = add_mset m (mset rest) \<and> m = h ! 0 \<and> (\<forall>x \<in> set rest. key m \<le> key x)"
    and build_law: "invar (build h) \<and> mset (build h) = mset h"
begin

lemma sort_eq: "mset xs = mset ys \<Longrightarrow> distinct (map key xs) \<Longrightarrow> sort_key key xs = sort_key key ys"
  by (metis distinct_map mset_sort sort_key_inj_key_eq sorted_sort_key)

lemma sorted_push:
  assumes "invar h" "distinct (map key (x # h))"
  shows "sort_key key (push x h) = insort_key key x (sort_key key h)"
proof -
  have "mset (x # h) = mset (push x h)" using push_law [OF assms(1), of x] by simp
  from sort_eq [OF this assms(2)] show ?thesis by simp
qed

lemma sorted_pop:
  assumes "invar h" "h \<noteq> []" "distinct (map key h)" "pop h = (m, rest)"
  shows "sort_key key h = m # sort_key key rest" "invar rest" "m = h ! 0" "mset h = add_mset m (mset rest)"
proof -
  note law = pop_law [OF assms(1,2,4)]
  show "invar rest" "m = h ! 0" "mset h = add_mset m (mset rest)" using law by auto
  have "mset h = mset (m # sort_key key rest)" using law by simp
  moreover have "sorted (map key (m # sort_key key rest))" using law by auto
  ultimately show "sort_key key h = m # sort_key key rest"
    using assms(3) by (intro sort_key_inj_key_eq) (auto simp: distinct_map)
qed

lemma sorted_build:
  assumes "distinct (map key h)"
  shows "sort_key key (build h) = sort_key key h"
  using sort_eq [of h "build h"] build_law assms by simp

end

interpretation hq: min_heap key "heap_from key 0" "heappush key" "heappop key" "heapify key"
  for key :: "'a \<Rightarrow> 'k::linorder"
proof
  fix h m rest x
  show "heap_from key 0 h \<Longrightarrow> heap_from key 0 (heappush key x h) \<and> mset (heappush key x h) = add_mset x (mset h)"
    by (rule heappush_heap)
  show "heap_from key 0 (heapify key h) \<and> mset (heapify key h) = mset h" by (rule heapify_heap)
  show "heap_from key 0 rest \<and> mset h = add_mset m (mset rest) \<and> m = h ! 0 \<and> (\<forall>x \<in> set rest. key m \<le> key x)"
    if "heap_from key 0 h" "h \<noteq> []" "heappop key h = (m, rest)"
    using heappop_heap [OF that] by blast
qed

end
