(* ===== verification/Waiting_Queue.thy ===== *)
theory Waiting_Queue
  imports Complex_Main KV_Prelude Heapq "HOL-Library.Product_Lexorder" "HOL-Library.Sublist"
begin

text \<open>
  The waiting queues of the executor (\<^verbatim>\<open>src/tensorrt_llm/_torch/pyexecutor/scheduler/waiting_queue.py\<close>) and the function that takes
  requests from one (\<open>get_from_waiting_queue\<close> in \<^verbatim>\<open>request_utils.py\<close>). The abstract base class is a record of operations;
  the two subclasses are two such records, one over a list and one over a binary heap with two counters.
  Priorities are rational numbers, as finite floating point numbers are; their negation and comparison are exact.
\<close>

section \<open>Requests and the interface\<close>

record scheduling_params =
  attention_dp_rank :: "int option"
  attention_dp_relax :: bool

record conversation_params =
  conversation_id :: "string option"

record lora_config =
  task_id :: int

text \<open>The number of input tokens is \<open>None\<close> when the request has no such attribute.\<close>

record executor_request =
  priority :: rat
  py_scheduling_params :: "scheduling_params option"
  num_input_tokens :: "int option"
  input_token_ids :: "int list"
  py_conversation_params :: "conversation_params option"
  request_lora_config :: "lora_config option"
  cache_salt :: "string option"

record queue_item =
  item_id :: int
  item_request :: "executor_request option"
  child_req_ids :: "int list option"

record 'q waiting_queue_ops =
  q_add_request :: "queue_item \<Rightarrow> 'q \<Rightarrow> 'q"
  q_add_requests :: "queue_item list \<Rightarrow> 'q \<Rightarrow> 'q"
  q_pop_request :: "'q \<Rightarrow> (queue_item \<times> 'q) res"
  q_peek_request :: "'q \<Rightarrow> queue_item res"
  q_prepend_request :: "queue_item \<Rightarrow> 'q \<Rightarrow> 'q"
  q_prepend_requests :: "queue_item list \<Rightarrow> 'q \<Rightarrow> 'q"
  q_remove_by_ids :: "int set \<Rightarrow> 'q \<Rightarrow> 'q"
  q_bool :: "'q \<Rightarrow> bool"
  q_len :: "'q \<Rightarrow> nat"
  q_iter :: "'q \<Rightarrow> queue_item list"

section \<open>First come, first served\<close>

definition fcfs_add_request :: "queue_item \<Rightarrow> queue_item list \<Rightarrow> queue_item list" where
  "fcfs_add_request r q = q @ [r]"

definition fcfs_add_requests :: "queue_item list \<Rightarrow> queue_item list \<Rightarrow> queue_item list" where
  "fcfs_add_requests rs q = q @ rs"

fun fcfs_pop_request :: "queue_item list \<Rightarrow> (queue_item \<times> queue_item list) res" where
  "fcfs_pop_request [] = Inl IndexError"
| "fcfs_pop_request (r # q) = Inr (r, q)"

fun fcfs_peek_request :: "queue_item list \<Rightarrow> queue_item res" where
  "fcfs_peek_request [] = Inl IndexError"
| "fcfs_peek_request (r # q) = Inr r"

definition fcfs_prepend_request :: "queue_item \<Rightarrow> queue_item list \<Rightarrow> queue_item list" where
  "fcfs_prepend_request r q = r # q"

text \<open>\<open>extendleft\<close> of the reversed list.\<close>

definition fcfs_prepend_requests :: "queue_item list \<Rightarrow> queue_item list \<Rightarrow> queue_item list" where
  "fcfs_prepend_requests rs q = fold (#) (rev rs) q"

definition fcfs_remove_by_ids :: "int set \<Rightarrow> queue_item list \<Rightarrow> queue_item list" where
  "fcfs_remove_by_ids ids q = filter (\<lambda>r. item_id r \<notin> ids) q"

definition fcfs_ops :: "queue_item list waiting_queue_ops" where
  "fcfs_ops = \<lparr>q_add_request = fcfs_add_request, q_add_requests = fcfs_add_requests, q_pop_request = fcfs_pop_request,
     q_peek_request = fcfs_peek_request, q_prepend_request = fcfs_prepend_request, q_prepend_requests = fcfs_prepend_requests,
     q_remove_by_ids = fcfs_remove_by_ids, q_bool = (\<lambda>q. 0 < length q), q_len = length, q_iter = (\<lambda>q. q)\<rparr>"

section \<open>Priorities\<close>

type_synonym heap_entry = "rat \<times> int \<times> queue_item"

record priority_queue =
  pq_heap :: "heap_entry list"
  pq_counter :: int
  pq_prepend_counter :: int

definition priority_init :: priority_queue where
  "priority_init = \<lparr>pq_heap = [], pq_counter = 0, pq_prepend_counter = -1\<rparr>"

definition default_request_priority :: rat where
  "default_request_priority = 1 / 2"

definition get_priority :: "queue_item \<Rightarrow> rat" where
  "get_priority item = (case item_request item of Some r \<Rightarrow> priority r | None \<Rightarrow> default_request_priority)"

text \<open>Entries are compared by negated priority and counter; the counters are distinct, so the items are never compared.\<close>

definition entry_key :: "heap_entry \<Rightarrow> rat \<times> int" where
  "entry_key e = (fst e, fst (snd e))"

definition pq_push :: "queue_item \<Rightarrow> priority_queue \<Rightarrow> priority_queue" where
  "pq_push item q = q\<lparr>pq_heap := heappush entry_key (- get_priority item, pq_counter q, item) (pq_heap q), pq_counter := pq_counter q + 1\<rparr>"

definition pq_push_front :: "queue_item \<Rightarrow> priority_queue \<Rightarrow> priority_queue" where
  "pq_push_front item q =
     q\<lparr>pq_heap := heappush entry_key (- get_priority item, pq_prepend_counter q, item) (pq_heap q), pq_prepend_counter := pq_prepend_counter q - 1\<rparr>"

definition pq_add_request :: "queue_item \<Rightarrow> priority_queue \<Rightarrow> priority_queue" where
  "pq_add_request r q = pq_push r q"

definition pq_add_requests :: "queue_item list \<Rightarrow> priority_queue \<Rightarrow> priority_queue" where
  "pq_add_requests rs q = fold pq_push rs q"

definition pq_pop_request :: "priority_queue \<Rightarrow> (queue_item \<times> priority_queue) res" where
  "pq_pop_request q = guardR (pq_heap q \<noteq> []) IndexError
     (let ((_, _, item), rest) = heappop entry_key (pq_heap q) in Inr (item, q\<lparr>pq_heap := rest\<rparr>))"

definition pq_peek_request :: "priority_queue \<Rightarrow> queue_item res" where
  "pq_peek_request q = guardR (pq_heap q \<noteq> []) IndexError (Inr (snd (snd (pq_heap q ! 0))))"

definition pq_prepend_request :: "queue_item \<Rightarrow> priority_queue \<Rightarrow> priority_queue" where
  "pq_prepend_request r q = pq_push_front r q"

definition pq_prepend_requests :: "queue_item list \<Rightarrow> priority_queue \<Rightarrow> priority_queue" where
  "pq_prepend_requests rs q = fold pq_push_front (rev rs) q"

definition pq_remove_by_ids :: "int set \<Rightarrow> priority_queue \<Rightarrow> priority_queue" where
  "pq_remove_by_ids ids q = q\<lparr>pq_heap := heapify entry_key (filter (\<lambda>e. item_id (snd (snd e)) \<notin> ids) (pq_heap q))\<rparr>"

definition pq_iter :: "priority_queue \<Rightarrow> queue_item list" where
  "pq_iter q = map (\<lambda>e. snd (snd e)) (sort_key entry_key (pq_heap q))"

definition priority_ops :: "priority_queue waiting_queue_ops" where
  "priority_ops = \<lparr>q_add_request = pq_add_request, q_add_requests = pq_add_requests, q_pop_request = pq_pop_request,
     q_peek_request = pq_peek_request, q_prepend_request = pq_prepend_request, q_prepend_requests = pq_prepend_requests,
     q_remove_by_ids = pq_remove_by_ids, q_bool = (\<lambda>q. 0 < length (pq_heap q)), q_len = (\<lambda>q. length (pq_heap q)), q_iter = pq_iter\<rparr>"

datatype waiting_queue = FCFSWaitingQueue "queue_item list" | PriorityWaitingQueue priority_queue

text \<open>The policy is a string enumeration.\<close>

definition create_waiting_queue :: "string \<Rightarrow> waiting_queue res" where
  "create_waiting_queue policy =
     (if policy = ''fcfs'' then Inr (FCFSWaitingQueue [])
      else if policy = ''priority'' then Inr (PriorityWaitingQueue priority_init)
      else Inl ValueError)"

section \<open>Taking requests from a queue\<close>

definition derive_attention_dp_per_rank_request_cap :: "int \<Rightarrow> int option \<Rightarrow> int \<Rightarrow> int" where
  "derive_attention_dp_per_rank_request_cap base_cap max_tokens max_total_draft_tokens =
     (case max_tokens of None \<Rightarrow> base_cap | Some n \<Rightarrow> min base_cap (n div (1 + max max_total_draft_tokens 0)))"

text \<open>The answer, and the numbers of active requests with the request counted at its rank.\<close>

definition can_process_attention_dp_request :: "queue_item \<Rightarrow> int list \<Rightarrow> int \<Rightarrow> (bool \<times> int list) res" where
  "can_process_attention_dp_request item ranks max_num_active_requests =
     (case item_request item of None \<Rightarrow> Inr (True, ranks)
      | Some request \<Rightarrow> (case py_scheduling_params request of None \<Rightarrow> Inr (True, ranks)
          | Some params \<Rightarrow> (case attention_dp_rank params of None \<Rightarrow> Inr (True, ranks)
              | Some rank \<Rightarrow> if attention_dp_relax params then Inr (True, ranks)
                  else bindR (py_index ranks rank) (\<lambda>n.
                    if n < max_num_active_requests then bindR (py_update ranks rank (\<lambda>n. n + 1)) (\<lambda>ranks'. Inr (True, ranks'))
                    else Inr (False, ranks)))))"

definition num_children :: "queue_item \<Rightarrow> int" where
  "num_children item = (case child_req_ids item of None \<Rightarrow> 0 | Some ids \<Rightarrow> int (length ids))"

record 'q taking =
  t_queue :: 'q
  t_count :: int
  t_items :: "queue_item list"
  t_pending :: "queue_item list"
  t_ranks :: "int list"

text \<open>One round of the loop; the flag is false when the loop is left.\<close>

definition take_step :: "'q waiting_queue_ops \<Rightarrow> int \<Rightarrow> bool \<Rightarrow> int \<Rightarrow> 'q taking \<Rightarrow> (bool \<times> 'q taking) res" where
  "take_step ops max_req_count enable_attention_dp max_active t =
     bindR (q_peek_request ops (t_queue t)) (\<lambda>first.
     if max_req_count < t_count t + 1 + num_children first then Inr (False, t)
     else bindR (q_pop_request ops (t_queue t)) (\<lambda>(item, queue).
       bindR (if enable_attention_dp then can_process_attention_dp_request item (t_ranks t) max_active else Inr (True, t_ranks t))
         (\<lambda>(can_process, ranks).
           Inr (True,
             if can_process
             then t\<lparr>t_queue := queue, t_items := t_items t @ [item], t_count := t_count t + (1 + num_children first), t_ranks := ranks\<rparr>
             else t\<lparr>t_queue := queue, t_pending := t_pending t @ [item], t_ranks := ranks\<rparr>))))"

partial_function (option) take_loop :: "'q waiting_queue_ops \<Rightarrow> int \<Rightarrow> bool \<Rightarrow> int \<Rightarrow> 'q taking \<Rightarrow> 'q taking res option" where
  "take_loop ops max_req_count enable_attention_dp max_active t =
     (if t_count t < max_req_count \<and> q_bool ops (t_queue t)
      then case take_step ops max_req_count enable_attention_dp max_active t of
             Inl e \<Rightarrow> Some (Inl e)
           | Inr (go, t') \<Rightarrow> if go then take_loop ops max_req_count enable_attention_dp max_active t' else Some (Inr t')
      else Some (Inr t))"

text \<open>The requests taken and the queue afterwards.\<close>

definition get_from_waiting_queue ::
    "'q waiting_queue_ops \<Rightarrow> 'q \<Rightarrow> int \<Rightarrow> bool \<Rightarrow> int \<Rightarrow> int list option \<Rightarrow> (queue_item list \<times> 'q) res option" where
  "get_from_waiting_queue ops queue max_req_count enable_attention_dp max_active all_ranks =
     (if max_req_count \<le> 0 then Some (Inr ([], queue))
      else if enable_attention_dp \<and> all_ranks = None then Some (Inl AttributeError)
      else map_option (\<lambda>out. bindR out (\<lambda>t. Inr (t_items t, q_prepend_requests ops (t_pending t) (t_queue t))))
        (take_loop ops max_req_count enable_attention_dp max_active
          \<lparr>t_queue = queue, t_count = 0, t_items = [], t_pending = [], t_ranks = (case all_ranks of None \<Rightarrow> [] | Some ns \<Rightarrow> ns)\<rparr>))"

end
