(* ===== verification/Waiting_Queue_Laws.thy ===== *)
theory Waiting_Queue_Laws
  imports Waiting_Queue
begin

text \<open>
  The contract of the waiting queues: both refine a list in the order of service, over a strict order \<open>before\<close> of requests
  (none is before another without priorities; a higher priority is before a lower one). The contract is a locale,
  in which the loop that takes requests is verified once; both queues are interpretations of it.
\<close>

section \<open>The specification over lists\<close>

definition spec_add :: "(queue_item \<Rightarrow> queue_item \<Rightarrow> bool) \<Rightarrow> queue_item \<Rightarrow> queue_item list \<Rightarrow> queue_item list" where
  "spec_add before r l = takeWhile (\<lambda>x. \<not> before r x) l @ r # dropWhile (\<lambda>x. \<not> before r x) l"

definition spec_prepend :: "(queue_item \<Rightarrow> queue_item \<Rightarrow> bool) \<Rightarrow> queue_item \<Rightarrow> queue_item list \<Rightarrow> queue_item list" where
  "spec_prepend before r l = takeWhile (\<lambda>x. before x r) l @ r # dropWhile (\<lambda>x. before x r) l"

datatype queue_call =
    Add_Request queue_item
  | Add_Requests "queue_item list"
  | Pop_Request
  | Peek_Request
  | Prepend_Request queue_item
  | Prepend_Requests "queue_item list"
  | Remove_By_Ids "int set"

fun call :: "'q waiting_queue_ops \<Rightarrow> queue_call \<Rightarrow> 'q \<Rightarrow> queue_item option res \<times> 'q" where
  "call ops (Add_Request r) q = (Inr None, q_add_request ops r q)"
| "call ops (Add_Requests rs) q = (Inr None, q_add_requests ops rs q)"
| "call ops Pop_Request q = (case q_pop_request ops q of Inl e \<Rightarrow> (Inl e, q) | Inr (r, q') \<Rightarrow> (Inr (Some r), q'))"
| "call ops Peek_Request q = (case q_peek_request ops q of Inl e \<Rightarrow> (Inl e, q) | Inr r \<Rightarrow> (Inr (Some r), q))"
| "call ops (Prepend_Request r) q = (Inr None, q_prepend_request ops r q)"
| "call ops (Prepend_Requests rs) q = (Inr None, q_prepend_requests ops rs q)"
| "call ops (Remove_By_Ids ids) q = (Inr None, q_remove_by_ids ops ids q)"

fun spec_call :: "(queue_item \<Rightarrow> queue_item \<Rightarrow> bool) \<Rightarrow> queue_call \<Rightarrow> queue_item list \<Rightarrow> queue_item option res \<times> queue_item list" where
  "spec_call before (Add_Request r) l = (Inr None, spec_add before r l)"
| "spec_call before (Add_Requests rs) l = (Inr None, fold (spec_add before) rs l)"
| "spec_call before Pop_Request l = (case l of [] \<Rightarrow> (Inl IndexError, []) | r # l' \<Rightarrow> (Inr (Some r), l'))"
| "spec_call before Peek_Request l = (case l of [] \<Rightarrow> (Inl IndexError, []) | r # l' \<Rightarrow> (Inr (Some r), l))"
| "spec_call before (Prepend_Request r) l = (Inr None, spec_prepend before r l)"
| "spec_call before (Prepend_Requests rs) l = (Inr None, foldr (spec_prepend before) rs l)"
| "spec_call before (Remove_By_Ids ids) l = (Inr None, filter (\<lambda>r. item_id r \<notin> ids) l)"

text \<open>The answers to a sequence of calls, and the state after it.\<close>

fun run_calls :: "(queue_call \<Rightarrow> 's \<Rightarrow> queue_item option res \<times> 's) \<Rightarrow> queue_call list \<Rightarrow> 's \<Rightarrow> queue_item option res list \<times> 's" where
  "run_calls step [] s = ([], s)"
| "run_calls step (c # cs) s = (let (a, s1) = step c s; (as, s2) = run_calls step cs s1 in (a # as, s2))"

section \<open>Lists\<close>

lemma shuffles_snoc_left: "zs \<in> shuffles xs ys \<Longrightarrow> zs @ [x] \<in> shuffles (xs @ [x]) ys"
  by (induction zs arbitrary: xs ys) (auto simp: Cons_in_shuffles_iff neq_Nil_conv)

lemma shuffles_snoc_right: "zs \<in> shuffles xs ys \<Longrightarrow> zs @ [y] \<in> shuffles xs (ys @ [y])"
  using shuffles_snoc_left [of zs ys xs y] by (simp add: shuffles_commutes)

lemma shuffles_subseq: "zs \<in> shuffles xs ys \<Longrightarrow> subseq ys zs"
proof (induction zs arbitrary: xs ys)
  case (Cons z zs)
  then consider xs' where "xs = z # xs'" "zs \<in> shuffles xs' ys" | ys' where "ys = z # ys'" "zs \<in> shuffles xs ys'"
    by (auto simp: Cons_in_shuffles_iff neq_Nil_conv)
  then show ?case using Cons.IH by cases auto
qed simp

lemma sorted_wrt_subseq: "subseq xs ys \<Longrightarrow> sorted_wrt P ys \<Longrightarrow> sorted_wrt P xs"
  by (induction rule: list_emb.induct) (auto dest: list_emb_set)

lemma foldr_spec_prepend:
  "sorted_wrt (\<lambda>x y. \<not> before y x) (rs @ l) \<Longrightarrow> foldr (spec_prepend before) rs l = rs @ l"
proof (induction rs)
  case (Cons r rs)
  have "takeWhile (\<lambda>x. before x r) (rs @ l) = []" "dropWhile (\<lambda>x. before x r) (rs @ l) = rs @ l"
    using Cons.prems by (cases "rs @ l"; auto)+
  then show ?case using Cons by (simp add: spec_prepend_def)
qed simp

section \<open>The contract\<close>

definition weight :: "queue_item list \<Rightarrow> int" where
  "weight items = (\<Sum>r \<leftarrow> items. 1 + num_children r)"

locale waiting_queue_contract =
  fixes ops :: "'q waiting_queue_ops" and before :: "queue_item \<Rightarrow> queue_item \<Rightarrow> bool" and invar :: "'q \<Rightarrow> bool"
  assumes ordered: "invar q \<Longrightarrow> sorted_wrt (\<lambda>x y. \<not> before y x) (q_iter ops q)"
    and add_request: "invar q \<Longrightarrow> invar (q_add_request ops r q) \<and> q_iter ops (q_add_request ops r q) = spec_add before r (q_iter ops q)"
    and add_requests: "invar q \<Longrightarrow> invar (q_add_requests ops rs q) \<and> q_iter ops (q_add_requests ops rs q) = fold (spec_add before) rs (q_iter ops q)"
    and prepend_request: "invar q \<Longrightarrow> invar (q_prepend_request ops r q) \<and> q_iter ops (q_prepend_request ops r q) = spec_prepend before r (q_iter ops q)"
    and prepend_requests: "invar q \<Longrightarrow> invar (q_prepend_requests ops rs q) \<and> q_iter ops (q_prepend_requests ops rs q) = foldr (spec_prepend before) rs (q_iter ops q)"
    and remove_by_ids: "invar q \<Longrightarrow> invar (q_remove_by_ids ops ids q) \<and> q_iter ops (q_remove_by_ids ops ids q) = filter (\<lambda>r. item_id r \<notin> ids) (q_iter ops q)"
    and pop_empty: "invar q \<Longrightarrow> q_iter ops q = [] \<Longrightarrow> q_pop_request ops q = Inl IndexError"
    and pop_first: "invar q \<Longrightarrow> q_iter ops q = r # rs \<Longrightarrow> \<exists>q'. q_pop_request ops q = Inr (r, q') \<and> invar q' \<and> q_iter ops q' = rs"
    and peek_empty: "invar q \<Longrightarrow> q_iter ops q = [] \<Longrightarrow> q_peek_request ops q = Inl IndexError"
    and peek_first: "invar q \<Longrightarrow> q_iter ops q = r # rs \<Longrightarrow> q_peek_request ops q = Inr r"
    and bool_law: "invar q \<Longrightarrow> q_bool ops q \<longleftrightarrow> q_iter ops q \<noteq> []"
    and len_law: "invar q \<Longrightarrow> q_len ops q = length (q_iter ops q)"
begin

lemma call_refines:
  assumes "invar q"
  shows "invar (snd (call ops c q)) \<and> fst (call ops c q) = fst (spec_call before c (q_iter ops q))
    \<and> q_iter ops (snd (call ops c q)) = snd (spec_call before c (q_iter ops q))"
proof (cases c)
  case Pop_Request
  then show ?thesis using assms pop_empty [OF assms] pop_first [OF assms] by (cases "q_iter ops q") fastforce+
next
  case Peek_Request
  then show ?thesis using assms peek_empty [OF assms] peek_first [OF assms] by (cases "q_iter ops q") auto
qed (use assms add_request add_requests prepend_request prepend_requests remove_by_ids in simp_all)

lemma run_refines:
  assumes "invar q"
  shows "invar (snd (run_calls (call ops) cs q)) \<and> fst (run_calls (call ops) cs q) = fst (run_calls (spec_call before) cs (q_iter ops q))
    \<and> q_iter ops (snd (run_calls (call ops) cs q)) = snd (run_calls (spec_call before) cs (q_iter ops q))"
  using assms
proof (induction cs arbitrary: q)
  case (Cons c cs)
  note C = call_refines [OF Cons.prems, of c]
  have "invar (snd (call ops c q))" using C by blast
  from Cons.IH [OF this] show ?case using C by (simp add: split_beta)
qed simp

text \<open>What the loop has taken from the requests \<open>l\<close> that were waiting.\<close>

definition taken :: "queue_item list \<Rightarrow> int \<Rightarrow> bool \<Rightarrow> 'q taking \<Rightarrow> bool" where
  "taken l n dp t \<longleftrightarrow> invar (t_queue t) \<and> t_count t = weight (t_items t) \<and> t_count t \<le> n \<and> (\<not> dp \<longrightarrow> t_pending t = [])
     \<and> (\<exists>k \<le> length l. q_iter ops (t_queue t) = drop k l \<and> take k l \<in> shuffles (t_items t) (t_pending t))"

definition stopped :: "int \<Rightarrow> 'q taking \<Rightarrow> bool" where
  "stopped n t \<longleftrightarrow> n \<le> t_count t \<or> q_iter ops (t_queue t) = []
     \<or> (\<exists>r rs. q_iter ops (t_queue t) = r # rs \<and> n < t_count t + 1 + num_children r)"

lemma take_step_taken:
  assumes "taken l n dp t" "q_iter ops (t_queue t) = r # rs" "take_step ops n dp m t = Inr (go, t')"
  shows "taken l n dp t' \<and> (if go then length (q_iter ops (t_queue t')) < length (q_iter ops (t_queue t)) else stopped n t')"
proof -
  have inv: "invar (t_queue t)" using assms(1) by (simp add: taken_def)
  obtain q' where q': "q_pop_request ops (t_queue t) = Inr (r, q')" "invar q'" "q_iter ops q' = rs" using pop_first [OF inv assms(2)] by blast
  obtain k where k: "k \<le> length l" "drop k l = r # rs" "take k l \<in> shuffles (t_items t) (t_pending t)"
    using assms(1) unfolding taken_def assms(2) by metis
  have k': "Suc k \<le> length l" "drop (Suc k) l = rs" "take (Suc k) l = take k l @ [r]"
    using k(2) by (metis drop_eq_Nil not_less_eq_eq list.distinct(1), metis drop_Suc list.sel(3) tl_drop,
        metis append_eq_conv_conj append_take_drop_id drop_eq_Nil hd_drop_conv_nth linorder_not_less list.distinct(1) list.sel(1) take_Suc_conv_app_nth)
  show ?thesis
  proof (cases "n < t_count t + 1 + num_children r")
    case True
    then have "go = False" "t' = t" using assms(3) peek_first [OF inv assms(2)] by (simp_all add: take_step_def)
    then show ?thesis using assms(1,2) True by (auto simp: stopped_def)
  next
    case False
    obtain ok ranks where can: "(if dp then can_process_attention_dp_request r (t_ranks t) m else Inr (True, t_ranks t)) = Inr (ok, ranks)"
      and go: "go = True"
      and t': "t' = (if ok then t\<lparr>t_queue := q', t_items := t_items t @ [r], t_count := t_count t + (1 + num_children r), t_ranks := ranks\<rparr>
         else t\<lparr>t_queue := q', t_pending := t_pending t @ [r], t_ranks := ranks\<rparr>)"
      using assms(3) peek_first [OF inv assms(2)] q'(1) False by (auto simp: take_step_def bindR_eq_Inr_iff)
    have len: "length (q_iter ops (t_queue t')) < length (q_iter ops (t_queue t))" using t' q'(3) assms(2) by auto
    show ?thesis
    proof (cases ok)
      case True
      have "take (Suc k) l \<in> shuffles (t_items t @ [r]) (t_pending t)" using k' shuffles_snoc_left [OF k(3)] by simp
      then have "taken l n dp t'"
        using True t' q' k' assms(1) False unfolding taken_def by (auto simp: weight_def intro!: exI [of _ "Suc k"])
      then show ?thesis using go len by simp
    next
      case nok: False
      have "dp" using can nok by (cases dp) auto
      moreover have "take (Suc k) l \<in> shuffles (t_items t) (t_pending t @ [r])" using k' shuffles_snoc_right [OF k(3)] by simp
      ultimately have "taken l n dp t'"
        using nok t' q' k' assms(1) unfolding taken_def by (auto intro!: exI [of _ "Suc k"])
      then show ?thesis using go len by simp
    qed
  qed
qed

lemma take_loop_taken:
  assumes "taken l n dp t"
  shows "\<exists>out. take_loop ops n dp m t = Some out \<and> (\<forall>t'. out = Inr t' \<longrightarrow> taken l n dp t' \<and> stopped n t')"
  using assms
proof (induction "length (q_iter ops (t_queue t))" arbitrary: t rule: less_induct)
  case less
  have b: "q_bool ops (t_queue t) \<longleftrightarrow> q_iter ops (t_queue t) \<noteq> []" using less.prems bool_law by (simp add: taken_def)
  show ?case
  proof (cases "t_count t < n \<and> q_iter ops (t_queue t) \<noteq> []")
    case False
    then show ?thesis using less.prems b by (auto simp: take_loop.simps [of ops n dp m t] stopped_def)
  next
    case True
    then obtain r rs where r: "q_iter ops (t_queue t) = r # rs" by (auto simp: neq_Nil_conv)
    show ?thesis
    proof (cases "take_step ops n dp m t")
      case (Inl e)
      then show ?thesis using True b by (simp add: take_loop.simps [of ops n dp m t])
    next
      case (Inr p)
      obtain go t' where p: "p = (go, t')" by fastforce
      note S = take_step_taken [OF less.prems r Inr [unfolded p]]
      show ?thesis
      proof (cases go)
        case True
        then have "taken l n dp t'" "length (q_iter ops (t_queue t')) < length (q_iter ops (t_queue t))" using S by auto
        from less.hyps [OF this(2,1)] show ?thesis
          using True Inr p \<open>t_count t < n \<and> q_iter ops (t_queue t) \<noteq> []\<close> b by (simp add: take_loop.simps [of ops n dp m t])
      next
        case False
        then show ?thesis
          using S Inr p \<open>t_count t < n \<and> q_iter ops (t_queue t) \<noteq> []\<close> b by (simp add: take_loop.simps [of ops n dp m t])
      qed
    qed
  qed
qed

lemma get_from_queue:
  assumes "invar q"
  shows "\<exists>out. get_from_waiting_queue ops q n dp m ranks = Some out \<and> (\<forall>items q'. out = Inr (items, q') \<longrightarrow>
    invar q' \<and> weight items \<le> max 0 n
    \<and> (\<exists>k pending. k \<le> length (q_iter ops q) \<and> take k (q_iter ops q) \<in> shuffles items pending \<and> (\<not> dp \<longrightarrow> pending = [])
         \<and> q_iter ops q' = pending @ drop k (q_iter ops q)
         \<and> (n \<le> weight items \<or> k = length (q_iter ops q) \<or> n < weight items + 1 + num_children (q_iter ops q ! k))))"
proof (cases "n \<le> 0 \<or> dp \<and> ranks = None")
  case True
  then show ?thesis using assms by (auto simp: get_from_waiting_queue_def weight_def intro!: exI [of _ 0] exI [of _ "[]"])
next
  case False
  define l where "l = q_iter ops q"
  define t0 where "t0 = \<lparr>t_queue = q, t_count = 0, t_items = [], t_pending = [], t_ranks = (case ranks of None \<Rightarrow> [] | Some ns \<Rightarrow> ns)\<rparr>"
  have "taken l n dp t0" using False assms by (auto simp: taken_def t0_def weight_def l_def intro!: exI [of _ 0])
  then obtain out where out: "take_loop ops n dp m t0 = Some out" "\<forall>t'. out = Inr t' \<longrightarrow> taken l n dp t' \<and> stopped n t'"
    using take_loop_taken by blast
  have get: "get_from_waiting_queue ops q n dp m ranks
      = Some (bindR out (\<lambda>t. Inr (t_items t, q_prepend_requests ops (t_pending t) (t_queue t))))"
    using False out(1) by (auto simp: get_from_waiting_queue_def t0_def)
  have "invar q' \<and> weight items \<le> max 0 n
    \<and> (\<exists>k pending. k \<le> length l \<and> take k l \<in> shuffles items pending \<and> (\<not> dp \<longrightarrow> pending = []) \<and> q_iter ops q' = pending @ drop k l
         \<and> (n \<le> weight items \<or> k = length l \<or> n < weight items + 1 + num_children (l ! k)))"
    if eq: "bindR out (\<lambda>t. Inr (t_items t, q_prepend_requests ops (t_pending t) (t_queue t))) = Inr (items, q')" for items q'
  proof -
    obtain t where t: "out = Inr t" "items = t_items t" "q' = q_prepend_requests ops (t_pending t) (t_queue t)"
      using eq by (auto simp: bindR_eq_Inr_iff)
    then have tk: "taken l n dp t" "stopped n t" using out(2) by auto
    then obtain k where k: "k \<le> length l" "q_iter ops (t_queue t) = drop k l" "take k l \<in> shuffles items (t_pending t)"
      unfolding taken_def t(2) by blast
    have inv: "invar (t_queue t)" "weight items \<le> max 0 n" "\<not> dp \<longrightarrow> t_pending t = []" "t_count t = weight items"
      using tk(1) t(2) by (auto simp: taken_def)
    have "subseq (t_pending t @ drop k l) (take k l @ drop k l)" by (intro list_emb_append_mono shuffles_subseq [OF k(3)]) simp
    then have "subseq (t_pending t @ drop k l) l" by simp
    then have "sorted_wrt (\<lambda>x y. \<not> before y x) (t_pending t @ drop k l)" using ordered [OF assms] sorted_wrt_subseq unfolding l_def by blast
    then have iter: "q_iter ops q' = t_pending t @ drop k l" "invar q'"
      using prepend_requests [OF inv(1), of "t_pending t"] k(2) t(3) foldr_spec_prepend by simp_all
    have "n \<le> weight items \<or> k = length l \<or> n < weight items + 1 + num_children (l ! k)"
      using tk(2) k(1,2) inv(4) by (auto simp: stopped_def) (metis hd_drop_conv_nth le_neq_implies_less list.sel(1))
    then show ?thesis using iter k(1,3) inv by blast
  qed
  then show ?thesis unfolding get l_def by blast
qed

lemma get_from_queue_no_dp:
  assumes "invar q"
  shows "\<exists>items q'. get_from_waiting_queue ops q n False m ranks = Some (Inr (items, q'))"
proof -
  have "\<exists>t'. take_loop ops n False m t = Some (Inr t')" if "taken l n False t" for t l
    using that
  proof (induction "length (q_iter ops (t_queue t))" arbitrary: t rule: less_induct)
    case less
    have inv: "invar (t_queue t)" using less.prems by (simp add: taken_def)
    show ?case
    proof (cases "t_count t < n \<and> q_iter ops (t_queue t) \<noteq> []")
      case True
      then obtain r rs where r: "q_iter ops (t_queue t) = r # rs" by (auto simp: neq_Nil_conv)
      obtain q' where "q_pop_request ops (t_queue t) = Inr (r, q')" using pop_first [OF inv r] by blast
      then have "\<exists>p. take_step ops n False m t = Inr p" using peek_first [OF inv r] by (auto simp: take_step_def)
      then obtain go t' where s: "take_step ops n False m t = Inr (go, t')" by (metis surj_pair)
      show ?thesis
        using less.hyps [of t'] take_step_taken [OF less.prems r s] s True bool_law [OF inv]
        by (cases go) (simp_all add: take_loop.simps [of ops n False m t])
    qed (use bool_law [OF inv] in \<open>auto simp: take_loop.simps [of ops n False m t]\<close>)
  qed
  moreover have "taken (q_iter ops q) n False \<lparr>t_queue = q, t_count = 0, t_items = [], t_pending = [], t_ranks = (case ranks of None \<Rightarrow> [] | Some ns \<Rightarrow> ns)\<rparr>" if "0 < n"
    using assms that by (auto simp: taken_def weight_def intro!: exI [of _ 0])
  ultimately show ?thesis by (cases "n \<le> 0") (auto simp: get_from_waiting_queue_def, force)
qed

end

section \<open>Both queues\<close>

definition no_order :: "queue_item \<Rightarrow> queue_item \<Rightarrow> bool" where
  "no_order x y \<longleftrightarrow> False"

definition higher :: "queue_item \<Rightarrow> queue_item \<Rightarrow> bool" where
  "higher x y \<longleftrightarrow> get_priority y < get_priority x"

lemma spec_no_order: "spec_add no_order r l = l @ [r]" "spec_prepend no_order r l = r # l"
  "fold (spec_add no_order) rs l = l @ rs" "foldr (spec_prepend no_order) rs l = rs @ l"
proof -
  show a: "spec_add no_order r l = l @ [r]" for r l by (simp add: spec_add_def no_order_def takeWhile_eq_all_conv dropWhile_eq_Nil_conv)
  show p: "spec_prepend no_order r l = r # l" for r l by (cases l) (simp_all add: spec_prepend_def no_order_def)
  show "fold (spec_add no_order) rs l = l @ rs" by (induction rs arbitrary: l) (simp_all add: a)
  show "foldr (spec_prepend no_order) rs l = rs @ l" by (induction rs) (simp_all add: p)
qed

lemma fold_Cons_rev: "fold (#) xs ys = rev xs @ ys"
  by (induction xs arbitrary: ys) simp_all

interpretation fcfs: waiting_queue_contract fcfs_ops no_order "\<lambda>_. True"
proof
  fix q :: "queue_item list"
  show "sorted_wrt (\<lambda>x y. \<not> no_order y x) (q_iter fcfs_ops q)" by (induction q) (simp_all add: no_order_def fcfs_ops_def)
qed (auto simp: fcfs_ops_def fcfs_add_request_def fcfs_add_requests_def fcfs_prepend_request_def fcfs_prepend_requests_def
    fcfs_remove_by_ids_def spec_no_order fold_Cons_rev)

text \<open>The heap is ordered, its counters are distinct and lie between the two next ones, and its entries carry the
  negated priority.\<close>

definition pq_inv :: "priority_queue \<Rightarrow> bool" where
  "pq_inv q \<longleftrightarrow> heap_from entry_key 0 (pq_heap q) \<and> distinct (map (\<lambda>e. fst (snd e)) (pq_heap q)) \<and> pq_prepend_counter q < pq_counter q
     \<and> (\<forall>(p, c, item) \<in> set (pq_heap q). pq_prepend_counter q < c \<and> c < pq_counter q \<and> p = - get_priority item)"

lemma pq_inv_init: "pq_inv priority_init" "pq_iter priority_init = []"
  by (simp_all add: pq_inv_def priority_init_def heap_from_def pq_iter_def)

lemma pq_distinct_keys: "pq_inv q \<Longrightarrow> distinct (map entry_key (pq_heap q))"
proof -
  assume "pq_inv q"
  then have "distinct (map snd (map entry_key (pq_heap q)))" by (simp add: pq_inv_def entry_key_def o_def)
  then show ?thesis by (simp only: distinct_map)
qed

lemma insort_key_split:
  "insort_key f x ys = takeWhile (\<lambda>y. \<not> f x \<le> f y) ys @ x # dropWhile (\<lambda>y. \<not> f x \<le> f y) ys"
  by (induction ys) simp_all

lemma pq_heap_insert:
  assumes "pq_inv q" "\<forall>e \<in> set (pq_heap q). c \<noteq> fst (snd e)"
    "\<forall>e \<in> set (pq_heap q). (\<not> entry_key (- get_priority r, c, r) \<le> entry_key e) \<longleftrightarrow> keep (snd (snd e))"
  shows "map (\<lambda>e. snd (snd e)) (sort_key entry_key (heappush entry_key (- get_priority r, c, r) (pq_heap q)))
    = takeWhile keep (pq_iter q) @ r # dropWhile keep (pq_iter q)"
proof -
  define e where "e = (- get_priority r, c, r)"
  define h where "h = sort_key entry_key (pq_heap q)"
  have "entry_key e \<notin> entry_key ` set (pq_heap q)" using assms(2) by (auto simp: e_def entry_key_def)
  then have "distinct (map entry_key (e # pq_heap q))" using pq_distinct_keys [OF assms(1)] by simp
  then have "sort_key entry_key (heappush entry_key e (pq_heap q)) = insort_key entry_key e h"
    using assms(1) unfolding h_def by (intro hq.sorted_push) (simp add: pq_inv_def)
  also have "\<dots> = takeWhile (\<lambda>y. \<not> entry_key e \<le> entry_key y) h @ e # dropWhile (\<lambda>y. \<not> entry_key e \<le> entry_key y) h"
    by (rule insort_key_split)
  also have "takeWhile (\<lambda>y. \<not> entry_key e \<le> entry_key y) h = takeWhile (keep \<circ> (\<lambda>e. snd (snd e))) h"
    using assms(3) by (intro takeWhile_cong) (simp_all add: h_def e_def)
  also have "dropWhile (\<lambda>y. \<not> entry_key e \<le> entry_key y) h = dropWhile (keep \<circ> (\<lambda>e. snd (snd e))) h"
    using assms(3) by (intro dropWhile_cong) (simp_all add: h_def e_def)
  finally have "map (\<lambda>e. snd (snd e)) (sort_key entry_key (heappush entry_key e (pq_heap q)))
      = map (\<lambda>e. snd (snd e)) (takeWhile (keep \<circ> (\<lambda>e. snd (snd e))) h) @ r # map (\<lambda>e. snd (snd e)) (dropWhile (keep \<circ> (\<lambda>e. snd (snd e))) h)"
    by (simp add: e_def o_def)
  then show ?thesis unfolding pq_iter_def h_def [symmetric] e_def takeWhile_map dropWhile_map .
qed

lemma pq_set_push: "heap_from key 0 h \<Longrightarrow> set (heappush key x h) = insert x (set h)"
  using heappush_heap [of key h x] by (metis set_mset_add_mset_insert set_mset_mset)

lemma pq_counters_push:
  "heap_from key 0 h \<Longrightarrow> distinct (map f (heappush key x h)) \<longleftrightarrow> f x \<notin> f ` set h \<and> distinct (map f h)"
proof -
  assume "heap_from key 0 h"
  then have "mset (map f (heappush key x h)) = mset (map f (x # h))" using heappush_heap [of key h x] by simp
  then have "distinct (map f (heappush key x h)) \<longleftrightarrow> distinct (map f (x # h))" by (rule mset_eq_imp_distinct_iff)
  then show ?thesis by simp
qed

lemma pq_push_ok:
  assumes "pq_inv q"
  shows "pq_inv (pq_push r q) \<and> pq_iter (pq_push r q) = spec_add higher r (pq_iter q)"
proof
  have heap: "heap_from entry_key 0 (pq_heap q)" and entries: "\<forall>(p, c, item) \<in> set (pq_heap q). pq_prepend_counter q < c \<and> c < pq_counter q \<and> p = - get_priority item"
    and counters: "pq_prepend_counter q < pq_counter q" "distinct (map (\<lambda>e. fst (snd e)) (pq_heap q))"
    using assms by (simp_all add: pq_inv_def)
  have fresh: "pq_counter q \<notin> (\<lambda>e. fst (snd e)) ` set (pq_heap q)" using entries by auto
  show "pq_inv (pq_push r q)"
    using heap entries counters fresh heappush_heap [OF heap]
    by (auto simp: pq_inv_def pq_push_def pq_set_push pq_counters_push)
  show "pq_iter (pq_push r q) = spec_add higher r (pq_iter q)"
    unfolding spec_add_def using entries fresh
    by (subst pq_heap_insert [OF assms, where c = "pq_counter q" and r = r, symmetric])
      (auto simp: pq_iter_def pq_push_def higher_def entry_key_def less_eq_prod_def)
qed

lemma pq_push_front_ok:
  assumes "pq_inv q"
  shows "pq_inv (pq_push_front r q) \<and> pq_iter (pq_push_front r q) = spec_prepend higher r (pq_iter q)"
proof
  have heap: "heap_from entry_key 0 (pq_heap q)" and entries: "\<forall>(p, c, item) \<in> set (pq_heap q). pq_prepend_counter q < c \<and> c < pq_counter q \<and> p = - get_priority item"
    and counters: "pq_prepend_counter q < pq_counter q" "distinct (map (\<lambda>e. fst (snd e)) (pq_heap q))"
    using assms by (simp_all add: pq_inv_def)
  have fresh: "pq_prepend_counter q \<notin> (\<lambda>e. fst (snd e)) ` set (pq_heap q)" using entries by auto
  show "pq_inv (pq_push_front r q)"
    using heap entries counters fresh heappush_heap [OF heap]
    by (auto simp: pq_inv_def pq_push_front_def pq_set_push pq_counters_push)
  show "pq_iter (pq_push_front r q) = spec_prepend higher r (pq_iter q)"
    unfolding spec_prepend_def using entries fresh
    by (subst pq_heap_insert [OF assms, where c = "pq_prepend_counter q" and r = r, symmetric])
      (auto simp: pq_iter_def pq_push_front_def higher_def entry_key_def less_eq_prod_def)
qed

lemma pq_inv_subset:
  assumes "pq_inv q" "heap_from entry_key 0 h" "mset h \<subseteq># mset (pq_heap q)"
  shows "pq_inv (q\<lparr>pq_heap := h\<rparr>)"
proof -
  have "mset (map (\<lambda>e. fst (snd e)) h) \<subseteq># mset (map (\<lambda>e. fst (snd e)) (pq_heap q))"
    using image_mset_subseteq_mono [OF assms(3), of "\<lambda>e. fst (snd e)"] by simp
  from distinct_submset [OF this] have "distinct (map (\<lambda>e. fst (snd e)) h)" using assms(1) by (simp add: pq_inv_def)
  moreover have "set h \<subseteq> set (pq_heap q)" using set_mset_mono [OF assms(3)] by simp
  ultimately show ?thesis using assms(1,2) by (auto simp: pq_inv_def)
qed

lemma pq_pop_ok:
  assumes "pq_inv q" "pq_iter q = r # rs"
  shows "\<exists>q'. pq_pop_request q = Inr (r, q') \<and> pq_inv q' \<and> pq_iter q' = rs" "pq_peek_request q = Inr r"
proof -
  have ne: "pq_heap q \<noteq> []" using assms(2) by (auto simp: pq_iter_def)
  obtain m rest where pop: "heappop entry_key (pq_heap q) = (m, rest)" by fastforce
  note P = hq.sorted_pop [OF _ ne pq_distinct_keys [OF assms(1)] pop]
  have heap: "heap_from entry_key 0 (pq_heap q)" using assms(1) by (simp add: pq_inv_def)
  have r: "snd (snd m) = r" "map (\<lambda>e. snd (snd e)) (sort_key entry_key rest) = rs"
    using P(1) [OF heap] assms(2) by (simp_all add: pq_iter_def)
  have "pq_inv (q\<lparr>pq_heap := rest\<rparr>)" using P(2,4) [OF heap] by (intro pq_inv_subset [OF assms(1)]) simp_all
  then show "\<exists>q'. pq_pop_request q = Inr (r, q') \<and> pq_inv q' \<and> pq_iter q' = rs"
    using pop ne r by (auto simp: pq_pop_request_def pq_iter_def split: prod.splits)
  show "pq_peek_request q = Inr r" using ne r(1) P(3) [OF heap] by (simp add: pq_peek_request_def)
qed

lemma pq_remove_ok:
  assumes "pq_inv q"
  shows "pq_inv (pq_remove_by_ids ids q) \<and> pq_iter (pq_remove_by_ids ids q) = filter (\<lambda>r. item_id r \<notin> ids) (pq_iter q)"
proof
  define h where "h = filter (\<lambda>e. item_id (snd (snd e)) \<notin> ids) (pq_heap q)"
  have h: "heap_from entry_key 0 (heapify entry_key h)" "mset (heapify entry_key h) = mset h" using heapify_heap by blast+
  then show "pq_inv (pq_remove_by_ids ids q)"
    unfolding pq_remove_by_ids_def h_def [symmetric] by (intro pq_inv_subset [OF assms]) (simp_all add: h_def)
  have "distinct (map entry_key h)" using pq_distinct_keys [OF assms] by (simp add: h_def distinct_map_filter)
  then show "pq_iter (pq_remove_by_ids ids q) = filter (\<lambda>r. item_id r \<notin> ids) (pq_iter q)"
    unfolding pq_remove_by_ids_def h_def [symmetric] pq_iter_def
    by (simp add: hq.sorted_build) (simp add: h_def filter_map filter_sort o_def)
qed

lemma pq_entry: "pq_inv q \<Longrightarrow> e \<in> set (pq_heap q) \<Longrightarrow> fst e = - get_priority (snd (snd e))"
  by (cases e) (auto simp: pq_inv_def)

lemma pq_ordered:
  assumes "pq_inv q"
  shows "sorted_wrt (\<lambda>x y. \<not> higher y x) (pq_iter q)"
proof -
  have "sorted_wrt (\<lambda>a b. entry_key a \<le> entry_key b) (sort_key entry_key (pq_heap q))"
    using sorted_sort_key [of entry_key "pq_heap q"] by (simp only: sorted_map)
  moreover have "\<not> higher (snd (snd b)) (snd (snd a))"
    if "a \<in> set (pq_heap q)" "b \<in> set (pq_heap q)" "entry_key a \<le> entry_key b" for a b
    using that pq_entry [OF assms that(1)] pq_entry [OF assms that(2)] by (auto simp: higher_def entry_key_def less_eq_prod_def)
  ultimately show ?thesis unfolding pq_iter_def sorted_wrt_map
    by (rule sorted_wrt_mono_rel [rotated]) (simp_all only: set_sort)
qed

lemma pq_fold_ok:
  assumes "pq_inv q" "\<And>q r. pq_inv q \<Longrightarrow> pq_inv (push r q) \<and> pq_iter (push r q) = ins r (pq_iter q)"
  shows "pq_inv (fold push rs q) \<and> pq_iter (fold push rs q) = fold ins rs (pq_iter q)"
  using assms(1) by (induction rs arbitrary: q) (simp_all add: assms(2))

lemmas priority_defs = priority_ops_def pq_add_request_def pq_add_requests_def pq_prepend_request_def pq_prepend_requests_def

interpretation prio: waiting_queue_contract priority_ops higher pq_inv
proof
  fix q r rs ids
  assume inv: "pq_inv q"
  have len: "length (pq_heap q) = length (pq_iter q)" by (simp add: pq_iter_def)
  show "sorted_wrt (\<lambda>x y. \<not> higher y x) (q_iter priority_ops q)" using pq_ordered [OF inv] by (simp add: priority_ops_def)
  show "pq_inv (q_add_request priority_ops r q) \<and> q_iter priority_ops (q_add_request priority_ops r q) = spec_add higher r (q_iter priority_ops q)"
    using pq_push_ok [OF inv] by (simp add: priority_defs)
  show "pq_inv (q_add_requests priority_ops rs q) \<and> q_iter priority_ops (q_add_requests priority_ops rs q) = fold (spec_add higher) rs (q_iter priority_ops q)"
    using pq_fold_ok [of q pq_push "spec_add higher" rs, OF inv pq_push_ok] by (simp add: priority_defs)
  show "pq_inv (q_prepend_request priority_ops r q) \<and> q_iter priority_ops (q_prepend_request priority_ops r q) = spec_prepend higher r (q_iter priority_ops q)"
    using pq_push_front_ok [OF inv] by (simp add: priority_defs)
  show "pq_inv (q_prepend_requests priority_ops rs q) \<and> q_iter priority_ops (q_prepend_requests priority_ops rs q) = foldr (spec_prepend higher) rs (q_iter priority_ops q)"
    using pq_fold_ok [of q pq_push_front "spec_prepend higher" "rev rs", OF inv pq_push_front_ok] by (simp add: priority_defs foldr_conv_fold)
  show "pq_inv (q_remove_by_ids priority_ops ids q) \<and> q_iter priority_ops (q_remove_by_ids priority_ops ids q) = filter (\<lambda>r. item_id r \<notin> ids) (q_iter priority_ops q)"
    using pq_remove_ok [OF inv] by (simp add: priority_ops_def)
  show "q_pop_request priority_ops q = Inl IndexError" "q_peek_request priority_ops q = Inl IndexError" if "q_iter priority_ops q = []"
    using that len by (simp_all add: priority_ops_def pq_pop_request_def pq_peek_request_def)
  show "\<exists>q'. q_pop_request priority_ops q = Inr (r, q') \<and> pq_inv q' \<and> q_iter priority_ops q' = rs" "q_peek_request priority_ops q = Inr r"
    if "q_iter priority_ops q = r # rs"
    using that pq_pop_ok [OF inv] by (simp_all add: priority_ops_def)
  show "q_bool priority_ops q \<longleftrightarrow> q_iter priority_ops q \<noteq> []" "q_len priority_ops q = length (q_iter priority_ops q)"
    using len by (auto simp: priority_ops_def)
qed

section \<open>Properties\<close>

text \<open>C9: both waiting queues refine a list in the order of service. Whatever the calls since the queue was created, pops and
  peeks answer as the list does (\<open>IndexError\<close> exactly when it is empty), and the queue iterates over the list:
  added requests come after, prepended ones before, the waiting requests of the same priority.\<close>

theorem waiting_queues_refine_lists:
  "fst (run_calls (call fcfs_ops) cs []) = fst (run_calls (spec_call no_order) cs [])
   \<and> q_iter fcfs_ops (snd (run_calls (call fcfs_ops) cs [])) = snd (run_calls (spec_call no_order) cs [])
   \<and> fst (run_calls (call priority_ops) cs priority_init) = fst (run_calls (spec_call higher) cs [])
   \<and> q_iter priority_ops (snd (run_calls (call priority_ops) cs priority_init)) = snd (run_calls (spec_call higher) cs [])"
proof -
  have "q_iter fcfs_ops [] = []" "q_iter priority_ops priority_init = []" using pq_inv_init(2) by (simp_all add: fcfs_ops_def priority_ops_def)
  then show ?thesis using fcfs.run_refines [where q = "[]" and cs = cs] prio.run_refines [OF pq_inv_init(1), of cs] by simp
qed

text \<open>C10: taking requests from the priority queue always ends. What was taken costs at most the number asked for; the requests
  taken and those put back are the first waiting ones, each in their order; the queue keeps its order, those put back
  standing first; and nothing more could be taken: the number is used up, or no request is left to look at, or the next
  one has too many children. Without attention parallelism nothing is put back and no error is raised.\<close>

theorem get_from_priority_queue_keeps_order:
  fixes calls :: "queue_call list"
  defines "q \<equiv> snd (run_calls (call priority_ops) calls priority_init)"
  shows "\<exists>out. get_from_waiting_queue priority_ops q n dp m ranks = Some out
    \<and> (dp \<or> (\<exists>items q'. out = Inr (items, q')))
    \<and> (\<forall>items q'. out = Inr (items, q') \<longrightarrow> weight items \<le> max 0 n
      \<and> (\<exists>k pending. k \<le> length (pq_iter q) \<and> take k (pq_iter q) \<in> shuffles items pending \<and> (\<not> dp \<longrightarrow> pending = [])
           \<and> pq_iter q' = pending @ drop k (pq_iter q)
           \<and> (n \<le> weight items \<or> k = length (pq_iter q) \<or> n < weight items + 1 + num_children (pq_iter q ! k))))"
proof -
  have inv: "pq_inv q" unfolding q_def using prio.run_refines [OF pq_inv_init(1), of calls] by blast
  have iter: "q_iter priority_ops = pq_iter" by (simp add: priority_ops_def)
  obtain out where out: "get_from_waiting_queue priority_ops q n dp m ranks = Some out"
    "\<forall>items q'. out = Inr (items, q') \<longrightarrow> pq_inv q' \<and> weight items \<le> max 0 n
      \<and> (\<exists>k pending. k \<le> length (pq_iter q) \<and> take k (pq_iter q) \<in> shuffles items pending \<and> (\<not> dp \<longrightarrow> pending = [])
           \<and> pq_iter q' = pending @ drop k (pq_iter q)
           \<and> (n \<le> weight items \<or> k = length (pq_iter q) \<or> n < weight items + 1 + num_children (pq_iter q ! k)))"
    using prio.get_from_queue [OF inv, of n dp m ranks] unfolding iter by (elim exE conjE)
  have "dp \<or> (\<exists>items q'. out = Inr (items, q'))" using prio.get_from_queue_no_dp [OF inv, of n m ranks] out(1) by (cases dp) auto
  then show ?thesis using out by blast
qed

text \<open>A request of high priority among two others, taken one at a time.\<close>

definition waiting_item :: "int \<Rightarrow> rat \<Rightarrow> queue_item" where
  "waiting_item i p = \<lparr>item_id = i, item_request = Some \<lparr>priority = p, py_scheduling_params = None, num_input_tokens = None, input_token_ids = [],
     py_conversation_params = None, request_lora_config = None, cache_salt = None\<rparr>, child_req_ids = None\<rparr>"

theorem get_from_priority_queue_keeps_order_witness:
  "\<exists>out. get_from_waiting_queue priority_ops
       (snd (run_calls (call priority_ops) [Add_Requests [waiting_item 1 0, waiting_item 2 1, waiting_item 3 0]] priority_init)) 2 False 4 None = Some out
     \<and> (\<exists>items q'. out = Inr (items, q') \<and> weight items \<le> 2)"
  using get_from_priority_queue_keeps_order [of "[Add_Requests [waiting_item 1 0, waiting_item 2 1, waiting_item 3 0]]" 2 False 4 None]
  by auto

end
