(* ===== verification/Context_Partition.thy ===== *)
theory Context_Partition
  imports Mapping_Topology
begin

text \<open>
  How the prompt of a request is dealt out to the ranks of a context-parallel group: \<open>partition_context_for_helix\<close> of
  \<^verbatim>\<open>src/tensorrt_llm/_torch/pyexecutor/request_utils.py\<close>. A tensor of one row is the list of its entries; the tensor
  operations on rows are arguments, of which the documented behaviour is a hypothesis.
\<close>

section \<open>The partition\<close>

record row_ops =
  row_zeros :: "int \<Rightarrow> int list"
  row_arange :: "int \<Rightarrow> int list"
  row_cat :: "int list list \<Rightarrow> int list"
  row_split :: "int \<Rightarrow> int list \<Rightarrow> int list list res"

text \<open>The slice \<open>xs[start::step]\<close> for a start and a step that are not negative.\<close>

definition strided :: "nat \<Rightarrow> nat \<Rightarrow> 'a list \<Rightarrow> 'a list res" where
  "strided start step xs = guardR (step \<noteq> 0) ValueError
     (Inr (map (\<lambda>i. xs ! i) (filter (\<lambda>i. start \<le> i \<and> (i - start) mod step = 0) [0..<length xs])))"

definition drop_last :: "int \<Rightarrow> 'a list \<Rightarrow> 'a list" where
  "drop_last n xs = take (length xs - nat n) xs"

definition helix_padding :: "int \<Rightarrow> int \<Rightarrow> int" where
  "helix_padding input_len tokens_per_block =
     (if input_len mod tokens_per_block \<noteq> 0 then tokens_per_block - input_len mod tokens_per_block else 0)"

definition partition_context_for_helix ::
    "row_ops \<Rightarrow> int list \<Rightarrow> nat \<Rightarrow> nat \<Rightarrow> int \<Rightarrow> (int list \<times> int list \<times> int \<times> int) res" where
  "partition_context_for_helix R input_token_ids group_rank group_size tokens_per_block =
     (let input_len = int (length input_token_ids)
      in bindR (floordiv (input_len + tokens_per_block - 1) tokens_per_block) (\<lambda>num_total_blocks.
      guardR (num_total_blocks \<noteq> 0) ValueError (
        let padding_len = helix_padding input_len tokens_per_block;
            all_input_ids = (if padding_len \<noteq> 0 then row_cat R [input_token_ids, row_zeros R padding_len] else input_token_ids);
            all_position_ids = row_arange R (input_len + padding_len)
        in bindR (row_split R tokens_per_block all_input_ids) (\<lambda>input_id_blocks.
           bindR (row_split R tokens_per_block all_position_ids) (\<lambda>position_id_blocks.
           bindR (strided group_rank group_size input_id_blocks) (\<lambda>curank_input_blocks.
           bindR (strided group_rank group_size position_id_blocks) (\<lambda>curank_position_blocks.
             if curank_input_blocks = [] then Inr ([], [], input_len, padding_len)
             else
               let input_ids = row_cat R curank_input_blocks;
                   position_ids = row_cat R curank_position_blocks;
                   strip = (int group_rank = (num_total_blocks - 1) mod int group_size \<and> 0 < padding_len)
               in Inr (if strip then drop_last padding_len input_ids else input_ids,
                       if strip then drop_last padding_len position_ids else position_ids, input_len, padding_len))))))))"

section \<open>Blocks and strides\<close>

definition rows_documented :: "row_ops \<Rightarrow> bool" where
  "rows_documented R \<longleftrightarrow> (\<forall>n. 0 \<le> n \<longrightarrow> row_zeros R n = replicate (nat n) 0) \<and> (\<forall>n. 0 \<le> n \<longrightarrow> row_arange R n = [0..n - 1])
     \<and> (\<forall>xss. xss \<noteq> [] \<longrightarrow> row_cat R xss = concat xss)
     \<and> (\<forall>k xs. 0 < k \<and> xs \<noteq> [] \<longrightarrow> (\<exists>yss. row_split R k xs = Inr yss \<and> concat yss = xs \<and> yss \<noteq> []
          \<and> (\<forall>ys \<in> set (butlast yss). int (length ys) = k) \<and> last yss \<noteq> [] \<and> int (length (last yss)) \<le> k))"

lemma length_concat_const: "\<forall>ys \<in> set yss. length ys = t \<Longrightarrow> length (concat yss) = length yss * t"
  by (induction yss) auto

text \<open>When the blocks fill the row, all of them are full.\<close>

lemma split_full:
  assumes "rows_documented R" "0 < t" "length xs = b * t" "0 < b"
  obtains yss where "row_split R (int t) xs = Inr yss" "concat yss = xs" "length yss = b" "\<forall>ys \<in> set yss. length ys = t"
proof -
  have "xs \<noteq> []" using assms by auto
  then obtain yss where y: "row_split R (int t) xs = Inr yss" "concat yss = xs" "yss \<noteq> []" "\<forall>ys \<in> set (butlast yss). length ys = t"
      "last yss \<noteq> []" "length (last yss) \<le> t"
    using assms(1) [unfolded rows_documented_def, THEN conjunct2, THEN conjunct2, THEN conjunct2, rule_format, of "int t" xs] assms(2) by auto
  define init l where "init = butlast yss" and "l = last yss"
  have yss: "yss = init @ [l]" unfolding init_def l_def using y(3) by simp
  have len: "b * t = length init * t + length l"
    using arg_cong [OF y(2), of length] length_concat_const [OF y(4) [folded init_def]] assms(3) unfolding yss by simp
  then have "t dvd length init * t + length l" by (metis dvd_triv_right)
  then have "t dvd length l" by (simp add: dvd_add_right_iff)
  then have "length l = t" using y(5,6) [folded l_def] dvd_imp_le [of t "length l"] by simp
  then have full: "\<forall>ys \<in> set yss. length ys = t" using y(4) [folded init_def] unfolding yss by auto
  then have "length yss * t = b * t" using length_concat_const [OF full] y(2) assms(3) by metis
  then have "length yss = b" using assms(2) by simp
  then show thesis using that y(1,2) full by blast
qed

lemma strided_mod: "r < c \<Longrightarrow> ((r::nat) \<le> i \<and> (i - r) mod c = 0) \<longleftrightarrow> i mod c = r"
proof
  assume "r < c" "r \<le> i \<and> (i - r) mod c = 0"
  then obtain q where "i = r + c * q" by (metis le_add_diff_inverse mod_eq_0_iff_dvd dvd_def)
  then show "i mod c = r" using \<open>r < c\<close> by simp
next
  assume "i mod c = r"
  then show "r \<le> i \<and> (i - r) mod c = 0" by (auto simp: minus_mod_eq_mult_div)
qed

text \<open>The entries at the positions of every \<open>c\<close>-th block.\<close>

definition owned :: "nat \<Rightarrow> nat \<Rightarrow> nat \<Rightarrow> nat \<Rightarrow> bool" where
  "owned t c r p \<longleftrightarrow> (p div t) mod c = r"

lemma owned_block: "0 < t \<Longrightarrow> filter (owned t c r) [b * t..<Suc b * t] = (if b mod c = r then [b * t..<Suc b * t] else [])"
proof -
  assume t: "0 < t"
  have "p div t = b" if "b * t \<le> p" "p < Suc b * t" for p
    using that t by (metis div_nat_eqI mult.commute)
  then have "\<forall>p \<in> set [b * t..<Suc b * t]. owned t c r p \<longleftrightarrow> b mod c = r" by (auto simp: owned_def)
  then show ?thesis by (auto simp: filter_id_conv filter_empty_conv)
qed

lemma concat_strided:
  assumes "0 < t" "\<forall>ys \<in> set yss. length ys = t"
  shows "concat (map (\<lambda>i. yss ! i) (filter (\<lambda>i. i mod c = r) [0..<length yss])) = map (\<lambda>p. concat yss ! p) (filter (owned t c r) [0..<length yss * t])"
  using assms(2)
proof (induction yss rule: rev_induct)
  case (snoc ys yss)
  define b where "b = length yss"
  have len: "length (concat yss) = b * t" "length ys = t" using length_concat_const [of yss t] snoc.prems by (simp_all add: b_def)
  have front: "map (\<lambda>i. (yss @ [ys]) ! i) (filter (\<lambda>i. i mod c = r) [0..<b]) = map (\<lambda>i. yss ! i) (filter (\<lambda>i. i mod c = r) [0..<b])"
    by (rule map_cong) (auto simp: nth_append b_def)
  have same: "map (\<lambda>p. concat (yss @ [ys]) ! p) (filter (owned t c r) [0..<b * t]) = map (\<lambda>p. concat yss ! p) (filter (owned t c r) [0..<b * t])"
    using len by (intro map_cong) (auto simp: nth_append)
  have block: "map (\<lambda>p. (concat yss @ ys) ! p) [b * t..<Suc b * t] = ys"
    using len by (intro nth_equalityI) (simp_all add: nth_append)
  have upt: "[0..<Suc b * t] = [0..<b * t] @ [b * t..<Suc b * t]" using upt_add_eq_append [of 0 "b * t" t] by (simp add: add.commute)
  have IH: "concat (map (\<lambda>i. yss ! i) (filter (\<lambda>i. i mod c = r) [0..<b])) = map (\<lambda>p. concat yss ! p) (filter (owned t c r) [0..<b * t])"
    using snoc by (simp add: b_def)
  have u: "[0..<length (yss @ [ys])] = [0..<b] @ [b]" "(yss @ [ys]) ! b = ys" by (simp_all add: b_def)
  have left: "concat (map (\<lambda>i. (yss @ [ys]) ! i) (filter (\<lambda>i. i mod c = r) [0..<length (yss @ [ys])]))
      = concat (map (\<lambda>i. yss ! i) (filter (\<lambda>i. i mod c = r) [0..<b])) @ (if b mod c = r then ys else [])"
    by (simp only: u(1) filter_append map_append front concat_append) (simp add: u(2))
  have "length (yss @ [ys]) * t = Suc b * t" by (simp add: b_def)
  then have "map (\<lambda>p. concat (yss @ [ys]) ! p) (filter (owned t c r) [0..<length (yss @ [ys]) * t])
      = map (\<lambda>p. concat yss ! p) (filter (owned t c r) [0..<b * t]) @ (if b mod c = r then ys else [])"
    using same block by (simp only: upt filter_append map_append owned_block [OF assms(1)]) simp
  then show ?case using left IH by simp
qed simp

section \<open>The blocks of a prompt\<close>

lemma block_count:
  assumes "0 < t" "0 < n"
  defines "B \<equiv> (n + t - 1) div t"
  shows "0 < B" "n \<le> B * t" "B * t < n + t" "helix_padding (int n) (int t) = int (B * t - n)"
    "floordiv (int n + int t - 1) (int t) = Inr (int B)"
proof -
  show "0 < B" using assms by (simp add: B_def div_greater_zero_iff)
  have "B * t + (n + t - 1) mod t = n + t - 1" unfolding B_def by simp
  moreover have "(n + t - 1) mod t < t" using assms(1) by simp
  ultimately show le: "n \<le> B * t" "B * t < n + t" using assms(1,2) by linarith+
  have "int n + int t - 1 = int (n + t - 1)" using assms(2) by (simp add: of_nat_diff)
  then show "floordiv (int n + int t - 1) (int t) = Inr (int B)" using assms(1) by (simp add: floordiv_def B_def zdiv_int)
  have n: "n = n div t * t + n mod t" "n mod t < t" using assms(1) by simp_all
  have "B * t - n = (if n mod t = 0 then 0 else t - n mod t)"
  proof (cases "n mod t = 0")
    case True
    then have "B * t < (n div t + 1) * t" "n div t * t \<le> B * t" using le n by simp_all
    then have "B < n div t + 1" "n div t \<le> B" using assms(1) by (metis mult_less_cancel2, metis mult_le_cancel2)
    then have "B = n div t" by linarith
    then show ?thesis using True n by simp
  next
    case False
    have "(n div t + 2) * t = n div t * t + 2 * t" by (simp add: algebra_simps)
    then have "B * t < (n div t + 2) * t" "n div t * t < B * t" using le n False by linarith+
    then have "B < n div t + 2" "n div t < B" by (simp_all only: mult_less_cancel2)
    then have "B = n div t + 1" by linarith
    then have "B * t = n div t * t + t" by simp
    then have "B * t - n = t - n mod t" using n by linarith
    then show ?thesis using False by simp
  qed
  then show "helix_padding (int n) (int t) = int (B * t - n)" using n(2) by (simp add: helix_padding_def of_nat_diff flip: zmod_int)
qed

lemma owned_padding:
  assumes "0 < t" "n \<le> B * t" "B * t < n + t" "0 < B"
  shows "filter (owned t c r) [0..<B * t] = filter (owned t c r) [0..<n] @ (if (B - 1) mod c = r then [n..<B * t] else [])"
proof -
  have "p div t = B - 1" if "n \<le> p" "p < B * t" for p
  proof (rule div_nat_eqI)
    have "(B - 1) * t + t = B * t" using assms(4) by (cases B) simp_all
    then show "t * (B - 1) \<le> p" using that assms(3) by (simp add: mult.commute)
    show "p < t * Suc (B - 1)" using that assms(4) by (simp add: mult.commute)
  qed
  then have "\<forall>p \<in> set [n..<B * t]. owned t c r p \<longleftrightarrow> (B - 1) mod c = r" by (auto simp: owned_def)
  then have "filter (owned t c r) [n..<B * t] = (if (B - 1) mod c = r then [n..<B * t] else [])"
    by (auto simp: filter_id_conv filter_empty_conv)
  moreover have "[0..<B * t] = [0..<n] @ [n..<B * t]" using upt_add_eq_append [of 0 n "B * t - n"] assms(2) by simp
  ultimately show ?thesis by simp
qed

text \<open>What a rank keeps of a padded row: the entries of its blocks, without the padding.\<close>

lemma kept_entries:
  assumes B: "0 < t" "n \<le> B * t" "B * t < n + t" "0 < B"
  shows "(if r = (B - 1) mod c \<and> 0 < B * t - n then drop_last (int (B * t - n)) (map f (filter (owned t c r) [0..<B * t]))
    else map f (filter (owned t c r) [0..<B * t])) = map f (filter (owned t c r) [0..<n])"
proof -
  define own pad where "own = map f (filter (owned t c r) [0..<n])" and "pad = map f [n..<B * t]"
  have len: "length pad = B * t - n" by (simp add: pad_def)
  have all: "map f (filter (owned t c r) [0..<B * t]) = own @ (if (B - 1) mod c = r then pad else [])"
    unfolding owned_padding [OF B] by (simp add: own_def pad_def)
  have "drop_last (int (length pad)) (own @ pad) = own" by (simp add: drop_last_def)
  moreover have "pad = []" if "\<not> 0 < length pad" using that by simp
  ultimately show ?thesis unfolding all own_def [symmetric] len [symmetric] by auto
qed

lemma helix_owns:
  assumes R: "rows_documented R" and t: "0 < t" and r: "r < c" and xs: "xs \<noteq> []"
  defines "n \<equiv> length xs" and "B \<equiv> (length xs + t - 1) div t"
  shows "partition_context_for_helix R xs r c (int t)
    = Inr (map (\<lambda>p. xs ! p) (filter (owned t c r) [0..<n]), map int (filter (owned t c r) [0..<n]), int n, int (B * t - n))"
proof -
  have n: "0 < n" using xs by (simp add: n_def)
  note Bdef = B_def [folded n_def]
  have cnt: "0 < B" "n \<le> B * t" "B * t < n + t" "helix_padding (int n) (int t) = int (B * t - n)" "floordiv (int n + int t - 1) (int t) = Inr (int B)"
    using block_count [OF t n] unfolding Bdef by simp_all
  define pad where "pad = B * t - n"
  define ids where "ids = xs @ replicate pad 0"
  define pos where "pos = [0..int (B * t) - 1]"
  have len: "length ids = B * t" "length pos = B * t" using cnt(2) by (simp add: ids_def pad_def n_def, simp add: pos_def del: of_nat_mult)
  obtain yss where y: "row_split R (int t) ids = Inr yss" "concat yss = ids" "length yss = B" "\<forall>ys \<in> set yss. length ys = t"
    using split_full [OF R t len(1) cnt(1)] by blast
  obtain zss where z: "row_split R (int t) pos = Inr zss" "concat zss = pos" "length zss = B" "\<forall>zs \<in> set zss. length zs = t"
    using split_full [OF R t len(2) cnt(1)] by blast
  have "row_zeros R (int pad) = replicate pad 0" "row_cat R [xs, replicate pad 0] = xs @ replicate pad 0" "row_arange R (int (B * t)) = pos"
    using R [unfolded rows_documented_def] by (simp_all add: pos_def del: of_nat_mult)
  moreover have "int n + int pad = int (B * t)" using cnt(2) unfolding pad_def by linarith
  ultimately have row: "(if int pad \<noteq> 0 then row_cat R [xs, row_zeros R (int pad)] else xs) = ids" "row_arange R (int n + int pad) = pos"
    by (simp_all add: ids_def)
  define js where "js = filter (\<lambda>i. i mod c = r) [0..<B]"
  have str: "strided r c yss = Inr (map (\<lambda>i. yss ! i) js)" "strided r c zss = Inr (map (\<lambda>i. zss ! i) js)"
    using r strided_mod [OF r] y(3) z(3) by (simp_all add: strided_def js_def)
  have own: "concat (map (\<lambda>i. yss ! i) js) = map (\<lambda>p. ids ! p) (filter (owned t c r) [0..<B * t])"
      "concat (map (\<lambda>i. zss ! i) js) = map (\<lambda>p. pos ! p) (filter (owned t c r) [0..<B * t])"
    using concat_strided [OF t y(4), of c r] concat_strided [OF t z(4), of c r] y(2,3) z(2,3) by (simp_all add: js_def)
  have "pos ! p = int p" if "p < n" for p using that cnt(2) nth_upto [of 0 p "int (B * t) - 1"] by (simp add: pos_def del: of_nat_mult)
  then have entries: "map (\<lambda>p. ids ! p) (filter (owned t c r) [0..<n]) = map (\<lambda>p. xs ! p) (filter (owned t c r) [0..<n])"
      "map (\<lambda>p. pos ! p) (filter (owned t c r) [0..<n]) = map int (filter (owned t c r) [0..<n])"
    by (auto simp: ids_def n_def nth_append)
  have "(int B - 1) mod int c = int ((B - 1) mod c)" using cnt(1) by (simp add: zmod_int of_nat_diff)
  then have strip: "int r = (int B - 1) mod int c \<and> 0 < int pad \<longleftrightarrow> r = (B - 1) mod c \<and> 0 < pad" by (simp only: of_nat_eq_iff of_nat_0_less_iff)
  note kept = kept_entries [OF t cnt(2,3,1), of r c, folded pad_def]
  note run = partition_context_for_helix_def Let_def n_def [symmetric] cnt(5) bindR_simps cnt(4) pad_def [symmetric] row y(1) z(1) str
  show ?thesis
  proof (cases "js = []")
    case True
    then have "filter (owned t c r) [0..<B * t] = []" using own(1) by simp
    then have "filter (owned t c r) [0..<n] = []" using owned_padding [OF t cnt(2,3,1), of c r] by simp
    then show ?thesis using True cnt(1) unfolding run by simp
  next
    case False
    then have cat: "row_cat R (map (\<lambda>i. yss ! i) js) = map (\<lambda>p. ids ! p) (filter (owned t c r) [0..<B * t])"
        "row_cat R (map (\<lambda>i. zss ! i) js) = map (\<lambda>p. pos ! p) (filter (owned t c r) [0..<B * t])"
      using R own by (simp_all add: rows_documented_def)
    have ne: "map (\<lambda>i. yss ! i) js \<noteq> []" using False by simp
    show ?thesis unfolding run if_not_P [OF ne] cat strip kept entries using cnt(1) by simp
  qed
qed

section \<open>Property\<close>

text \<open>C11: every position of a prompt goes to exactly one rank of the context group, with its token. Rank \<open>r\<close> of \<open>c\<close> gets,
  in order, the positions whose block has a number that is \<open>r\<close> modulo \<open>c\<close>, the tokens at these positions, the length of
  the whole prompt, and the padding that fills its last block; the padding itself goes to no rank. An empty prompt is a
  \<open>ValueError\<close>.\<close>

theorem helix_partition_exact:
  assumes "rows_documented R" "0 < t" "r < c"
  shows "\<exists>pad. 0 \<le> pad \<and> pad < int t \<and> (int (length xs) + pad) mod int t = 0
    \<and> partition_context_for_helix R xs r c (int t)
      = (if xs = [] then Inl ValueError
         else Inr (map (\<lambda>p. xs ! p) (filter (\<lambda>p. (p div t) mod c = r) [0..<length xs]),
                   map int (filter (\<lambda>p. (p div t) mod c = r) [0..<length xs]), int (length xs), pad))"
proof (cases "xs = []")
  case True
  then show ?thesis using assms(2) by (intro exI [of _ 0]) (simp add: partition_context_for_helix_def floordiv_def Let_def)
next
  case False
  define n B where "n = length xs" and "B = (n + t - 1) div t"
  have n: "0 < n" using False by (simp add: n_def)
  note C = block_count [OF assms(2) n, folded B_def]
  have "int n + int (B * t - n) = int B * int t" using C(2) by (simp add: of_nat_diff)
  moreover have "int (B * t - n) < int t" using C(2,3) assms(2) by linarith
  ultimately show ?thesis
    using helix_owns [OF assms False] False unfolding owned_def n_def [symmetric] B_def [symmetric]
    by (intro exI [of _ "int (B * t - n)"]) simp
qed

text \<open>Rows as lists.\<close>

fun chop :: "nat \<Rightarrow> nat \<Rightarrow> int list \<Rightarrow> int list list" where
  "chop 0 k xs = []"
| "chop (Suc f) k xs = (if xs = [] then [] else take k xs # chop f k (drop k xs))"

definition list_rows :: row_ops where
  "list_rows = \<lparr>row_zeros = (\<lambda>n. replicate (nat n) 0), row_arange = (\<lambda>n. [0..n - 1]), row_cat = concat,
     row_split = (\<lambda>k xs. guardR (0 < k) RuntimeError (Inr (chop (length xs) (nat k) xs)))\<rparr>"

lemma chop_blocks:
  "0 < k \<Longrightarrow> length xs \<le> f \<Longrightarrow> xs \<noteq> [] \<Longrightarrow> concat (chop f k xs) = xs \<and> chop f k xs \<noteq> []
    \<and> (\<forall>ys \<in> set (butlast (chop f k xs)). length ys = k) \<and> last (chop f k xs) \<noteq> [] \<and> length (last (chop f k xs)) \<le> k"
proof (induction f k xs rule: chop.induct)
  case (2 f k xs)
  show ?case
  proof (cases "drop k xs = []")
    case True
    then have "chop f k (drop k xs) = []" by (cases f) simp_all
    then have "chop (Suc f) k xs = [xs]" "length xs \<le> k" using True 2(4) by simp_all
    then show ?thesis using 2(4) by simp
  next
    case False
    then have len: "length (take k xs) = k" by simp
    have "length (drop k xs) \<le> f" using 2(2,3) by simp
    then have IH: "concat (chop f k (drop k xs)) = drop k xs \<and> chop f k (drop k xs) \<noteq> []
      \<and> (\<forall>ys \<in> set (butlast (chop f k (drop k xs))). length ys = k) \<and> last (chop f k (drop k xs)) \<noteq> [] \<and> length (last (chop f k (drop k xs))) \<le> k"
      by (rule 2(1) [OF 2(4) 2(2) _ False])
    have "chop (Suc f) k xs = take k xs # chop f k (drop k xs)" using 2(4) by simp
    then show ?thesis using IH len by (simp del: chop.simps)
  qed
qed simp

lemma list_rows_documented: "rows_documented list_rows"
proof -
  have "concat (chop (length xs) (nat k) xs) = xs \<and> chop (length xs) (nat k) xs \<noteq> []
    \<and> (\<forall>ys \<in> set (butlast (chop (length xs) (nat k) xs)). int (length ys) = k) \<and> last (chop (length xs) (nat k) xs) \<noteq> []
    \<and> int (length (last (chop (length xs) (nat k) xs))) \<le> k" if "0 < k" "xs \<noteq> []" for k xs
    using chop_blocks [of "nat k" xs "length xs"] that by auto
  then show ?thesis by (auto simp: rows_documented_def list_rows_def)
qed

theorem helix_partition_exact_witness:
  "partition_context_for_helix list_rows [10, 11, 12, 13, 14] 1 2 2 = Inr ([12, 13], [2, 3], 5, 1)
    \<and> partition_context_for_helix list_rows [10, 11, 12, 13, 14] 0 2 2 = Inr ([10, 11, 14], [0, 1, 4], 5, 1)"
proof
  have pad: "pad = 1" if "0 \<le> pad" "pad < 2" "(5 + pad) mod 2 = 0" for pad :: int using that by presburger
  show "partition_context_for_helix list_rows [10, 11, 12, 13, 14] 1 2 2 = Inr ([12, 13], [2, 3], 5, 1)"
    using helix_partition_exact [OF list_rows_documented, of 2 1 2 "[10, 11, 12, 13, 14]"] pad by (auto simp: upt_rec)
  show "partition_context_for_helix list_rows [10, 11, 12, 13, 14] 0 2 2 = Inr ([10, 11, 14], [0, 1, 4], 5, 1)"
    using helix_partition_exact [OF list_rows_documented, of 2 0 2 "[10, 11, 12, 13, 14]"] pad by (auto simp: upt_rec)
qed

end
