(* ===== verification/ADP_Router.thy ===== *)
theory ADP_Router
  imports Waiting_Queue "HOL-Library.List_Lexorder"
begin

text \<open>
  The routers of attention data parallelism (\<^verbatim>\<open>src/tensorrt_llm/_torch/pyexecutor/scheduler/adp_router.py\<close>) and the
  admission of requests in front of them (\<open>_pop_from_waiting_queue\<close> in \<^verbatim>\<open>py_executor.py\<close>). Every rank describes its load,
  the descriptions are exchanged, and each rank computes the same assignment of the new requests to ranks. The exchange
  is an argument. So are the floating point operations (\<open>float_ops\<close>), the function \<open>ceil_mul\<close> that
  \<^verbatim>\<open>math.ceil(multiplier * n)\<close> computes, and the seeded shuffle of a list.
\<close>

section \<open>Load of a rank\<close>

definition num_input_tokens_of :: "executor_request option \<Rightarrow> int" where
  "num_input_tokens_of request = (case request of None \<Rightarrow> 0
     | Some r \<Rightarrow> (case num_input_tokens r of Some n \<Rightarrow> n | None \<Rightarrow> int (length (input_token_ids r))))"

record rank_iter_stats_payload =
  has_iter_stats :: int
  iter_stats_iter :: int
  num_context_requests :: int
  num_ctx_tokens :: int
  num_ctx_kv_tokens :: int
  num_gen_requests :: int
  num_gen_kv_tokens :: int
  num_paused_requests :: int
  num_paused_kv_tokens :: int

definition payload_defaults :: "int list" where
  "payload_defaults = [0, -1, 0, 0, 0, 0, 0, 0, 0]"

definition payload_of :: "int list \<Rightarrow> rank_iter_stats_payload" where
  "payload_of v = \<lparr>has_iter_stats = v ! 0, iter_stats_iter = v ! 1, num_context_requests = v ! 2, num_ctx_tokens = v ! 3,
     num_ctx_kv_tokens = v ! 4, num_gen_requests = v ! 5, num_gen_kv_tokens = v ! 6, num_paused_requests = v ! 7,
     num_paused_kv_tokens = v ! 8\<rparr>"

definition payload_serialize :: "rank_iter_stats_payload \<Rightarrow> int list" where
  "payload_serialize p = [has_iter_stats p, iter_stats_iter p, num_context_requests p, num_ctx_tokens p, num_ctx_kv_tokens p,
     num_gen_requests p, num_gen_kv_tokens p, num_paused_requests p, num_paused_kv_tokens p]"

definition payload_deserialize :: "int list \<Rightarrow> rank_iter_stats_payload res" where
  "payload_deserialize data = guardR (length data \<le> length payload_defaults) ValueError
     (Inr (payload_of (data @ drop (length data) payload_defaults)))"

record rank_state =
  rs_rank :: int
  rs_num_active_requests :: int
  rs_num_active_tokens :: int
  rs_iter_stats :: rank_iter_stats_payload

definition copy_iter_stats_from :: "rank_iter_stats_payload option \<Rightarrow> rank_state \<Rightarrow> rank_state" where
  "copy_iter_stats_from payload s = (case payload of None \<Rightarrow> s | Some p \<Rightarrow> s\<lparr>rs_iter_stats := p\<rparr>)"

definition rank_state_serialize :: "rank_state \<Rightarrow> int list" where
  "rank_state_serialize s = [rs_rank s, rs_num_active_requests s, rs_num_active_tokens s] @ payload_serialize (rs_iter_stats s)"

text \<open>The rank has no default; the two numbers of the prefix default to zero.\<close>

definition rank_state_deserialize :: "int list \<Rightarrow> rank_state res" where
  "rank_state_deserialize data =
     guardR (1 \<le> length data) ValueError (
     guardR (length data \<le> 3 + length payload_defaults) ValueError (
       let rank_values = take 3 data; v = rank_values @ drop (length rank_values - 1) [0, 0]
       in bindR (payload_deserialize (drop 3 data)) (\<lambda>p.
            Inr \<lparr>rs_rank = v ! 0, rs_num_active_requests = v ! 1, rs_num_active_tokens = v ! 2, rs_iter_stats = p\<rparr>)))"

record active_request =
  total_input_len_cp :: int
  py_orig_prompt_len :: int
  cached_tokens :: int

record adp_dist =
  has_cp_helix :: bool
  dist_tp_rank :: int

definition prompt_tokens :: "adp_dist \<Rightarrow> active_request \<Rightarrow> int" where
  "prompt_tokens d r = (if has_cp_helix d then total_input_len_cp r else py_orig_prompt_len r)"

definition create_rank_state :: "adp_dist \<Rightarrow> active_request list \<Rightarrow> rank_state" where
  "create_rank_state d active = \<lparr>rs_rank = dist_tp_rank d, rs_num_active_requests = int (length active),
     rs_num_active_tokens = sum_list (map (prompt_tokens d) active), rs_iter_stats = payload_of payload_defaults\<rparr>"

text \<open>Requests whose cache is being transferred count when the router is told so and has a transfer manager.\<close>

definition remaining_tokens :: "adp_dist \<Rightarrow> active_request \<Rightarrow> int" where
  "remaining_tokens d r = max (prompt_tokens d r - cached_tokens r) 0"

definition kv_create_rank_state :: "adp_dist \<Rightarrow> bool \<Rightarrow> active_request list option \<Rightarrow> active_request list \<Rightarrow> rank_state" where
  "kv_create_rank_state d account_for_in_transfer transfers active =
     (let extra = (if account_for_in_transfer then (case transfers of None \<Rightarrow> [] | Some rs \<Rightarrow> rs) else [])
      in \<lparr>rs_rank = dist_tp_rank d, rs_num_active_requests = int (length active) + int (length extra),
          rs_num_active_tokens = sum_list (map (remaining_tokens d) active) + sum_list (map (remaining_tokens d) extra),
          rs_iter_stats = payload_of payload_defaults\<rparr>)"

definition gather_all_rank_states ::
    "(int list \<Rightarrow> int list list) \<Rightarrow> rank_state \<Rightarrow> rank_iter_stats_payload option \<Rightarrow> rank_state list res" where
  "gather_all_rank_states tp_allgather local_state payload =
     mapR rank_state_deserialize (tp_allgather (rank_state_serialize (copy_iter_stats_from payload local_state)))"

section \<open>Shared steps of the routers\<close>

text \<open>The requests assigned to each rank and the number of active requests of each rank.\<close>

record placement =
  pl_new :: "(int \<times> queue_item list) list"
  pl_loads :: "int list"

definition no_new_requests :: "rank_state list \<Rightarrow> (int \<times> queue_item list) list" where
  "no_new_requests states = fold (\<lambda>s. dict_set (rs_rank s) []) states []"

definition start_placement :: "rank_state list \<Rightarrow> placement" where
  "start_placement states = \<lparr>pl_new = no_new_requests states, pl_loads = map rs_num_active_requests states\<rparr>"

definition dict_extend :: "int \<Rightarrow> 'a list \<Rightarrow> (int \<times> 'a list) list \<Rightarrow> (int \<times> 'a list) list res" where
  "dict_extend k ys d = (case map_of d k of None \<Rightarrow> Inl KeyError | Some xs \<Rightarrow> Inr (dict_set k (xs @ ys) d))"

definition place :: "int \<Rightarrow> queue_item \<Rightarrow> placement \<Rightarrow> placement res" where
  "place rank item p =
     bindR (py_update (pl_loads p) rank (\<lambda>n. n + 1)) (\<lambda>loads.
     bindR (dict_extend rank [item] (pl_new p)) (\<lambda>new. Inr \<lparr>pl_new = new, pl_loads = loads\<rparr>))"

definition scheduling_params_of :: "queue_item \<Rightarrow> scheduling_params option" where
  "scheduling_params_of item = (case item_request item of None \<Rightarrow> None | Some r \<Rightarrow> py_scheduling_params r)"

definition target_dp_rank :: "queue_item \<Rightarrow> int option" where
  "target_dp_rank item = (case scheduling_params_of item of None \<Rightarrow> None | Some sp \<Rightarrow> attention_dp_rank sp)"

definition get_relax_value :: "queue_item \<Rightarrow> bool" where
  "get_relax_value item = (case scheduling_params_of item of None \<Rightarrow> True
     | Some sp \<Rightarrow> if attention_dp_rank sp = None then True else attention_dp_relax sp)"

text \<open>The requests that remain come back in their order.\<close>

fun assign_explicit_dp_ranks :: "int \<Rightarrow> queue_item list \<Rightarrow> placement \<Rightarrow> (queue_item list \<times> placement) res" where
  "assign_explicit_dp_ranks cap [] p = Inr ([], p)"
| "assign_explicit_dp_ranks cap (item # items) p =
     (case target_dp_rank item of
        None \<Rightarrow> bindR (assign_explicit_dp_ranks cap items p) (\<lambda>(rest, p'). Inr (item # rest, p'))
      | Some t \<Rightarrow> bindR (py_index (pl_loads p) t) (\<lambda>n.
          if n < cap
          then bindR (place t item p) (\<lambda>p1. assign_explicit_dp_ranks cap items p1)
          else bindR (assign_explicit_dp_ranks cap items p) (\<lambda>(rest, p'). Inr (item # rest, p'))))"

definition py_max :: "int list \<Rightarrow> int res" where
  "py_max xs = guardR (xs \<noteq> []) ValueError (Inr (fold max xs (hd xs)))"

definition expected_num_active_requests :: "(int \<Rightarrow> int) \<Rightarrow> int list \<Rightarrow> int \<Rightarrow> int \<Rightarrow> int option \<Rightarrow> int res" where
  "expected_num_active_requests ceil_mul loads num_new tp_size hard_cap =
     bindR (floordiv (sum_list loads + num_new + tp_size - 1) tp_size) (\<lambda>fair_share.
     bindR (py_max loads) (\<lambda>busiest.
       let expected = max (ceil_mul fair_share) busiest
       in Inr (case hard_cap of None \<Rightarrow> expected | Some cap \<Rightarrow> min expected cap)))"

section \<open>The default router\<close>

text \<open>
  A heap entry is the number of tokens, the number of requests and the rank; the list of a rank is shared by its
  entries and by the dictionary \<open>scheduled\<close>, so it is kept in the dictionary only. Ranks differ, so lists are not
  compared.
\<close>

type_synonym heap_val = "int \<times> int \<times> int"

definition balance_heap :: "int list \<Rightarrow> int list \<Rightarrow> int \<Rightarrow> heap_val list res" where
  "balance_heap loads tokens expected =
     bindR (mapR (\<lambda>(r, n). bindR (list_get tokens r) (\<lambda>t. Inr (t, n, int r))) (enumerate 0 loads)) (\<lambda>vals.
       Inr (filter (\<lambda>(t, n, r). n < expected) vals))"

fun balance_loop :: "int \<Rightarrow> (int \<times> queue_item) list \<Rightarrow> heap_val list \<Rightarrow> (int \<times> queue_item list) list
    \<Rightarrow> (int \<times> queue_item list) list res" where
  "balance_loop expected [] heap scheduled = Inr scheduled"
| "balance_loop expected ((token_count, item) # counted) heap scheduled =
     guardR (heap \<noteq> []) IndexError (
       let ((t, n, r), rest) = heappop (\<lambda>v. v) heap
       in bindR (dict_extend r [item] scheduled) (\<lambda>scheduled'.
          balance_loop expected counted
            (if n + 1 < expected then heappush (\<lambda>v. v) (t + token_count, n + 1, r) rest else rest) scheduled'))"

fun extend_all :: "(int \<times> 'a list) list \<Rightarrow> (int \<times> 'a list) list \<Rightarrow> (int \<times> 'a list) list res" where
  "extend_all [] d = Inr d"
| "extend_all ((r, reqs) # rest) d = bindR (dict_extend r reqs d) (\<lambda>d'. extend_all rest d')"

definition by_tokens :: "queue_item list \<Rightarrow> (int \<times> queue_item) list" where
  "by_tokens items = sort_key (\<lambda>c. - fst c) (map (\<lambda>i. (num_input_tokens_of (item_request i), i)) items)"

definition balance_requests_across_ranks ::
    "queue_item list \<Rightarrow> (int \<times> queue_item list) list \<Rightarrow> int list \<Rightarrow> int list \<Rightarrow> int \<Rightarrow> (int \<times> queue_item list) list res" where
  "balance_requests_across_ranks items new loads tokens expected =
     (if items = [] then Inr new
      else bindR (balance_heap loads tokens expected) (\<lambda>heap.
           let scheduled = fold (\<lambda>(t, n, r). dict_set r []) heap []
           in bindR (balance_loop expected (by_tokens items) (heapify (\<lambda>v. v) heap) scheduled) (\<lambda>scheduled'.
              extend_all scheduled' new)))"

definition default_route_requests ::
    "(int \<Rightarrow> int) \<Rightarrow> rank_state list \<Rightarrow> queue_item list \<Rightarrow> int \<Rightarrow> ((int \<times> queue_item list) list \<times> int) res" where
  "default_route_requests ceil_mul states items cap =
     (let tokens = map rs_num_active_tokens states
      in bindR (assign_explicit_dp_ranks cap (sort_key get_relax_value items) (start_placement states)) (\<lambda>(remaining, p).
         bindR (expected_num_active_requests ceil_mul (pl_loads p) (int (length remaining)) (int (length states)) (Some cap)) (\<lambda>expected.
         bindR (balance_requests_across_ranks remaining (pl_new p) (pl_loads p) tokens expected) (\<lambda>new.
           Inr (new, expected)))))"

section \<open>The router with conversations\<close>

text \<open>The ordered dictionary is an association list, the least recently used conversation first.\<close>

record conversation_router =
  conv_to_rank :: "(string \<times> int) list"
  max_sessions :: int
  least_queued :: bool
  round_robin_cursor :: int

definition conversation_router_init :: "int \<Rightarrow> string \<Rightarrow> conversation_router" where
  "conversation_router_init sessions placement_policy = \<lparr>conv_to_rank = [], max_sessions = max 1 sessions,
     least_queued = (placement_policy = ''least_queued''), round_robin_cursor = 0\<rparr>"

definition conversation_of :: "queue_item \<Rightarrow> string option" where
  "conversation_of item = (case item_request item of None \<Rightarrow> None
     | Some r \<Rightarrow> (case py_conversation_params r of None \<Rightarrow> None | Some cp \<Rightarrow> conversation_id cp))"

definition record_target_rank :: "string \<Rightarrow> int \<Rightarrow> conversation_router \<Rightarrow> conversation_router" where
  "record_target_rank conv rank c =
     (let d = dict_del conv (dict_set conv rank (conv_to_rank c)) @ [(conv, rank)]
      in c\<lparr>conv_to_rank := drop (length d - nat (max_sessions c)) d\<rparr>)"

definition bound_rank :: "conversation_router \<Rightarrow> queue_item \<Rightarrow> int option" where
  "bound_rank c item = (case conversation_of item of None \<Rightarrow> None | Some conv \<Rightarrow> map_of (conv_to_rank c) conv)"

definition bind_conversation :: "queue_item \<Rightarrow> int \<Rightarrow> conversation_router \<Rightarrow> conversation_router" where
  "bind_conversation item rank c = (case conversation_of item of None \<Rightarrow> c | Some conv \<Rightarrow> record_target_rank conv rank c)"

fun assign_new_conversation_explicit_dp_ranks ::
    "int \<Rightarrow> queue_item list \<Rightarrow> conversation_router \<Rightarrow> placement \<Rightarrow> (queue_item list \<times> conversation_router \<times> placement) res" where
  "assign_new_conversation_explicit_dp_ranks cap [] c p = Inr ([], c, p)"
| "assign_new_conversation_explicit_dp_ranks cap (item # items) c p =
     (if bound_rank c item \<noteq> None
      then bindR (assign_new_conversation_explicit_dp_ranks cap items c p) (\<lambda>(rest, out). Inr (item # rest, out))
      else case target_dp_rank item of
        None \<Rightarrow> bindR (assign_new_conversation_explicit_dp_ranks cap items c p) (\<lambda>(rest, out). Inr (item # rest, out))
      | Some t \<Rightarrow> bindR (py_index (pl_loads p) t) (\<lambda>n.
          if n < cap
          then bindR (place t item p) (\<lambda>p1. assign_new_conversation_explicit_dp_ranks cap items (bind_conversation item t c) p1)
          else bindR (assign_new_conversation_explicit_dp_ranks cap items c p) (\<lambda>(rest, out). Inr (item # rest, out))))"

definition least_loaded :: "nat \<Rightarrow> int \<Rightarrow> int list \<Rightarrow> nat" where
  "least_loaded tp_size soft_cap loads =
     (let under = filter (\<lambda>r. loads ! r < soft_cap) [0..<tp_size];
          cands = (if under = [] then [0..<tp_size] else under)
      in hd (sort_key (\<lambda>r. (loads ! r, r)) cands))"

text \<open>Rounds left, the cursor; the rank found (if any) and the cursor afterwards.\<close>

fun rr_loop :: "nat \<Rightarrow> nat \<Rightarrow> int \<Rightarrow> int list \<Rightarrow> int \<Rightarrow> nat option \<times> int" where
  "rr_loop 0 tp_size soft_cap loads cursor = (None, cursor)"
| "rr_loop (Suc k) tp_size soft_cap loads cursor =
     (let r = nat (cursor mod int tp_size); cursor' = (cursor + 1) mod int tp_size
      in if loads ! r < soft_cap then (Some r, cursor') else rr_loop k tp_size soft_cap loads cursor')"

definition next_rr :: "nat \<Rightarrow> int \<Rightarrow> int list \<Rightarrow> conversation_router \<Rightarrow> nat \<times> conversation_router" where
  "next_rr tp_size soft_cap loads c =
     (let (found, cursor) = rr_loop tp_size tp_size soft_cap loads (round_robin_cursor c)
      in (case found of Some r \<Rightarrow> r | None \<Rightarrow> least_loaded tp_size soft_cap loads, c\<lparr>round_robin_cursor := cursor\<rparr>))"

text \<open>The rank a bound conversation returns to, when that rank is below the hard limit.\<close>

definition sticky_rank :: "int \<Rightarrow> conversation_router \<Rightarrow> placement \<Rightarrow> queue_item \<Rightarrow> int option res" where
  "sticky_rank cap c p item = (case bound_rank c item of None \<Rightarrow> Inr None
     | Some t \<Rightarrow> bindR (py_index (pl_loads p) t) (\<lambda>n. Inr (if n < cap then Some t else None)))"

definition conversation_step ::
    "nat \<Rightarrow> int \<Rightarrow> int \<Rightarrow> queue_item \<Rightarrow> conversation_router \<Rightarrow> placement \<Rightarrow> (conversation_router \<times> placement) res" where
  "conversation_step tp_size cap soft_cap item c p =
     bindR (sticky_rank cap c p item) (\<lambda>sticky.
       let (rank, c1) = (case sticky of
           Some t \<Rightarrow> (t, bind_conversation item t c)
         | None \<Rightarrow>
             let (r, c2) = (if least_queued c then (least_loaded tp_size soft_cap (pl_loads p), c)
                            else next_rr tp_size soft_cap (pl_loads p) c)
             in (int r, if bound_rank c2 item = None then bind_conversation item (int r) c2 else c2))
       in bindR (place rank item p) (\<lambda>p1. Inr (c1, p1)))"

fun conversation_loop ::
    "nat \<Rightarrow> int \<Rightarrow> int \<Rightarrow> queue_item list \<Rightarrow> conversation_router \<Rightarrow> placement \<Rightarrow> (conversation_router \<times> placement) res" where
  "conversation_loop tp_size cap soft_cap [] c p = Inr (c, p)"
| "conversation_loop tp_size cap soft_cap (item # items) c p =
     bindR (conversation_step tp_size cap soft_cap item c p) (\<lambda>(c1, p1). conversation_loop tp_size cap soft_cap items c1 p1)"

definition conversation_relax_value :: "queue_item \<Rightarrow> bool" where
  "conversation_relax_value item = (case scheduling_params_of item of None \<Rightarrow> True | Some sp \<Rightarrow> attention_dp_relax sp)"

definition conversation_route_requests ::
    "(int \<Rightarrow> int) \<Rightarrow> conversation_router \<Rightarrow> rank_state list \<Rightarrow> queue_item list \<Rightarrow> int
     \<Rightarrow> ((int \<times> queue_item list) list \<times> int \<times> conversation_router) res" where
  "conversation_route_requests ceil_mul c states items cap =
     (let tp_size = length states
      in bindR (assign_new_conversation_explicit_dp_ranks cap (sort_key conversation_relax_value items) c (start_placement states))
         (\<lambda>(remaining, c1, p1).
         bindR (expected_num_active_requests ceil_mul (pl_loads p1) (int (length remaining)) (int tp_size) None) (\<lambda>soft_cap.
         bindR (conversation_loop tp_size cap soft_cap remaining c1 p1) (\<lambda>(c2, p2).
         bindR (py_max (pl_loads p2)) (\<lambda>busiest.
           Inr (pl_new p2, max soft_cap busiest, c2))))))"

section \<open>The router that knows the caches\<close>

record 'f float_ops =
  f_of_int :: "int \<Rightarrow> 'f"
  f_ratio :: "int \<Rightarrow> int \<Rightarrow> 'f"
  f_add :: "'f \<Rightarrow> 'f \<Rightarrow> 'f"
  f_mul :: "'f \<Rightarrow> 'f \<Rightarrow> 'f"
  f_div :: "'f \<Rightarrow> 'f \<Rightarrow> 'f res"
  f_less :: "'f \<Rightarrow> 'f \<Rightarrow> bool"
  f_eq :: "'f \<Rightarrow> 'f \<Rightarrow> bool"
  f_sum :: "'f list \<Rightarrow> 'f"
  f_inf :: 'f

text \<open>The set of ranks to warm up is a list without repetitions.\<close>

record 'f kv_router =
  load_balance_weight :: 'f
  match_rate_threshold :: 'f
  all_ranks_prefix_matches :: "(int \<times> int) list list"
  pending_warmup_ranks :: "int list"

definition kv_router_init :: "'f \<Rightarrow> 'f \<Rightarrow> nat \<Rightarrow> bool \<Rightarrow> 'f kv_router" where
  "kv_router_init weight threshold dp_size cold_start_warmup = \<lparr>load_balance_weight = weight, match_rate_threshold = threshold,
     all_ranks_prefix_matches = [], pending_warmup_ranks = (if cold_start_warmup then map int [0..<dp_size] else [])\<rparr>"

definition local_match :: "(int list \<Rightarrow> int option \<Rightarrow> string option \<Rightarrow> int) \<Rightarrow> queue_item \<Rightarrow> int list" where
  "local_match probe item = (case item_request item of None \<Rightarrow> [item_id item, 0]
     | Some r \<Rightarrow>
         let probe_tokens = (if 1 < length (input_token_ids r) then butlast (input_token_ids r) else [])
         in [item_id item, probe probe_tokens (map_option task_id (request_lora_config r)) (cache_salt r)])"

fun matches_of :: "int list \<Rightarrow> (int \<times> int) list \<Rightarrow> (int \<times> int) list res" where
  "matches_of [] d = Inr d"
| "matches_of [req_id] d = Inl IndexError"
| "matches_of (req_id # match_len # rest) d = matches_of rest (dict_set req_id match_len d)"

definition gather_prefix_matches ::
    "(int list \<Rightarrow> int option \<Rightarrow> string option \<Rightarrow> int) \<Rightarrow> (int list \<Rightarrow> int list list) \<Rightarrow> queue_item list \<Rightarrow> 'f kv_router \<Rightarrow> 'f kv_router res" where
  "gather_prefix_matches probe tp_allgather items k =
     bindR (mapR (\<lambda>data. matches_of data []) (tp_allgather (concat (map (local_match probe) items)))) (\<lambda>ms.
       Inr (k\<lparr>all_ranks_prefix_matches := ms\<rparr>))"

definition score_rank :: "'f float_ops \<Rightarrow> 'f kv_router \<Rightarrow> int \<Rightarrow> int \<Rightarrow> 'f \<Rightarrow> 'f \<Rightarrow> 'f res" where
  "score_rank F k req_tokens match_len rank_active_tokens load_denom =
     bindR (f_div F rank_active_tokens load_denom) (\<lambda>q.
       Inr (f_add F (f_of_int F (req_tokens - match_len)) (f_mul F (load_balance_weight k) (f_mul F q (f_of_int F req_tokens)))))"

definition prefix_fingerprint :: "int list \<Rightarrow> int list" where
  "prefix_fingerprint token_ids = take 64 token_ids"

definition match_len :: "'f kv_router \<Rightarrow> int \<Rightarrow> int \<Rightarrow> int res" where
  "match_len k rank req_id = (if rank < int (length (all_ranks_prefix_matches k))
     then bindR (py_index (all_ranks_prefix_matches k) rank) (\<lambda>d. Inr (case map_of d req_id of None \<Rightarrow> 0 | Some n \<Rightarrow> n))
     else Inr 0)"

record 'f kv_placement =
  kv_pl :: placement
  kv_tokens :: "'f list"

definition kv_place :: "'f float_ops \<Rightarrow> int \<Rightarrow> int \<Rightarrow> queue_item \<Rightarrow> 'f kv_placement \<Rightarrow> 'f kv_placement res" where
  "kv_place F effective rank item s =
     bindR (place rank item (kv_pl s)) (\<lambda>p.
     bindR (py_update (kv_tokens s) rank (\<lambda>t. f_add F t (f_of_int F effective))) (\<lambda>ts.
       Inr \<lparr>kv_pl = p, kv_tokens = ts\<rparr>))"

text \<open>A request without a target is sent to the smallest rank that is still to be warmed up.\<close>

definition warmup_target :: "'f kv_router \<Rightarrow> queue_item \<Rightarrow> int option" where
  "warmup_target k item = (case target_dp_rank item of Some t \<Rightarrow> Some t
     | None \<Rightarrow> if pending_warmup_ranks k = [] then None else Some (Min (set (pending_warmup_ranks k))))"

fun kv_assign_explicit ::
    "'f float_ops \<Rightarrow> int \<Rightarrow> queue_item list \<Rightarrow> 'f kv_router \<Rightarrow> 'f kv_placement \<Rightarrow> (queue_item list \<times> 'f kv_router \<times> 'f kv_placement) res" where
  "kv_assign_explicit F cap [] k s = Inr ([], k, s)"
| "kv_assign_explicit F cap (item # items) k s =
     (case warmup_target k item of
        None \<Rightarrow> bindR (kv_assign_explicit F cap items k s) (\<lambda>(rest, out). Inr (item # rest, out))
      | Some t \<Rightarrow> bindR (py_index (pl_loads (kv_pl s)) t) (\<lambda>n.
          if n < cap
          then bindR (match_len k t (item_id item)) (\<lambda>m.
               bindR (kv_place F (max (num_input_tokens_of (item_request item) - m) 0) t item s) (\<lambda>s1.
                 kv_assign_explicit F cap items (k\<lparr>pending_warmup_ranks := removeAll t (pending_warmup_ranks k)\<rparr>) s1))
          else bindR (kv_assign_explicit F cap items k s) (\<lambda>(rest, out). Inr (item # rest, out))))"

definition kv_sort_key :: "queue_item \<Rightarrow> int list \<times> int" where
  "kv_sort_key item = (let tokens = (case item_request item of None \<Rightarrow> [] | Some r \<Rightarrow> input_token_ids r)
     in (prefix_fingerprint tokens, - int (length tokens)))"

text \<open>The comparison of pairs in the language.\<close>

definition pair_less :: "'f float_ops \<Rightarrow> 'f \<times> 'f \<Rightarrow> 'f \<times> 'f \<Rightarrow> bool" where
  "pair_less F x y = (if f_eq F (fst x) (fst y) then f_less F (snd x) (snd y) else f_less F (fst x) (fst y))"

fun best_rank_loop :: "'f float_ops \<Rightarrow> 'f kv_router \<Rightarrow> int \<Rightarrow> (nat \<Rightarrow> int) \<Rightarrow> 'f list \<Rightarrow> 'f \<Rightarrow> nat list \<Rightarrow> 'f \<times> nat \<Rightarrow> nat res" where
  "best_rank_loop F k req_tokens lens tokens load_denom [] (best_score, best_rank) = Inr best_rank"
| "best_rank_loop F k req_tokens lens tokens load_denom (rank # ranks) (best_score, best_rank) =
     bindR (list_get tokens rank) (\<lambda>active.
     bindR (list_get tokens best_rank) (\<lambda>best_active.
     bindR (score_rank F k req_tokens (lens rank) active load_denom) (\<lambda>score.
       best_rank_loop F k req_tokens lens tokens load_denom ranks
         (if pair_less F (score, active) (best_score, best_active) then (score, rank) else (best_score, best_rank)))))"

text \<open>The rank chosen for a request, and the length of the prefix that it holds.\<close>

definition choose_rank ::
    "'f float_ops \<Rightarrow> (int \<Rightarrow> nat list \<Rightarrow> nat list) \<Rightarrow> 'f kv_router \<Rightarrow> queue_item \<Rightarrow> nat list \<Rightarrow> 'f list \<Rightarrow> (nat \<times> int) res" where
  "choose_rank F shuffle k item eligible tokens =
     (let req_tokens = num_input_tokens_of (item_request item); iter_ranks = shuffle (item_id item) eligible
      in bindR (list_get iter_ranks 0) (\<lambda>first.
         bindR (mapR (list_get tokens) eligible) (\<lambda>actives.
         let total_load = f_sum F actives;
             load_denom = (if f_less F total_load (f_of_int F req_tokens) then f_of_int F req_tokens else total_load)
         in bindR (mapR (\<lambda>r. match_len k (int r) (item_id item)) eligible) (\<lambda>ms.
            let lens = (\<lambda>r. case map_of (zip eligible ms) r of None \<Rightarrow> 0 | Some m \<Rightarrow> m);
                max_match = fold max ms (hd ms);
                cache_affinity_active = f_less F (match_rate_threshold k) (f_ratio F max_match (max req_tokens 1))
            in bindR (best_rank_loop F k req_tokens (if cache_affinity_active then lens else (\<lambda>_. 0)) tokens load_denom iter_ranks
                  (f_inf F, first)) (\<lambda>best.
                 Inr (best, lens best))))))"

text \<open>When no rank is eligible any more, the loop is left and the other requests stay unassigned.\<close>

fun kv_loop ::
    "'f float_ops \<Rightarrow> (int \<Rightarrow> nat list \<Rightarrow> nat list) \<Rightarrow> int \<Rightarrow> 'f kv_router \<Rightarrow> queue_item list \<Rightarrow> nat list \<Rightarrow> 'f kv_placement \<Rightarrow> 'f kv_placement res" where
  "kv_loop F shuffle expected k [] eligible s = Inr s"
| "kv_loop F shuffle expected k (item # items) eligible s =
     (if eligible = [] then Inr s
      else bindR (choose_rank F shuffle k item eligible (kv_tokens s)) (\<lambda>(best, m).
           bindR (kv_place F (max (num_input_tokens_of (item_request item) - m) 0) (int best) item s) (\<lambda>s1.
             kv_loop F shuffle expected k items
               (if expected \<le> pl_loads (kv_pl s1) ! best then remove1 best eligible else eligible) s1)))"

definition kv_route_requests ::
    "'f float_ops \<Rightarrow> (int \<Rightarrow> nat list \<Rightarrow> nat list) \<Rightarrow> (int \<Rightarrow> int) \<Rightarrow> 'f kv_router \<Rightarrow> rank_state list \<Rightarrow> queue_item list \<Rightarrow> int
     \<Rightarrow> ((int \<times> queue_item list) list \<times> int \<times> 'f kv_router) res" where
  "kv_route_requests F shuffle ceil_mul k states items cap =
     (let s0 = \<lparr>kv_pl = start_placement states, kv_tokens = map (\<lambda>s. f_of_int F (rs_num_active_tokens s)) states\<rparr>
      in bindR (kv_assign_explicit F cap (sort_key get_relax_value items) k s0) (\<lambda>(unscheduled, k1, s1).
         let remaining = sort_key kv_sort_key unscheduled; loads = pl_loads (kv_pl s1)
         in bindR (expected_num_active_requests ceil_mul loads (int (length remaining)) (int (length states)) (Some cap)) (\<lambda>expected.
            bindR (kv_loop F shuffle expected k1 remaining (filter (\<lambda>r. loads ! r < expected) [0..<length states]) s1) (\<lambda>s2.
              Inr (pl_new (kv_pl s2), expected, k1)))))"

section \<open>Choice of the router and admission\<close>

record attention_dp_config =
  kv_cache_routing_conversation_affinity :: bool
  enable_kv_cache_aware_routing :: bool

datatype router_kind = ConversationAwareADPRouter | KVCacheAwareADPRouter | DefaultADPRouter

text \<open>The cache manager is given by whether it reuses blocks.\<close>

definition create_router :: "bool option \<Rightarrow> attention_dp_config option \<Rightarrow> router_kind" where
  "create_router enable_block_reuse config = (case config of None \<Rightarrow> DefaultADPRouter
     | Some c \<Rightarrow> if kv_cache_routing_conversation_affinity c then ConversationAwareADPRouter
         else if enable_kv_cache_aware_routing c \<and> enable_block_reuse = Some True then KVCacheAwareADPRouter
         else DefaultADPRouter)"

record admission =
  enable_attention_dp :: bool
  adm_tp_size :: int
  max_num_active_requests :: int
  is_benchmark_disagg :: bool
  benchmark_fill_phase_active :: bool
  is_warmup :: bool
  fill_admit_cap :: int

definition get_request_admission_capacity :: "admission \<Rightarrow> int" where
  "get_request_admission_capacity a =
     (if enable_attention_dp a then adm_tp_size a * max_num_active_requests a else max_num_active_requests a)"

definition configure_benchmark_req_queues_size :: "int \<Rightarrow> admission \<Rightarrow> int" where
  "configure_benchmark_req_queues_size requested_fill_target a = min requested_fill_target (get_request_admission_capacity a)"

definition ramp_up :: "admission \<Rightarrow> int \<Rightarrow> admission \<times> int" where
  "ramp_up a max_new_requests =
     (if is_benchmark_disagg a \<and> benchmark_fill_phase_active a \<and> \<not> is_warmup a
      then let cap = (if fill_admit_cap a = 0 then adm_tp_size a else min (fill_admit_cap a * 2) (get_request_admission_capacity a))
           in (a\<lparr>fill_admit_cap := cap\<rparr>, min max_new_requests cap)
      else (a, max_new_requests))"

definition pop_from_waiting_queue ::
    "'q waiting_queue_ops \<Rightarrow> admission \<Rightarrow> 'q \<Rightarrow> int \<Rightarrow> int list option \<Rightarrow> (admission \<times> (queue_item list \<times> 'q) res) option" where
  "pop_from_waiting_queue ops a queue total_num_active_requests all_ranks =
     (let (a1, max_new_requests) = ramp_up a (get_request_admission_capacity a - total_num_active_requests)
      in map_option (\<lambda>out. (a1, out))
           (get_from_waiting_queue ops queue max_new_requests (enable_attention_dp a) (max_num_active_requests a) all_ranks))"

end
