(* ===== verification/ADP_Router_Laws.thy ===== *)
theory ADP_Router_Laws
  imports ADP_Router Waiting_Queue_Laws
begin

text \<open>
  Laws of the routers of attention data parallelism: placing requests on ranks, the requests with a rank of their own, the
  target of \<open>expected_num_active_requests\<close>, and the default router. Its heap is a greedy assignment, and an admitted
  batch is dealt out completely without filling a rank beyond the number returned.
\<close>

section \<open>Placements\<close>

definition assigned :: "(int \<times> 'a list) list \<Rightarrow> 'a multiset" where
  "assigned d = mset (concat (map snd d))"

definition reqs_of :: "(int \<times> 'a list) list \<Rightarrow> int \<Rightarrow> 'a list" where
  "reqs_of d k = dget d k"



text \<open>The accounts of a placement: the loads are those at the start and the requests placed since.\<close>

definition placed :: "int list \<Rightarrow> placement \<Rightarrow> bool" where
  "placed L p \<longleftrightarrow> length (pl_loads p) = length L \<and> dict_keys (pl_new p) = map int [0..<length L]
     \<and> (\<forall>r < length L. pl_loads p ! r = L ! r + int (length (reqs_of (pl_new p) (int r))))"









section \<open>Explicit ranks and the fair share\<close>



text \<open>What placing requests one by one does to the accounts, when no rank is filled beyond \<open>cap\<close>.\<close>

definition grows :: "int list \<Rightarrow> int \<Rightarrow> placement \<Rightarrow> queue_item multiset \<Rightarrow> placement \<Rightarrow> bool" where
  "grows L cap p M p' \<longleftrightarrow> placed L p' \<and> assigned (pl_new p') = assigned (pl_new p) + M
     \<and> (\<forall>r < length L. pl_loads p ! r \<le> pl_loads p' ! r \<and> pl_loads p' ! r \<le> max (pl_loads p ! r) cap)
     \<and> (\<forall>q. set (reqs_of (pl_new p) q) \<subseteq> set (reqs_of (pl_new p') q))"



lemma grows_mono: "grows L cap p M p' \<Longrightarrow> cap \<le> cap' \<Longrightarrow> grows L cap' p M p'"
  unfolding grows_def by (meson max.mono order.refl order_trans)










section \<open>Balancing\<close>

text \<open>
  The reference for the heap: every request goes to the open rank with the least tokens, requests and number, and a rank
  is open while it is below the target.
\<close>

fun greedy_loop :: "int \<Rightarrow> (int \<times> queue_item) list \<Rightarrow> heap_val list \<Rightarrow> (int \<times> queue_item list) list
    \<Rightarrow> (int \<times> queue_item list) list res" where
  "greedy_loop expected [] opened scheduled = Inr scheduled"
| "greedy_loop expected ((token_count, item) # counted) opened scheduled =
     (if opened = [] then Inl IndexError
      else let (t, n, r) = Min (set opened)
        in bindR (dict_extend r [item] scheduled) (\<lambda>scheduled'.
           greedy_loop expected counted
             ((if n + 1 < expected then [(t + token_count, n + 1, r)] else []) @ remove1 (t, n, r) opened) scheduled'))"

definition greedy_balance ::
    "queue_item list \<Rightarrow> (int \<times> queue_item list) list \<Rightarrow> int list \<Rightarrow> int list \<Rightarrow> int \<Rightarrow> (int \<times> queue_item list) list res" where
  "greedy_balance items new loads tokens expected =
     (if items = [] then Inr new
      else bindR (balance_heap loads tokens expected) (\<lambda>opened.
           bindR (greedy_loop expected (by_tokens items) opened (fold (\<lambda>(t, n, r). dict_set r []) opened [])) (\<lambda>scheduled.
             extend_all scheduled new)))"

lemma balance_loop_greedy:
  assumes "heap_from (\<lambda>v. v) 0 heap" "mset heap = mset opened"
  shows "balance_loop e cs heap scheduled = greedy_loop e cs opened scheduled"
  using assms
proof (induction e cs opened scheduled arbitrary: heap rule: greedy_loop.induct)
  case (2 e k item cs opened scheduled)
  show ?case
  proof (cases "opened = []")
    case True
    then show ?thesis using "2.prems"(2) by simp
  next
    case False
    then have ne: "heap \<noteq> []" using "2.prems"(2) by auto
    obtain t n r rest where pop: "heappop (\<lambda>v. v) heap = ((t, n, r), rest)" by (metis surj_pair)
    note P = hq.pop_law [OF "2.prems"(1) ne pop]
    have "set opened = insert (t, n, r) (set rest)" using P "2.prems"(2) by (metis set_mset_add_mset_insert set_mset_mset)
    then have min: "Min (set opened) = (t, n, r)" using P by (auto intro!: Min_eqI)
    have rest: "mset rest = mset (remove1 (t, n, r) opened)" using P "2.prems"(2) by simp
    let ?v = "(t + k, n + 1, r)"
    have "balance_loop e cs (if n + 1 < e then heappush (\<lambda>v. v) ?v rest else rest) d
        = greedy_loop e cs ((if n + 1 < e then [?v] else []) @ remove1 (t, n, r) opened) d"
      if "dict_extend r [item] scheduled = Inr d" for d
      using hq.push_law [of "\<lambda>v. v" rest ?v] P rest that by (intro "2.IH" [OF False min [symmetric] refl refl]) auto
    then show ?thesis using False ne pop min by (cases "dict_extend r [item] scheduled") simp_all
  qed
qed simp

lemma balance_loop_heapify: "balance_loop e cs (heapify (\<lambda>v. v) h) d = greedy_loop e cs h d"
  using hq.build_law [of "\<lambda>v. v" h] by (intro balance_loop_greedy) simp_all

text \<open>The heap of the default router is a greedy assignment: the longest request first, each to the open rank with the least tokens.\<close>

lemma balance_is_greedy:
  "balance_requests_across_ranks items new loads tokens expected = greedy_balance items new loads tokens expected"
  by (simp add: balance_requests_across_ranks_def greedy_balance_def balance_loop_heapify Let_def)







section \<open>The default router\<close>













end
