(* ===== verification/Spec2Isabelle.thy ===== *)
theory Spec2Isabelle
  imports KV_Slots KV_Storage_Config KV_Eviction KV_Sizing KV_Match Mapping_Laws Sched_Unified Sched_Output Waiting_Queue_Laws Context_Partition ADP_Router_Laws
begin

text \<open>
  A verification library for the parts of the repository that decide which request runs, on which
  rank, and which blocks of the KV cache it may use.

  \<^bold>\<open>The program.\<close> Requests arrive in a waiting queue (\<^verbatim>\<open>pyexecutor/scheduler/waiting_queue.py\<close>,
  \<^verbatim>\<open>pyexecutor/request_utils.py\<close>). In every step the executor takes requests from the queue and
  gives the active ones to the scheduler (\<^verbatim>\<open>pyexecutor/scheduler/scheduler.py\<close>): the capacity
  scheduler chooses those for which the KV cache has room, the micro batch scheduler cuts the choice
  down to a batch within the token limit, and the result is sent to the other ranks as lists of ids.
  The ranks are arranged in groups by \<^verbatim>\<open>mapping.py\<close>; with Helix context parallelism each rank of a
  context group gets its part of a prompt. The second KV cache manager
  (\<^verbatim>\<open>runtime/kv_cache_manager_v2\<close>) keeps keys and values in pools of equally sized slots on several
  cache levels. A configuration of layers becomes a storage layout, a memory quota becomes numbers
  of slots, an allocator hands the slots out, pages that nobody uses are queued for eviction, and a
  radix tree of blocks finds the longest prefix of a new prompt whose pages can be reused.

  \<^bold>\<open>Shared theories.\<close>
  \<^item> \<open>KV_Prelude\<close>: exceptions as values (\<open>error\<close>, \<open>'a res\<close>, with \<open>bindR\<close>, \<open>guardR\<close>, \<open>assertR\<close>),
    Python lists and dictionaries, shared facts.
  \<^item> \<open>Heapq\<close>: the functions of Python's \<^verbatim>\<open>heapq\<close> on lists. Each keeps the heap order and the
    multiset of entries, and a pop returns a minimum (locale \<open>min_heap\<close>, interpreted as \<open>hq\<close>).

  \<^bold>\<open>KV cache manager.\<close>
  \<^item> \<open>KV_Utils\<close>: \<^verbatim>\<open>_utils.py\<close>: rounded division, \<open>HalfOpenRange\<close>, list helpers, \<open>Array2D\<close>,
    \<open>SimplePool\<close>.
  \<^item> \<open>KV_Bitset\<close>: \<open>DynamicBitset\<close> of \<^verbatim>\<open>_utils.py\<close> on 64-bit words. It refines the finite set of
    its members (locale \<open>occupancy_mask\<close>, interpreted as \<open>bs\<close>).
  \<^item> \<open>KV_Slots\<close>: \<open>Slot\<close> and \<open>SlotAllocator\<close> of \<^verbatim>\<open>_storage/_core.py\<close>: allocation, release,
    growing, the two-phase shrink, the busy wait for CUDA events. \<open>alloc_run\<close> is the step relation
    of the allocator with the set of ids its callers hold; no id is ever handed out twice.
  \<^item> \<open>KV_Config\<close>: \<^verbatim>\<open>_config.py\<close> and \<^verbatim>\<open>_life_cycle_registry.py\<close>: configuration objects and their
    checks, stale and scratch block ranges, the registry of life cycles.
  \<^item> \<open>KV_Storage_Config\<close>: \<^verbatim>\<open>_storage/_config.py\<close>: \<open>create_storage_config\<close> and the tables derived
    from its result; buffers are placed once and do not overlap.
  \<^item> \<open>KV_Sizing\<close>: the arithmetic of \<^verbatim>\<open>_storage/_core.py\<close> from a memory quota to slot counts; the
    searches end with a maximal count, the split is bounded by the quota or the minimums, and for a
    single pool it is given in closed form, with the case in which it exceeds the quota.
  \<^item> \<open>KV_Eviction\<close>: \<^verbatim>\<open>_eviction_controller/_eviction_controller.py\<close>: the LRU and the prioritized
    policy (locale \<open>eviction_policy\<close>, the protocol \<open>EvictionPolicy\<close> of the code, interpreted for
    both) and the controller of a cache level. \<open>evict\<close> is specified exactly, with the group whose
    error it raises.
  \<^item> \<open>KV_Cache_Key\<close>: \<^verbatim>\<open>_cache_key.py\<close> and the chain of block keys; without hash collisions a key
    identifies the reuse scope and the bytes of every block up to its own: the tokens themselves when
    they are 64-bit integers, while digests of multimodal items enter without a mark.
  \<^item> \<open>KV_Radix_Tree\<close>, \<open>KV_Radix_Remove\<close>, \<open>KV_Radix_Add\<close>: \<^verbatim>\<open>_block_radix_tree.py\<close>. Blocks, root
    blocks and pages live in an explicit store (the record \<open>radix_tree\<close>) and refer to each other by
    number. \<open>remove_subtree\<close> detaches exactly the blocks below its argument, \<open>clear\<close> empties the tree,
    and adding a block keeps the invariant \<open>tree_ok\<close>, except below a parent that is not full, which
    the code accepts.
  \<^item> \<open>KV_Match\<close>: \<open>match\<close> of the same file: a match is sound, follows every stored chain and ends at
    the largest endpoint at which all needed pages are present.

  \<^bold>\<open>Schedulers and queues.\<close>
  \<^item> \<open>Sched_Request\<close>: the part of \<^verbatim>\<open>llmRequest.h\<close> the schedulers read and write, and
    \<open>ScheduledRequests\<close> with its derived lists.
  \<^item> \<open>Sched_Micro_Batch\<close>, \<open>Sched_Micro_Batch_Laws\<close>, \<open>Sched_Batch_Laws\<close>: \<open>PyMicroBatchScheduler\<close>
    with its chunking policies. The policies return, stay within the budget, and equal progress does
    not stop early; the batch respects the token limit and the batch size.
  \<^item> \<open>Sched_Capacity\<close>, \<open>Sched_Capacity_Laws\<close>: \<open>PyCapacityScheduler\<close> and its policies. Without
    eviction the admitted requests fit until they complete; the maximal utilization policy returns
    and never schedules a request that it pauses.
  \<^item> \<open>Sched_Unified\<close>: \<open>SimpleScheduler\<close> and \<open>SimpleUnifiedScheduler\<close>, the composition of both. The
    locale \<open>two_step_scheduling\<close> states what the two steps promise; \<open>uni\<close> interprets it on the model.
  \<^item> \<open>Sched_Output\<close>: \<open>SerializableSchedulerOutput\<close>; reading back what was sent gives the same result.
  \<^item> \<open>Waiting_Queue\<close>, \<open>Waiting_Queue_Laws\<close>: the first-come and the priority queue and the loop that
    takes requests from them. The locale \<open>waiting_queue_contract\<close> specifies a queue as a list in the
    order of service; \<open>fcfs\<close> and \<open>prio\<close> interpret it on the two queues.
  \<^item> \<open>ADP_Router\<close>, \<open>ADP_Router_Laws\<close>: \<^verbatim>\<open>adp_router.py\<close>: how new requests are dealt out to the ranks of attention data
    parallelism (default, with conversations, with knowledge of the caches), the flat form in which
    ranks exchange their loads, and the admission of requests in \<^verbatim>\<open>py_executor.py\<close>. The
    heap of the default router is a greedy assignment; a batch for which the ranks have room is dealt
    out completely, and no rank gets more requests than the number returned. The other two routers are
    modelled without a theorem.

  \<^bold>\<open>Ranks.\<close>
  \<^item> \<open>Mapping_Topology\<close>, \<open>Mapping_Laws\<close>: \<open>Mapping\<close> with the MPI topology: coordinates, groups,
    neighbours, layers of a stage, expert groups, the dictionary form.
  \<^item> \<open>Context_Partition\<close>: \<open>partition_context_for_helix\<close> of \<^verbatim>\<open>request_utils.py\<close>: every position of
    a prompt goes to exactly one rank.

  \<^bold>\<open>State and errors.\<close> Objects are records, methods take the record and return it updated; where
  aliasing matters (the radix tree) the objects are in a store. A raise or a failed assertion is a
  value \<open>Inl e\<close>.

  \<^bold>\<open>Parameters.\<close> Code outside the repository and code reached only through an interface is an
  argument:
  \<^item> the hash function of the block keys; freedom of collisions is a hypothesis where it is needed;
  \<^item> completion of a CUDA event, and \<^verbatim>\<open>os.path.isdir\<close>, as predicates;
  \<^item> the linked list of the package \<^verbatim>\<open>llist\<close>: the record \<open>dllist_ops\<close> with the laws \<open>dllist_laws\<close>;
  \<^item> torch: the records \<open>torch_ops\<close> and \<open>row_ops\<close> with the documented behaviour as hypotheses and
    the list instances \<open>list_torch\<close> and \<open>list_rows\<close>;
  \<^item> the cache and adapter managers the capacity scheduler asks: records of functions of which the
    theorems assume nothing unless a hypothesis says so;
  \<^item> the floating point roundings in the split of a quota and in the fair share of a rank, as integer
    functions; the floating point scores of a router, as the record \<open>float_ops\<close>;
  \<^item> the exchange between ranks, the probe of a cache for a prefix and the seeded shuffle of a router;
  \<^item> \<open>ndebug\<close>, the module constant \<open>NDEBUG\<close>.

  \<^bold>\<open>Integers.\<close> Python integers are \<open>int\<close>, or \<open>nat\<close> where the code only forms non-negative values;
  the words of the bitset are 64-bit machine words and key material is a list of 8-bit words.

  \<^bold>\<open>Idealisations.\<close> The laws of the rounded shares (\<open>share_laws\<close>, \<open>rshare_laws\<close>) are those of
  double precision below \<open>2^53\<close>. The product of the
  default router with its multiplier 1.0 is exact there. Priorities are rational numbers, so NaN is not among them.
  The tokens that become a torch tensor are unbounded, so the overflow of its 64-bit entries does not
  appear. Names of context parallelism are upper-cased in ASCII only, and the change \<^verbatim>\<open>Mapping\<close> makes to
  the dictionary of its caller is not represented. The flag \<^verbatim>\<open>attention_dp_relax\<close> is a truth value, never
  \<^verbatim>\<open>None\<close>.

  \<^bold>\<open>Loops and fuel.\<close> Only \<open>synchronize_fuel\<close> has fuel: one unit per round of the busy wait;
  \<open>T + 2\<close> units are enough when every event has completed at round \<open>T\<close>. Other loops without an
  obvious bound (equal progress, taking from a queue, the searches for slot counts, \<open>clear\<close>, the walk
  to the root of a tree) are \<open>partial_function (option)\<close>, so not returning is the value \<open>None\<close>; that
  they return is part of the theorems. The loop of the maximal utilization policy is a total function
  with a measure.

  \<^bold>\<open>Not modelled.\<close>
  \<^item> The per-request cache object, the manager that ties the parts together, page holders and locks
    and the storage manager (\<^verbatim>\<open>_core\<close>, \<^verbatim>\<open>_page.py\<close>, \<^verbatim>\<open>_storage_manager.py\<close>): they work through
    finalizers, weak references and CUDA streams. Of the pages, priorities and indices are modelled.
  \<^item> Physical pools, virtual memory and the copy engine: calls to drivers and the operating system.
  \<^item> Events, statistics and introspection: reports without effect on decisions.
  \<^item> \<^verbatim>\<open>scheduler_v2.py\<close>, which suspends and resumes the cache objects above.
  \<^item> The device-mesh topology of \<^verbatim>\<open>mapping.py\<close>, which asks torch.distributed for its groups, and the
    star-attention partition of prompts.
  \<^item> The executor loop, samplers, layers, models, kernels, the Vulkan backend, the C++ schedulers and
    cache managers, and the user interfaces: threads, device code, floating point, or third-party
    frameworks.
\<close>

end
